(* ===== verification/Prelude.thy ===== *)
theory Prelude
  imports Main "HOL-Library.Word" "HOL-Library.Char_ord" "HOL-Library.Code_Target_Numeral"
begin

section \<open>Prelude: C values, undefined behaviour and shared lemmas\<close>

text \<open>
  What the component theories share: the outcomes of a C function that may run into undefined
  behaviour, C strings and their characters, and the list lemmas used everywhere.

  A C function that can read outside an array, follow a null pointer or fail to return is a HOL
  function into \<open>'a cres\<close>: \<open>Inr x\<close> is the ordinary result, \<open>Inl f\<close> says which fault the run meets.
  Faults are propagated by \<open>cbind\<close>, as nothing of the C run after one has a meaning.
  A C string is the list of its characters without the terminating NUL; \<open>js_at s i\<close> reads the buffer
  of such a string, the terminator included.
  Memory allocation always succeeds in the model.
\<close>

named_theorems cres_simps \<open>unfolding of fault propagation\<close>
named_theorems char_class \<open>definitions of the character classes of C library and tokenizer\<close>

subsection \<open>Outcomes\<close>

datatype fault =
    OutOfBounds   \<comment> \<open>a read or write outside an object\<close>
  | BadPointer    \<comment> \<open>a null or never assigned pointer is followed\<close>
  | Uninit        \<comment> \<open>memory that was never written is read\<close>
  | BadConversion \<comment> \<open>a numeric conversion whose value the target type cannot hold\<close>
  | Diverges      \<comment> \<open>the loop does not stop (or the fuel of the model is used up)\<close>

type_synonym 'a cres = "fault + 'a"

fun cbind :: "'a cres \<Rightarrow> ('a \<Rightarrow> 'b cres) \<Rightarrow> 'b cres" where
  "cbind (Inl e) f = Inl e"
| "cbind (Inr x) f = f x"

lemma cbind_Inr_iff [cres_simps]: "cbind m f = Inr y \<longleftrightarrow> (\<exists>x. m = Inr x \<and> f x = Inr y)"
  by (cases m) auto

lemma cbind_Inl_iff [cres_simps]:
  "cbind m f = Inl e \<longleftrightarrow> m = Inl e \<or> (\<exists>x. m = Inr x \<and> f x = Inl e)"
  by (cases m) auto

lemma cbind_cong [fundef_cong]:
  "m = m' \<Longrightarrow> (\<And>x. m' = Inr x \<Longrightarrow> f x = f' x) \<Longrightarrow> cbind m f = cbind m' f'"
  by (cases m') auto

lemma cbind_assoc: "cbind (cbind m f) g = cbind m (\<lambda>x. cbind (f x) g)"
  by (cases m) simp_all

subsection \<open>Characters and C strings\<close>

definition NUL :: char where
  "NUL = CHR 0x00"

definition char_code :: "char \<Rightarrow> nat" where
  "char_code c = of_char c"

definition js_at :: "string \<Rightarrow> nat \<Rightarrow> char" where
  "js_at s i = (if i < length s then s ! i else NUL)"

lemma js_at_append_left [simp]: "i < length s \<Longrightarrow> js_at (s @ t) i = js_at s i"
  by (simp add: js_at_def nth_append)

lemma js_at_append_right: "length s \<le> i \<Longrightarrow> js_at (s @ t) i = js_at t (i - length s)"
  by (auto simp: js_at_def nth_append)

lemma js_at_middle [simp]: "length pre = n \<Longrightarrow> js_at (pre @ c # post) n = c"
  by (auto simp: js_at_def nth_append)

text \<open>The text between two offsets of a buffer, as \<^verbatim>\<open>strncpy\<close> copies it.\<close>

definition substr :: "string \<Rightarrow> nat \<Rightarrow> nat \<Rightarrow> string" where
  "substr s i j = take (j - i) (drop i s)"

lemma substr_append [simp]:
  "length pre = i \<Longrightarrow> j = i + length mid \<Longrightarrow> substr (pre @ mid @ post) i j = mid"
  by (simp add: substr_def)

lemma length_substr: "j \<le> length s \<Longrightarrow> length (substr s i j) = j - i"
  by (simp add: substr_def)

lemma substr_nth: "k < j - i \<Longrightarrow> j \<le> length s \<Longrightarrow> substr s i j ! k = s ! (i + k)"
  by (simp add: substr_def)

definition is_space :: "char \<Rightarrow> bool" where
  [char_class]: "is_space c \<longleftrightarrow> char_code c = 32 \<or> (9 \<le> char_code c \<and> char_code c \<le> 13)"

definition is_digit :: "char \<Rightarrow> bool" where
  [char_class]: "is_digit c \<longleftrightarrow> 48 \<le> char_code c \<and> char_code c \<le> 57"

definition is_lower :: "char \<Rightarrow> bool" where
  [char_class]: "is_lower c \<longleftrightarrow> 97 \<le> char_code c \<and> char_code c \<le> 122"

definition is_upper :: "char \<Rightarrow> bool" where
  [char_class]: "is_upper c \<longleftrightarrow> 65 \<le> char_code c \<and> char_code c \<le> 90"

definition to_upper :: "char \<Rightarrow> char" where
  "to_upper c = (if is_lower c then char_of (char_code c - 32) else c)"

definition to_lower :: "char \<Rightarrow> char" where
  "to_lower c = (if is_upper c then char_of (char_code c + 32) else c)"

definition digit_val :: "char \<Rightarrow> nat" where
  "digit_val c = char_code c - 48"

lemma drop_step: "drop k xs = x # ys \<Longrightarrow> drop (k + 1) xs = ys"
  by (metis Suc_eq_plus1 drop_Suc list.sel(3) tl_drop)

subsection \<open>Signed array indices\<close>

text \<open>An array read at a signed index faults outside the array.\<close>

definition arr_get :: "'a list \<Rightarrow> int \<Rightarrow> 'a cres" where
  "arr_get xs i = (if 0 \<le> i \<and> i < int (length xs) then Inr (xs ! nat i) else Inl OutOfBounds)"

lemma arr_get_Inr [simp]: "0 \<le> i \<Longrightarrow> i < int (length xs) \<Longrightarrow> arr_get xs i = Inr (xs ! nat i)"
  by (simp add: arr_get_def)

lemma arr_get_neg [simp]: "i < 0 \<Longrightarrow> arr_get xs i = Inl OutOfBounds"
  by (simp add: arr_get_def)

lemma arr_get_Inr_iff:
  "arr_get xs i = Inr x \<longleftrightarrow> 0 \<le> i \<and> i < int (length xs) \<and> x = xs ! nat i"
  by (auto simp: arr_get_def)

subsection \<open>Buffers and formatting\<close>

text \<open>
  \<^verbatim>\<open>snprintf\<close> into a buffer of \<open>n > 0\<close> characters keeps at most \<open>n - 1\<close> of them. \<open>buf_cat\<close> is
  \<^verbatim>\<open>strcat\<close> (or \<^verbatim>\<open>strcpy\<close> onto the empty string) into an array of \<open>cap\<close> characters. \<open>dec\<close> prints
  an unsigned number.
\<close>

definition snprintf :: "nat \<Rightarrow> string \<Rightarrow> string" where
  "snprintf n s = take (n - 1) s"

lemma snprintf_fits [simp]: "length s < n \<Longrightarrow> snprintf n s = s"
  by (simp add: snprintf_def)

definition buf_cat :: "nat \<Rightarrow> string \<Rightarrow> string \<Rightarrow> string cres" where
  "buf_cat cap s t = (if length s + length t < cap then Inr (s @ t) else Inl OutOfBounds)"

fun dec :: "nat \<Rightarrow> string" where
  "dec n = (if n < 10 then [char_of (48 + n)] else dec (n div 10) @ [char_of (48 + n mod 10)])"

declare dec.simps [simp del]

text \<open>A heap block whose bytes may not be initialised, and the C string that starts in it.\<close>

type_synonym block = "char option list"

fun c_string :: "block \<Rightarrow> string cres" where
  "c_string [] = Inl OutOfBounds"
| "c_string (None # b) = Inl Uninit"
| "c_string (Some c # b) = (if c = NUL then Inr [] else cbind (c_string b) (\<lambda>s. Inr (c # s)))"

lemma c_string_text: "NUL \<notin> set s \<Longrightarrow> c_string (map Some s @ Some NUL # b) = Inr s"
  by (induction s) auto

subsection \<open>Bytes\<close>

text \<open>The characters of a C string as unsigned bytes, and back.\<close>

type_synonym byte = "8 word"

definition bytes_of :: "string \<Rightarrow> byte list" where
  "bytes_of s = map (\<lambda>c. word_of_nat (char_code c)) s"

definition text_of :: "byte list \<Rightarrow> string" where
  "text_of bs = map (\<lambda>b. char_of (unat b)) bs"

lemma text_of_bytes_of [simp]: "text_of (bytes_of s) = s"
  by (induction s) (auto simp: text_of_def bytes_of_def char_code_def unsigned_of_nat take_bit_eq_mod)

lemma length_bytes_of [simp]: "length (bytes_of s) = length s"
  by (simp add: bytes_of_def)

end
