(* ===== verification/Jsmn.thy ===== *)
theory Jsmn
  imports Prelude
begin

section \<open>The JSON tokenizer (\<^verbatim>\<open>utils/jsmn.c\<close>)\<close>

text \<open>
  The tokenizer in the configuration the repository builds: neither \<^verbatim>\<open>JSMN_STRICT\<close> nor
  \<^verbatim>\<open>JSMN_PARENT_LINKS\<close> is defined. The token array is a list whose length is \<^verbatim>\<open>num_tokens\<close>; the
  counting mode (a null token array) is \<open>None\<close>. The fields \<^verbatim>\<open>pos\<close> and \<^verbatim>\<open>toknext\<close> (unsigned int) are
  natural numbers and \<^verbatim>\<open>toksuper\<close>, \<^verbatim>\<open>start\<close>, \<^verbatim>\<open>end\<close>, \<^verbatim>\<open>size\<close> (int) are integers: by the
  invariant below none of them ever exceeds the length of the text or of the token array, so for texts
  below two gigabytes nothing wraps.
\<close>

subsection \<open>Data\<close>

datatype jsmntype = JSMN_UNDEFINED | JSMN_OBJECT | JSMN_ARRAY | JSMN_STRING | JSMN_PRIMITIVE

datatype jsmnerr = JSMN_ERROR_NOMEM | JSMN_ERROR_INVAL | JSMN_ERROR_PART

record jsmntok =
  tok_type :: jsmntype
  tok_start :: int
  tok_end :: int
  tok_size :: int

record jsmn_parser =
  pos :: nat
  toknext :: nat
  toksuper :: int

definition jsmn_init :: jsmn_parser where
  "jsmn_init = \<lparr>pos = 0, toknext = 0, toksuper = -1\<rparr>"

subsection \<open>Token allocation\<close>

definition jsmn_alloc_token ::
    "'a jsmn_parser_scheme \<Rightarrow> jsmntok list \<Rightarrow> (nat \<times> 'a jsmn_parser_scheme \<times> jsmntok list) option" where
  "jsmn_alloc_token p ts =
     (if toknext p \<ge> length ts then None
      else Some (toknext p, p\<lparr>toknext := toknext p + 1\<rparr>,
                 ts[toknext p := (ts ! toknext p)\<lparr>tok_start := -1, tok_end := -1, tok_size := 0\<rparr>]))"

definition jsmn_fill_token :: "jsmntok \<Rightarrow> jsmntype \<Rightarrow> int \<Rightarrow> int \<Rightarrow> jsmntok" where
  "jsmn_fill_token t ty s e = t\<lparr>tok_type := ty, tok_start := s, tok_end := e, tok_size := 0\<rparr>"

subsection \<open>Primitives\<close>

definition prim_delim :: "char \<Rightarrow> bool" where
  [char_class]: "prim_delim c \<longleftrightarrow>
     c \<in> {CHR '':'', CHR 0x09, CHR 0x0D, CHR 0x0A, CHR '' '', CHR '','', CHR '']'', CHR ''}''}"

text \<open>The scanning loop: the position of the first delimiter (or the end), or an invalid character.\<close>

function primitive_scan :: "string \<Rightarrow> nat \<Rightarrow> nat \<Rightarrow> jsmnerr + nat" where
  "primitive_scan js len q =
     (if q < len \<and> js_at js q \<noteq> NUL then
        (if prim_delim (js_at js q) then Inr q
         else if char_code (js_at js q) < 32 \<or> char_code (js_at js q) \<ge> 127 then Inl JSMN_ERROR_INVAL
         else primitive_scan js len (q + 1))
      else Inr q)"
  by pat_completeness auto
termination
  by (relation "measure (\<lambda>(js, len, q). len - q)") auto

declare primitive_scan.simps [simp del]

definition jsmn_parse_primitive ::
    "'a jsmn_parser_scheme \<Rightarrow> string \<Rightarrow> nat \<Rightarrow> jsmntok list option \<Rightarrow>
     (jsmnerr + unit) \<times> 'a jsmn_parser_scheme \<times> jsmntok list option" where
  "jsmn_parse_primitive p js len tokens =
     (let start = pos p in
      case primitive_scan js len start of
        Inl e \<Rightarrow> (Inl e, p\<lparr>pos := start\<rparr>, tokens)
      | Inr q \<Rightarrow>
          (case tokens of
             None \<Rightarrow> (Inr (), p\<lparr>pos := q - 1\<rparr>, None)
           | Some ts \<Rightarrow>
               (case jsmn_alloc_token (p\<lparr>pos := q\<rparr>) ts of
                  None \<Rightarrow> (Inl JSMN_ERROR_NOMEM, p\<lparr>pos := start\<rparr>, tokens)
                | Some (i, p', ts') \<Rightarrow>
                    (Inr (), p'\<lparr>pos := pos p' - 1\<rparr>,
                     Some (ts'[i := jsmn_fill_token (ts' ! i) JSMN_PRIMITIVE (int start) (int q)])))))"

subsection \<open>Strings\<close>

definition is_hex :: "char \<Rightarrow> bool" where
  [char_class]: "is_hex c \<longleftrightarrow>
     (48 \<le> char_code c \<and> char_code c \<le> 57) \<or> (65 \<le> char_code c \<and> char_code c \<le> 70) \<or>
     (97 \<le> char_code c \<and> char_code c \<le> 102)"

text \<open>The loop over the (at most) four digits after \<^verbatim>\<open>\u\<close>; \<open>n\<close> is the number still to read.\<close>

fun hex_scan :: "string \<Rightarrow> nat \<Rightarrow> nat \<Rightarrow> nat \<Rightarrow> jsmnerr + nat" where
  "hex_scan js len 0 q = Inr q"
| "hex_scan js len (Suc n) q =
     (if q < len \<and> js_at js q \<noteq> NUL then
        (if \<not> is_hex (js_at js q) then Inl JSMN_ERROR_INVAL else hex_scan js len n (q + 1))
      else Inr q)"

lemma hex_scan_ge: "hex_scan js len n q = Inr r \<Longrightarrow> q \<le> r"
  by (induction js len n q rule: hex_scan.induct) (auto split: if_splits)

definition simple_escape :: "char \<Rightarrow> bool" where
  [char_class]: "simple_escape c \<longleftrightarrow>
     c \<in> {CHR 0x22, CHR ''/'', CHR 0x5C, CHR ''b'', CHR ''f'', CHR ''r'', CHR ''n'', CHR ''t''}"

text \<open>The loop over the characters of a string, from the one after the opening quote: the position of
  the closing quote or an error. After \<^verbatim>\<open>\u\<close> the code steps back one position and the loop's
  increment forward again, so the scan goes on at the position \<open>hex_scan\<close> stopped at.\<close>

function string_scan :: "string \<Rightarrow> nat \<Rightarrow> nat \<Rightarrow> jsmnerr + nat" where
  "string_scan js len q =
     (if q < len \<and> js_at js q \<noteq> NUL then
        (let c = js_at js q in
         if c = CHR 0x22 then Inr q
         else if c = CHR 0x5C \<and> q + 1 < len then
           (let d = js_at js (q + 1) in
            if simple_escape d then string_scan js len (q + 2)
            else if d = CHR ''u'' then
              (case hex_scan js len 4 (q + 2) of
                 Inl e \<Rightarrow> Inl e
               | Inr r \<Rightarrow> string_scan js len r)
            else Inl JSMN_ERROR_INVAL)
         else string_scan js len (q + 1))
      else Inl JSMN_ERROR_PART)"
  by pat_completeness auto
termination
  by (relation "measure (\<lambda>(js, len, q). len - q)") (auto dest: hex_scan_ge)

declare string_scan.simps [simp del]

definition jsmn_parse_string ::
    "'a jsmn_parser_scheme \<Rightarrow> string \<Rightarrow> nat \<Rightarrow> jsmntok list option \<Rightarrow>
     (jsmnerr + unit) \<times> 'a jsmn_parser_scheme \<times> jsmntok list option" where
  "jsmn_parse_string p js len tokens =
     (let start = pos p in
      case string_scan js len (start + 1) of
        Inl e \<Rightarrow> (Inl e, p\<lparr>pos := start\<rparr>, tokens)
      | Inr q \<Rightarrow>
          (case tokens of
             None \<Rightarrow> (Inr (), p\<lparr>pos := q\<rparr>, None)
           | Some ts \<Rightarrow>
               (case jsmn_alloc_token (p\<lparr>pos := q\<rparr>) ts of
                  None \<Rightarrow> (Inl JSMN_ERROR_NOMEM, p\<lparr>pos := start\<rparr>, tokens)
                | Some (i, p', ts') \<Rightarrow>
                    (Inr (), p',
                     Some (ts'[i := jsmn_fill_token (ts' ! i) JSMN_STRING (int (start + 1)) (int q)])))))"

subsection \<open>The main loop\<close>

text \<open>The state of the loop of \<^verbatim>\<open>jsmn_parse\<close>: the parser, the token array and \<^verbatim>\<open>count\<close>.\<close>

record jsmn_state = jsmn_parser +
  tokens :: "jsmntok list option"
  count :: nat

definition tok_open :: "jsmntok \<Rightarrow> bool" where
  "tok_open t \<longleftrightarrow> tok_start t \<noteq> -1 \<and> tok_end t = -1"

text \<open>The backward searches: the last index below \<open>n\<close> whose token satisfies \<open>P\<close>; \<open>None\<close> is the
  loop running down to \<^verbatim>\<open>i == -1\<close>.\<close>

fun find_last :: "(jsmntok \<Rightarrow> bool) \<Rightarrow> jsmntok list \<Rightarrow> nat \<Rightarrow> nat option" where
  "find_last P ts 0 = None"
| "find_last P ts (Suc i) = (if P (ts ! i) then Some i else find_last P ts i)"

definition container :: "jsmntok \<Rightarrow> bool" where
  "container t \<longleftrightarrow> tok_type t = JSMN_ARRAY \<or> tok_type t = JSMN_OBJECT"

definition bump_size :: "jsmntok list \<Rightarrow> int \<Rightarrow> jsmntok list" where
  "bump_size ts i =
     (if i \<noteq> -1 then ts[nat i := (ts ! nat i)\<lparr>tok_size := tok_size (ts ! nat i) + 1\<rparr>] else ts)"

text \<open>Opening bracket.\<close>

definition step_open :: "jsmn_state \<Rightarrow> jsmntype \<Rightarrow> jsmnerr + jsmn_state" where
  "step_open s ty =
     (let s = s\<lparr>count := count s + 1\<rparr> in
      case tokens s of
        None \<Rightarrow> Inr s
      | Some ts \<Rightarrow>
          (case jsmn_alloc_token s ts of
             None \<Rightarrow> Inl JSMN_ERROR_NOMEM
           | Some (i, s', ts') \<Rightarrow>
               (let ts1 = bump_size ts' (toksuper s');
                    ts2 = ts1[i := (ts1 ! i)\<lparr>tok_type := ty, tok_start := int (pos s')\<rparr>]
                in Inr (s'\<lparr>tokens := Some ts2, toksuper := int (toknext s') - 1\<rparr>))))"

text \<open>Closing bracket: close the innermost open token, which must have the right type, and make the
  next open one outside it the superior token.\<close>

definition step_close :: "jsmn_state \<Rightarrow> jsmntype \<Rightarrow> jsmnerr + jsmn_state" where
  "step_close s ty =
     (case tokens s of
        None \<Rightarrow> Inr s
      | Some ts \<Rightarrow>
          (case find_last tok_open ts (toknext s) of
             None \<Rightarrow> Inl JSMN_ERROR_INVAL
           | Some i \<Rightarrow>
               if tok_type (ts ! i) \<noteq> ty then Inl JSMN_ERROR_INVAL
               else
                 (let ts' = ts[i := (ts ! i)\<lparr>tok_end := int (pos s) + 1\<rparr>] in
                  Inr (s\<lparr>tokens := Some ts',
                         toksuper := (case find_last tok_open ts' (i + 1) of
                                        None \<Rightarrow> -1 | Some k \<Rightarrow> int k)\<rparr>))))"

definition step_comma :: "jsmn_state \<Rightarrow> jsmnerr + jsmn_state" where
  "step_comma s =
     (case tokens s of
        None \<Rightarrow> Inr s
      | Some ts \<Rightarrow>
          if toksuper s \<noteq> -1 \<and> \<not> container (ts ! nat (toksuper s)) then
            (case find_last (\<lambda>t. container t \<and> tok_open t) ts (toknext s) of
               None \<Rightarrow> Inr s
             | Some i \<Rightarrow> Inr (s\<lparr>toksuper := int i\<rparr>))
          else Inr s)"

text \<open>What follows a string or primitive: count it, and count it in its superior token.\<close>

definition step_item ::
    "(jsmnerr + unit) \<times> jsmn_state \<times> jsmntok list option \<Rightarrow> jsmnerr + jsmn_state" where
  "step_item res =
     (case res of (r, s, tks) \<Rightarrow>
        (case r of
           Inl e \<Rightarrow> Inl e
         | Inr u \<Rightarrow>
             Inr (s\<lparr>count := count s + 1,
                    tokens := (case tks of
                                 None \<Rightarrow> None
                               | Some ts \<Rightarrow> Some (bump_size ts (toksuper s)))\<rparr>)))"

text \<open>One pass of the loop body: the \<^verbatim>\<open>switch\<close> on the character.\<close>

definition jsmn_body :: "string \<Rightarrow> nat \<Rightarrow> jsmn_state \<Rightarrow> jsmnerr + jsmn_state" where
  "jsmn_body js len s =
     (let c = js_at js (pos s) in
      if c = CHR ''{'' then step_open s JSMN_OBJECT
      else if c = CHR ''['' then step_open s JSMN_ARRAY
      else if c = CHR ''}'' then step_close s JSMN_OBJECT
      else if c = CHR '']'' then step_close s JSMN_ARRAY
      else if c = CHR 0x22 then step_item (jsmn_parse_string s js len (tokens s))
      else if c \<in> {CHR 0x09, CHR 0x0D, CHR 0x0A, CHR '' ''} then Inr s
      else if c = CHR '':'' then Inr (s\<lparr>toksuper := int (toknext s) - 1\<rparr>)
      else if c = CHR '','' then step_comma s
      else step_item (jsmn_parse_primitive s js len (tokens s)))"

definition jsmn_step :: "string \<Rightarrow> nat \<Rightarrow> jsmn_state \<Rightarrow> jsmnerr + jsmn_state" where
  "jsmn_step js len s =
     (case jsmn_body js len s of Inl e \<Rightarrow> Inl e | Inr s' \<Rightarrow> Inr (s'\<lparr>pos := pos s' + 1\<rparr>))"


lemmas tokenizer_defs = step_open_def step_close_def step_comma_def step_item_def
  jsmn_alloc_token_def jsmn_fill_token_def Let_def

text \<open>Every pass moves forward: the scans return positions past the character they start at.\<close>

lemma primitive_scan_ge: "primitive_scan js len q = Inr r \<Longrightarrow> q \<le> r"
proof (induction js len q rule: primitive_scan.induct)
  case (1 js len q)
  then show ?case by (subst (asm) (2) primitive_scan.simps) (auto split: if_splits)
qed

lemma primitive_scan_gt:
  assumes "primitive_scan js len q = Inr r" "q < len" "js_at js q \<noteq> NUL" "\<not> prim_delim (js_at js q)"
  shows "q < r"
  using assms primitive_scan_ge [of js len "q + 1" r]
  by (subst (asm) primitive_scan.simps) (auto split: if_splits)

lemma string_scan_next:
  assumes "string_scan js len q = Inr r"
  shows "q < len \<and> js_at js q \<noteq> NUL \<and>
    (js_at js q = CHR 0x22 \<and> r = q \<or> js_at js q \<noteq> CHR 0x22 \<and> (\<exists>q'>q. string_scan js len q' = Inr r))"
  using assms
  by (subst (asm) string_scan.simps)
    (auto simp: Let_def split: if_splits sum.splits dest!: hex_scan_ge;
      metis lessI less_SucI Suc_le_lessD less_trans)

lemma string_scan_induct [consumes 1, case_names close step]:
  assumes "string_scan js len q = Inr r"
    and "\<And>q. q < len \<Longrightarrow> js_at js q = CHR 0x22 \<Longrightarrow> P q q"
    and "\<And>q q' r. q < len \<Longrightarrow> js_at js q \<noteq> CHR 0x22 \<Longrightarrow> q < q' \<Longrightarrow> P q' r \<Longrightarrow> P q r"
  shows "P q r"
  using assms(1)
proof (induction "len - q" arbitrary: q rule: less_induct)
  case less
  from string_scan_next [OF less.prems] show ?case
    using assms(2,3) less.hyps by (metis diff_less_mono2)
qed

lemma string_scan_ge: "string_scan js len q = Inr r \<Longrightarrow> q \<le> r"
  by (induction rule: string_scan_induct) auto

lemma string_scan_close: "string_scan js len q = Inr r \<Longrightarrow> r < len \<and> js_at js r = CHR 0x22"
  by (induction rule: string_scan_induct) auto

lemma jsmn_step_pos:
  assumes "jsmn_step js len s = Inr s'" "pos s < len" "js_at js (pos s) \<noteq> NUL"
  shows "pos s < pos s'"
proof -
  have prim: "pos s < q"
    if "primitive_scan js len (pos s) = Inr q" "\<not> prim_delim (js_at js (pos s))" for q
    using primitive_scan_gt that assms(2,3) by blast
  show ?thesis
    using assms(1)
    by (auto simp: jsmn_step_def jsmn_body_def tokenizer_defs jsmn_parse_string_def
        jsmn_parse_primitive_def prim_delim_def split: if_splits sum.splits option.splits
        dest!: prim string_scan_ge)
qed

function jsmn_loop :: "string \<Rightarrow> nat \<Rightarrow> jsmn_state \<Rightarrow> jsmnerr + jsmn_state" where
  "jsmn_loop js len s =
     (if pos s < len \<and> js_at js (pos s) \<noteq> NUL then
        (case jsmn_step js len s of Inl e \<Rightarrow> Inl e | Inr s' \<Rightarrow> jsmn_loop js len s')
      else Inr s)"
  by pat_completeness auto
termination
  by (relation "measure (\<lambda>(js, len, s). len - pos s)") (auto dest: jsmn_step_pos)

declare jsmn_loop.simps [simp del]

text \<open>The whole call: the loop, then the check that no object or array is left open.\<close>

definition jsmn_parse ::
    "jsmn_parser \<Rightarrow> string \<Rightarrow> nat \<Rightarrow> jsmntok list option \<Rightarrow> jsmnerr + (nat \<times> jsmntok list option)" where
  "jsmn_parse p js len tks =
     (case jsmn_loop js len \<lparr>pos = pos p, toknext = toknext p, toksuper = toksuper p,
                            tokens = tks, count = toknext p\<rparr> of
        Inl e \<Rightarrow> Inl e
      | Inr s \<Rightarrow>
          (case tokens s of
             None \<Rightarrow> Inr (count s, None)
           | Some ts \<Rightarrow>
               (case find_last tok_open ts (toknext s) of
                  Some i \<Rightarrow> Inl JSMN_ERROR_PART
                | None \<Rightarrow> Inr (count s, Some ts))))"

end
