(* ===== verification/JsmnSafe.thy ===== *)
theory JsmnSafe
  imports Jsmn
begin

section \<open>Safety of the tokenizer\<close>

text \<open>
  The invariant of the loop of \<^verbatim>\<open>jsmn_parse\<close>: every index the code uses lies in the allocated part of
  the token array, every allocated token is a well-shaped span of the text read so far, spans begin
  in increasing order and nest properly. A successful parse therefore leaves an array whose first
  \<^verbatim>\<open>count\<close> tokens are well-shaped closed spans of the text.
\<close>

subsection \<open>Shape of a token\<close>

definition prim_char :: "char \<Rightarrow> bool" where
  [char_class]: "prim_char c \<longleftrightarrow> \<not> prim_delim c \<and> 32 \<le> char_code c \<and> char_code c < 127"

definition tok_shape :: "string \<Rightarrow> nat \<Rightarrow> jsmntok \<Rightarrow> bool" where
  "tok_shape js p t \<longleftrightarrow> 0 \<le> tok_start t \<and> tok_start t < int p \<and>
     (case tok_type t of
        JSMN_UNDEFINED \<Rightarrow> False
      | JSMN_OBJECT \<Rightarrow> js_at js (nat (tok_start t)) = CHR ''{'' \<and>
          (tok_end t \<noteq> -1 \<longrightarrow> tok_start t + 1 < tok_end t \<and> tok_end t \<le> int p \<and>
             js_at js (nat (tok_end t - 1)) = CHR ''}'')
      | JSMN_ARRAY \<Rightarrow> js_at js (nat (tok_start t)) = CHR ''['' \<and>
          (tok_end t \<noteq> -1 \<longrightarrow> tok_start t + 1 < tok_end t \<and> tok_end t \<le> int p \<and>
             js_at js (nat (tok_end t - 1)) = CHR '']'')
      | JSMN_STRING \<Rightarrow> 1 \<le> tok_start t \<and> tok_start t \<le> tok_end t \<and> tok_end t < int p \<and>
          js_at js (nat (tok_start t - 1)) = CHR 0x22 \<and> js_at js (nat (tok_end t)) = CHR 0x22
      | JSMN_PRIMITIVE \<Rightarrow> tok_start t < tok_end t \<and> tok_end t \<le> int p \<and>
          (\<forall>k. tok_start t \<le> int k \<and> int k < tok_end t \<longrightarrow> prim_char (js_at js k)))"

definition tok_nested :: "jsmntok \<Rightarrow> jsmntok \<Rightarrow> bool" where
  "tok_nested t u \<longleftrightarrow> tok_start t < tok_start u \<and>
     (tok_end t \<noteq> -1 \<longrightarrow>
        tok_end t \<le> tok_start u \<or> (tok_end u \<noteq> -1 \<and> tok_end u \<le> tok_end t))"

definition tokens_inv :: "string \<Rightarrow> nat \<Rightarrow> nat \<Rightarrow> jsmntok list \<Rightarrow> bool" where
  "tokens_inv js p n ts \<longleftrightarrow> n \<le> length ts \<and> (\<forall>i<n. tok_shape js p (ts ! i)) \<and>
     (\<forall>j<n. \<forall>i<j. tok_nested (ts ! i) (ts ! j))"

definition jsmn_inv :: "string \<Rightarrow> jsmn_state \<Rightarrow> bool" where
  "jsmn_inv js s \<longleftrightarrow>
     (case tokens s of
        None \<Rightarrow> toksuper s = -1 \<and> toknext s = 0
      | Some ts \<Rightarrow> tokens_inv js (pos s) (toknext s) ts \<and>
          -1 \<le> toksuper s \<and> toksuper s < int (toknext s) \<and> count s = toknext s)"

lemma tok_shape_size [simp]: "tok_shape js p (t\<lparr>tok_size := z\<rparr>) = tok_shape js p t"
  by (simp add: tok_shape_def split: jsmntype.split)

lemma tok_nested_size [simp]:
  "tok_nested (t\<lparr>tok_size := z\<rparr>) u = tok_nested t u" "tok_nested t (u\<lparr>tok_size := z\<rparr>) = tok_nested t u"
  by (simp_all add: tok_nested_def)

lemma tok_shape_mono: "tok_shape js p t \<Longrightarrow> p \<le> p' \<Longrightarrow> tok_shape js p' t"
  by (auto simp: tok_shape_def split: jsmntype.splits)

lemma tok_shape_end: "tok_shape js p t \<Longrightarrow> tok_end t \<le> int p"
  by (auto simp: tok_shape_def split: jsmntype.splits)

lemma tok_shape_open: "tok_shape js p t \<Longrightarrow> tok_open t \<Longrightarrow> container t \<and> tok_end t = -1"
  by (auto simp: tok_shape_def tok_open_def container_def split: jsmntype.splits)

lemma tok_shape_closed: "tok_shape js p t \<Longrightarrow> \<not> tok_open t \<Longrightarrow> tok_start t \<le> tok_end t"
  by (auto simp: tok_shape_def tok_open_def split: jsmntype.splits)

subsection \<open>The array operations keep the invariant\<close>

lemma find_last_Some:
  "find_last P ts n = Some i \<Longrightarrow> i < n \<and> P (ts ! i) \<and> (\<forall>j. i < j \<and> j < n \<longrightarrow> \<not> P (ts ! j))"
  by (induction n) (auto simp: less_Suc_eq split: if_splits)

lemma find_last_None: "find_last P ts n = None \<longleftrightarrow> (\<forall>j<n. \<not> P (ts ! j))"
  by (induction n) (auto simp: less_Suc_eq)

lemma length_bump_size [simp]: "length (bump_size ts i) = length ts"
  by (simp add: bump_size_def)

lemma bump_size_nth:
  "-1 \<le> i \<Longrightarrow> i < int (length ts) \<Longrightarrow> k < length ts \<Longrightarrow>
   bump_size ts i ! k =
     (if int k = i then (ts ! k)\<lparr>tok_size := tok_size (ts ! k) + 1\<rparr> else ts ! k)"
  by (auto simp: bump_size_def nth_list_update)

lemma tokens_inv_bump:
  assumes "tokens_inv js p n ts" "-1 \<le> i" "i < int n"
  shows "tokens_inv js p n (bump_size ts i)"
  using assms by (auto simp: tokens_inv_def bump_size_nth)

lemma tokens_inv_mono: "tokens_inv js p n ts \<Longrightarrow> p \<le> p' \<Longrightarrow> tokens_inv js p' n ts"
  by (auto simp: tokens_inv_def intro: tok_shape_mono)

lemma tokens_inv_add:
  assumes inv: "tokens_inv js p n ts" and "n < length ts" "p \<le> p'"
    and u: "tok_shape js p' u" "int p \<le> tok_start u"
  shows "tokens_inv js p' (n + 1) (ts[n := u])"
proof -
  have "tok_nested (ts ! i) u" if "i < n" for i
    using inv that u tok_shape_end [of js p "ts ! i"]
    by (auto simp: tokens_inv_def tok_nested_def tok_shape_def)
  then show ?thesis
    using inv assms(2-4)
    by (auto simp: tokens_inv_def less_Suc_eq nth_list_update intro: tok_shape_mono)
qed

lemma tokens_inv_close:
  assumes inv: "tokens_inv js p n ts" and i: "find_last tok_open ts n = Some i"
    and u: "u = (ts ! i)\<lparr>tok_end := int p + 1\<rparr>" and ty: "tok_type (ts ! i) = ty"
    and c: "js_at js p = (if ty = JSMN_OBJECT then CHR ''}'' else CHR '']'')"
  shows "tokens_inv js (p + 1) n (ts[i := u])"
proof -
  note last = find_last_Some [OF i]
  have open_i: "tok_open (ts ! i)" "i < n" and shape_i: "tok_shape js p (ts ! i)"
    using last inv by (auto simp: tokens_inv_def)
  have shape: "tok_shape js (p + 1) u"
    using shape_i tok_shape_open [OF shape_i open_i(1)] ty c
    by (auto simp: u tok_shape_def container_def)
  have left: "tok_nested (ts ! k) u" if "k < i" for k
    using inv that open_i by (auto simp: tokens_inv_def u tok_nested_def tok_open_def)
  have right: "tok_nested u (ts ! j)" if "i < j" "j < n" for j
  proof -
    have "tok_shape js p (ts ! j)" "\<not> tok_open (ts ! j)" "tok_nested (ts ! i) (ts ! j)"
      using inv last that by (auto simp: tokens_inv_def)
    then show ?thesis
      using tok_shape_end [of js p "ts ! j"] tok_shape_closed [of js p "ts ! j"]
      by (auto simp: u tok_nested_def tok_shape_def)
  qed
  show ?thesis
    using inv shape left right open_i(2)
    by (auto simp: tokens_inv_def nth_list_update intro: tok_shape_mono)
qed

subsection \<open>Every pass of the loop keeps it\<close>

lemma primitive_scan_chars:
  assumes "primitive_scan js len q = Inr r" "q \<le> k" "k < r"
  shows "prim_char (js_at js k)"
  using assms
proof (induction js len q rule: primitive_scan.induct)
  case (1 js len q)
  then show ?case
    by (cases "k = q"; subst (asm) (2) primitive_scan.simps)
      (auto simp: prim_char_def split: if_splits)
qed

lemma primitive_scan_le: "primitive_scan js len q = Inr r \<Longrightarrow> q \<le> len \<Longrightarrow> r \<le> len"
proof (induction js len q rule: primitive_scan.induct)
  case (1 js len q)
  then show ?case by (subst (asm) (2) primitive_scan.simps) (auto split: if_splits)
qed

lemma jsmn_inv_Some:
  "tokens s = Some ts \<Longrightarrow> jsmn_inv js s \<longleftrightarrow> tokens_inv js (pos s) (toknext s) ts \<and>
     -1 \<le> toksuper s \<and> toksuper s < int (toknext s) \<and> count s = toknext s"
  by (simp add: jsmn_inv_def)

lemma jsmn_inv_None:
  "tokens s = None \<Longrightarrow> jsmn_inv js s \<longleftrightarrow> toksuper s = -1 \<and> toknext s = 0"
  by (simp add: jsmn_inv_def)

text \<open>The common part of a new string or primitive token: allocate, fill, count.\<close>

definition push_token :: "jsmn_state \<Rightarrow> jsmntok list \<Rightarrow> jsmntype \<Rightarrow> nat \<Rightarrow> nat \<Rightarrow> nat \<Rightarrow> jsmn_state" where
  "push_token s ts ty a b q =
     s\<lparr>pos := q, toknext := toknext s + 1, count := count s + 1,
       tokens := Some (bump_size (ts[toknext s :=
         \<lparr>tok_type = ty, tok_start = int a, tok_end = int b, tok_size = 0\<rparr>]) (toksuper s))\<rparr>"

lemma step_string_Some:
  "tokens s = Some ts \<Longrightarrow>
   step_item (jsmn_parse_string s js len (tokens s)) =
     (case string_scan js len (pos s + 1) of
        Inl e \<Rightarrow> Inl e
      | Inr q \<Rightarrow> if toknext s < length ts
                 then Inr (push_token s ts JSMN_STRING (pos s + 1) q q) else Inl JSMN_ERROR_NOMEM)"
  by (cases s; cases "ts ! toknext s")
    (auto simp: tokenizer_defs nth_list_update jsmn_parse_string_def push_token_def split: sum.splits)

lemma step_primitive_Some:
  "tokens s = Some ts \<Longrightarrow>
   step_item (jsmn_parse_primitive s js len (tokens s)) =
     (case primitive_scan js len (pos s) of
        Inl e \<Rightarrow> Inl e
      | Inr q \<Rightarrow> if toknext s < length ts
                 then Inr (push_token s ts JSMN_PRIMITIVE (pos s) q (q - 1)) else Inl JSMN_ERROR_NOMEM)"
  by (cases s; cases "ts ! toknext s")
    (auto simp: tokenizer_defs nth_list_update jsmn_parse_primitive_def push_token_def split: sum.splits)

lemma push_token_inv:
  assumes inv: "tokens_inv js (pos s) (toknext s) ts" "-1 \<le> toksuper s" "toksuper s < int (toknext s)"
      "count s = toknext s"
    and room: "toknext s < length ts" and p: "pos s \<le> a" "pos s \<le> q + 1"
    and shape: "tok_shape js (q + 1) \<lparr>tok_type = ty, tok_start = int a, tok_end = int b, tok_size = 0\<rparr>"
  shows "jsmn_inv js ((push_token s ts ty a b q)\<lparr>pos := q + 1\<rparr>)"
proof -
  have "tokens_inv js (q + 1) (toknext s + 1)
      (ts[toknext s := \<lparr>tok_type = ty, tok_start = int a, tok_end = int b, tok_size = 0\<rparr>])"
    using inv(1) room p(2) shape by (rule tokens_inv_add) (use p in simp)
  from tokens_inv_bump [OF this, of "toksuper s"] show ?thesis
    using inv by (simp add: jsmn_inv_def push_token_def)
qed

lemma step_open_inv:
  assumes "jsmn_inv js s" "step_open s ty = Inr s'" "ty = JSMN_OBJECT \<or> ty = JSMN_ARRAY"
    "js_at js (pos s) = (if ty = JSMN_OBJECT then CHR ''{'' else CHR ''['')"
  shows "jsmn_inv js (s'\<lparr>pos := pos s' + 1\<rparr>)"
proof (cases "tokens s")
  case None
  with assms show ?thesis by (auto simp: step_open_def jsmn_inv_def)
next
  case (Some ts)
  define u where "u = \<lparr>tok_type = ty, tok_start = int (pos s), tok_end = -1, tok_size = 0\<rparr>"
  have inv: "tokens_inv js (pos s) (toknext s) ts" "-1 \<le> toksuper s" "toksuper s < int (toknext s)"
      "count s = toknext s"
    using assms(1) Some by (simp_all add: jsmn_inv_Some)
  have room: "toknext s < length ts"
    using assms(2) Some by (auto simp: tokenizer_defs split: if_splits)
  have s': "s' = s\<lparr>count := count s + 1, toknext := toknext s + 1, toksuper := int (toknext s),
      tokens := Some (bump_size (ts[toknext s := u]) (toksuper s))\<rparr>"
    using assms(2) Some room inv(2,3)
    by (cases s; cases "ts ! toknext s")
      (auto simp: tokenizer_defs u_def bump_size_def nth_list_update list_update_swap)
  have "tok_shape js (pos s + 1) u"
    using assms(3,4) by (auto simp: u_def tok_shape_def)
  then have "tokens_inv js (pos s + 1) (toknext s + 1) (ts[toknext s := u])"
    by (intro tokens_inv_add [OF inv(1) room]) (auto simp: u_def)
  from tokens_inv_bump [OF this, of "toksuper s"] show ?thesis
    using inv by (simp add: s' jsmn_inv_def)
qed

lemma step_close_inv:
  assumes "jsmn_inv js s" "step_close s ty = Inr s'" "ty = JSMN_OBJECT \<or> ty = JSMN_ARRAY"
    "js_at js (pos s) = (if ty = JSMN_OBJECT then CHR ''}'' else CHR '']'')"
  shows "jsmn_inv js (s'\<lparr>pos := pos s' + 1\<rparr>)"
proof (cases "tokens s")
  case None
  with assms show ?thesis by (auto simp: step_close_def jsmn_inv_def)
next
  case (Some ts)
  then obtain i where i: "find_last tok_open ts (toknext s) = Some i" "tok_type (ts ! i) = ty"
    using assms(2) by (auto simp: step_close_def split: option.splits if_splits)
  define ts' where "ts' = ts[i := (ts ! i)\<lparr>tok_end := int (pos s) + 1\<rparr>]"
  have s': "s' = s\<lparr>tokens := Some ts',
      toksuper := (case find_last tok_open ts' (i + 1) of None \<Rightarrow> -1 | Some k \<Rightarrow> int k)\<rparr>"
    using assms(2) Some i by (auto simp: step_close_def ts'_def Let_def)
  have "tokens_inv js (pos s + 1) (toknext s) ts'"
    unfolding ts'_def using assms(1,4) Some
    by (intro tokens_inv_close [OF _ i(1) refl i(2)]) (simp_all add: jsmn_inv_Some)
  moreover have "-1 \<le> toksuper s' \<and> toksuper s' < int (toknext s)"
    using find_last_Some [OF i(1)]
    by (cases "find_last tok_open ts' (i + 1)") (auto simp: s' simp del: find_last.simps dest: find_last_Some)
  ultimately show ?thesis
    using assms(1) Some by (simp add: jsmn_inv_def s')
qed

lemma step_comma_inv:
  assumes "jsmn_inv js s" "step_comma s = Inr s'"
  shows "jsmn_inv js (s'\<lparr>pos := pos s' + 1\<rparr>)"
  using assms
  by (auto simp: step_comma_def jsmn_inv_def split: option.splits if_splits
      intro: tokens_inv_mono dest!: find_last_Some)

lemma jsmn_step_inv:
  assumes inv: "jsmn_inv js s" and step: "jsmn_step js len s = Inr s'"
    and pos: "pos s < len" "js_at js (pos s) \<noteq> NUL"
  shows "jsmn_inv js s'"
proof -
  from step obtain t where t: "jsmn_body js len s = Inr t" "s' = t\<lparr>pos := pos t + 1\<rparr>"
    by (auto simp: jsmn_step_def split: sum.splits)
  let ?c = "js_at js (pos s)"
  show ?thesis
  proof (cases "?c \<in> {CHR ''{'', CHR ''['', CHR ''}'', CHR '']'', CHR '':'', CHR '','', CHR 0x09, CHR 0x0D,
      CHR 0x0A, CHR '' ''}")
    case True
    then show ?thesis
      using t inv step_open_inv [OF inv] step_close_inv [OF inv] step_comma_inv [OF inv]
      by (auto simp: jsmn_body_def Let_def)
        (auto simp: jsmn_inv_def split: option.splits intro: tokens_inv_mono)
  next
    case item: False
    show ?thesis
    proof (cases "tokens s")
      case None
      with item t inv show ?thesis
        by (auto simp: jsmn_body_def Let_def step_item_def jsmn_parse_string_def jsmn_inv_def
            jsmn_parse_primitive_def split: if_splits sum.splits)
    next
      case (Some ts)
      note inv' = inv [unfolded jsmn_inv_Some [OF Some]]
      show ?thesis
      proof (cases "?c = CHR 0x22")
        case True
        then obtain q where q: "string_scan js len (pos s + 1) = Inr q" "toknext s < length ts"
            "t = push_token s ts JSMN_STRING (pos s + 1) q q"
          using t item
          by (auto simp: jsmn_body_def step_string_Some [OF Some] split: sum.splits if_splits)
        have "tok_shape js (q + 1)
            \<lparr>tok_type = JSMN_STRING, tok_start = int (pos s + 1), tok_end = int q, tok_size = 0\<rparr>"
          using True string_scan_ge [OF q(1)] string_scan_close [OF q(1)]
          by (auto simp: tok_shape_def)
        then show ?thesis
          using inv' push_token_inv [of js s ts "pos s + 1" q JSMN_STRING q] q(2) t(2)
            string_scan_ge [OF q(1)]
          by (auto simp: q(3) push_token_def)
      next
        case False
        then obtain q where q: "primitive_scan js len (pos s) = Inr q" "toknext s < length ts"
            "t = push_token s ts JSMN_PRIMITIVE (pos s) q (q - 1)"
          using t item
          by (auto simp: jsmn_body_def step_primitive_Some [OF Some] Let_def split: sum.splits if_splits)
        have gt: "pos s < q"
          using primitive_scan_gt [OF q(1) pos] item by (auto simp: prim_delim_def)
        then have "tok_shape js (q - 1 + 1)
            \<lparr>tok_type = JSMN_PRIMITIVE, tok_start = int (pos s), tok_end = int q, tok_size = 0\<rparr>"
          using primitive_scan_chars [OF q(1)] by (auto simp: tok_shape_def)
        then show ?thesis
          using inv' push_token_inv [of js s ts "pos s" "q - 1" JSMN_PRIMITIVE q] q(2) t(2) gt
          by (auto simp: q(3) push_token_def)
      qed
    qed
  qed
qed

lemma jsmn_step_len:
  assumes "jsmn_step js len s = Inr s'" "pos s < len"
  shows "pos s' \<le> len"
  using assms
  by (auto simp: jsmn_step_def jsmn_body_def tokenizer_defs jsmn_parse_string_def
      jsmn_parse_primitive_def split: if_splits sum.splits option.splits
      dest!: string_scan_close dest: primitive_scan_le)

lemma jsmn_step_length:
  assumes "jsmn_step js len s = Inr s'"
  shows "map_option length (tokens s') = map_option length (tokens s)"
  using assms
  by (auto simp: jsmn_step_def jsmn_body_def tokenizer_defs jsmn_parse_string_def
      jsmn_parse_primitive_def split: if_splits sum.splits option.splits)

lemma jsmn_loop_induct [consumes 1, case_names stop step]:
  assumes "jsmn_loop js len s = Inr s'"
    and "\<And>s. \<not> (pos s < len \<and> js_at js (pos s) \<noteq> NUL) \<Longrightarrow> P s s"
    and "\<And>s t s'. jsmn_step js len s = Inr t \<Longrightarrow> pos s < len \<Longrightarrow> js_at js (pos s) \<noteq> NUL \<Longrightarrow>
           P t s' \<Longrightarrow> P s s'"
  shows "P s s'"
  using assms(1)
proof (induction "len - pos s" arbitrary: s rule: less_induct)
  case less
  show ?case
  proof (cases "pos s < len \<and> js_at js (pos s) \<noteq> NUL")
    case True
    with less.prems obtain t where t: "jsmn_step js len s = Inr t" "jsmn_loop js len t = Inr s'"
      by (subst (asm) jsmn_loop.simps) (auto split: sum.splits)
    then have "P t s'"
      using True jsmn_step_pos [OF t(1)] less.hyps [of t] by auto
    with t True assms(3) show ?thesis by blast
  next
    case False
    with less.prems have "s' = s" by (subst (asm) jsmn_loop.simps) auto
    with False assms(2) show ?thesis by blast
  qed
qed

lemma jsmn_loop_inv:
  assumes "jsmn_loop js len s = Inr s'"
  shows "jsmn_inv js s \<Longrightarrow> jsmn_inv js s'"
    and "pos s \<le> len \<Longrightarrow> pos s' \<le> len"
    and "map_option length (tokens s') = map_option length (tokens s)"
  using assms
  by (induction rule: jsmn_loop_induct) (auto dest: jsmn_step_inv jsmn_step_len jsmn_step_length)

subsection \<open>What a successful parse delivers\<close>

definition wf_token :: "string \<Rightarrow> nat \<Rightarrow> jsmntok \<Rightarrow> bool" where
  "wf_token js len t \<longleftrightarrow> tok_shape js len t \<and> 0 \<le> tok_end t"

definition wf_tokens :: "string \<Rightarrow> nat \<Rightarrow> nat \<Rightarrow> jsmntok list \<Rightarrow> bool" where
  "wf_tokens js len n ts \<longleftrightarrow> n \<le> length ts \<and> (\<forall>i<n. wf_token js len (ts ! i)) \<and>
     (\<forall>j<n. \<forall>i<j. tok_nested (ts ! i) (ts ! j))"

lemma parse_tokens_wf:
  assumes parse: "jsmn_parse jsmn_init js len (Some ts0) = Inr (n, tks)"
  shows "\<exists>ts. tks = Some ts \<and> length ts = length ts0 \<and> wf_tokens js len n ts"
proof -
  let ?s0 = "\<lparr>pos = 0, toknext = 0, toksuper = -1, tokens = Some ts0, count = 0\<rparr>"
  from parse obtain s where s: "jsmn_loop js len ?s0 = Inr s" and
    n: "n = count s" "tks = tokens s" and
    closed: "\<And>ts. tokens s = Some ts \<Longrightarrow> find_last tok_open ts (toknext s) = None"
    by (auto simp: jsmn_parse_def jsmn_init_def split: sum.splits option.splits)
  have "jsmn_inv js ?s0"
    by (simp add: jsmn_inv_def tokens_inv_def)
  then have inv: "jsmn_inv js s" and le: "pos s \<le> len"
    and len: "map_option length (tokens s) = Some (length ts0)"
    using jsmn_loop_inv [OF s] by auto
  from len obtain ts where ts: "tokens s = Some ts" "length ts = length ts0"
    by auto
  have "wf_token js len (ts ! i)" if "i < toknext s" for i
  proof -
    have "tok_shape js (pos s) (ts ! i)" "\<not> tok_open (ts ! i)"
      using inv ts that closed by (auto simp: jsmn_inv_Some tokens_inv_def find_last_None)
    then show ?thesis
      using tok_shape_closed [of js "pos s" "ts ! i"] tok_shape_mono [OF _ le]
      by (auto simp: wf_token_def tok_shape_def)
  qed
  then show ?thesis
    using inv ts n by (auto simp: jsmn_inv_Some tokens_inv_def wf_tokens_def)
qed

text \<open>
  C1. When tokenizing any text succeeds, the token array keeps its length, the returned count does not exceed it, and the first \<open>n\<close> tokens are
  closed spans of the text with the shape of their type, in the order of their starts and properly
  nested or disjoint.
\<close>

theorem jsmn_parse_wf:
  assumes parse: "jsmn_parse jsmn_init js len (Some ts0) = Inr (n, tks)"
  shows "\<exists>ts. tks = Some ts \<and> length ts = length ts0 \<and> wf_tokens js len n ts"
  by (rule parse_tokens_wf [OF parse])

theorem jsmn_parse_wf_witness:
  "wf_tokens ''{\"a\":[1]}'' 9 4 [
     \<lparr>tok_type = JSMN_OBJECT, tok_start = 0, tok_end = 9, tok_size = 1\<rparr>,
     \<lparr>tok_type = JSMN_STRING, tok_start = 2, tok_end = 3, tok_size = 1\<rparr>,
     \<lparr>tok_type = JSMN_ARRAY, tok_start = 5, tok_end = 8, tok_size = 1\<rparr>,
     \<lparr>tok_type = JSMN_PRIMITIVE, tok_start = 6, tok_end = 7, tok_size = 0\<rparr>]"
proof -
  let ?t = "\<lparr>tok_type = JSMN_UNDEFINED, tok_start = 7, tok_end = 7, tok_size = 7\<rparr>"
  let ?ts = "[
     \<lparr>tok_type = JSMN_OBJECT, tok_start = 0, tok_end = 9, tok_size = 1\<rparr>,
     \<lparr>tok_type = JSMN_STRING, tok_start = 2, tok_end = 3, tok_size = 1\<rparr>,
     \<lparr>tok_type = JSMN_ARRAY, tok_start = 5, tok_end = 8, tok_size = 1\<rparr>,
     \<lparr>tok_type = JSMN_PRIMITIVE, tok_start = 6, tok_end = 7, tok_size = 0\<rparr>]"
  have "jsmn_parse jsmn_init ''{\"a\":[1]}'' 9 (Some [?t, ?t, ?t, ?t]) = Inr (4, Some ?ts)"
    by code_simp
  from jsmn_parse_wf [OF this] show ?thesis by simp
qed

subsection \<open>Counting mode\<close>

text \<open>A run without an array goes through the same positions and counts as one with an array.\<close>

definition counts_with :: "jsmn_state \<Rightarrow> jsmn_state \<Rightarrow> bool" where
  "counts_with s c \<longleftrightarrow> tokens s \<noteq> None \<and> tokens c = None \<and> pos c = pos s \<and> count c = count s"

lemma counts_with_body:
  assumes "counts_with s c" "jsmn_body js len s = Inr s'"
  shows "\<exists>c'. jsmn_body js len c = Inr c' \<and> counts_with s' c'"
  using assms
  by (auto simp: counts_with_def jsmn_body_def tokenizer_defs jsmn_parse_string_def
      jsmn_parse_primitive_def split: if_splits sum.splits option.splits)

lemma counts_with_loop:
  "jsmn_loop js len s = Inr s' \<Longrightarrow> counts_with s c \<Longrightarrow> \<exists>c'. jsmn_loop js len c = Inr c' \<and> counts_with s' c'"
proof (induction js len s arbitrary: c rule: jsmn_loop.induct)
  case (1 js len s)
  note eqs = jsmn_loop.simps [of js len s] jsmn_loop.simps [of js len c]
  show ?case
  proof (cases "pos s < len \<and> js_at js (pos s) \<noteq> NUL")
    case True
    then obtain s1 where s1: "jsmn_step js len s = Inr s1" "jsmn_loop js len s1 = Inr s'"
      using "1.prems"(1) by (auto simp: eqs split: sum.splits)
    then obtain s0 where "jsmn_body js len s = Inr s0" "s1 = s0\<lparr>pos := pos s0 + 1\<rparr>"
      by (auto simp: jsmn_step_def split: sum.splits)
    with counts_with_body [OF "1.prems"(2)] obtain c1 where
      "jsmn_step js len c = Inr c1" "counts_with s1 c1"
      by (fastforce simp: jsmn_step_def counts_with_def)
    then show ?thesis
      using "1.IH" [OF True s1(1,2)] True "1.prems"(2) by (auto simp: eqs counts_with_def)
  next
    case False
    then show ?thesis using "1.prems" by (auto simp: eqs counts_with_def)
  qed
qed

text \<open>
  C25. The counting mode, called with a null token array, returns the number of tokens a call with a
  token array returns whenever the latter succeeds, from any parser state: an array allocated by the
  counted number is not too large.
\<close>

theorem jsmn_count_parse:
  assumes "jsmn_parse p js len (Some ts0) = Inr (n, tks)"
  shows "jsmn_parse p js len None = Inr (n, None)"
proof -
  let ?s = "\<lambda>t. \<lparr>pos = pos p, toknext = toknext p, toksuper = toksuper p, tokens = t, count = toknext p\<rparr>"
  obtain s where s: "jsmn_loop js len (?s (Some ts0)) = Inr s" "count s = n"
    using assms by (auto simp: jsmn_parse_def split: sum.splits option.splits)
  from counts_with_loop [OF s(1), of "?s None"] show ?thesis
    using s(2) by (auto simp: jsmn_parse_def counts_with_def)
qed

theorem jsmn_count_parse_witness:
  "jsmn_parse jsmn_init ''[7,\"x\"]'' 7 None = Inr (3, None)"
proof -
  let ?t = "\<lparr>tok_type = JSMN_UNDEFINED, tok_start = 0, tok_end = 0, tok_size = 0\<rparr>"
  have "map_sum id fst (jsmn_parse jsmn_init ''[7,\"x\"]'' 7 (Some [?t, ?t, ?t, ?t])) = Inr 3"
    by code_simp
  then obtain ts where "jsmn_parse jsmn_init ''[7,\"x\"]'' 7 (Some [?t, ?t, ?t, ?t]) = Inr (3, ts)"
    by (cases "jsmn_parse jsmn_init ''[7,\"x\"]'' 7 (Some [?t, ?t, ?t, ?t])") auto
  from jsmn_count_parse [OF this] show ?thesis .
qed

end
