(* ===== verification/CDouble.thy ===== *)
theory CDouble
  imports Prelude
begin

section \<open>C doubles and the number parsers of the C library\<close>

text \<open>
  The type \<^verbatim>\<open>double\<close> as IEEE binary64 with rounding to nearest, ties to even: \<open>Fin m e\<close> is
  \<open>m * 2 ^ e\<close> in canonical form (\<open>m\<close> odd, or both zero), \<open>Inf s\<close> an infinity (\<open>s\<close>: negative), \<open>NaN\<close> a
  quiet NaN. The sign of zero and the payload of a NaN are not kept.
  \<open>atof\<close>, \<open>atoi\<close> and the arithmetic the program uses (\<open>-\<close>, \<open>*\<close>, \<open>/\<close> and the conversions from and
  to \<^verbatim>\<open>unsigned long long\<close>) are defined on integers and executable.
\<close>

datatype double = Fin int int | Inf bool | NaN

function strip2 :: "int \<Rightarrow> int \<Rightarrow> double" where
  "strip2 m e = (if m = 0 then Fin 0 0 else if even m then strip2 (m div 2) (e + 1) else Fin m e)"
  by pat_completeness auto
termination
  by (relation "measure (\<lambda>(m, e). nat \<bar>m\<bar>)") auto

declare strip2.simps [simp del]

fun ilog2 :: "nat \<Rightarrow> nat" where
  "ilog2 n = (if n \<le> 1 then 0 else Suc (ilog2 (n div 2)))"

declare ilog2.simps [simp del]

subsection \<open>Rounding\<close>

text \<open>The double nearest to the fraction \<open>n / d\<close> (\<open>d > 0\<close>), negated when \<open>neg\<close>. The quotient is scaled
  by \<open>2 ^ e\<close> so that 53 bits remain, fewer in the subnormal range.\<close>

definition round_frac :: "bool \<Rightarrow> nat \<Rightarrow> nat \<Rightarrow> double" where
  "round_frac neg n d =
     (if n = 0 then Fin 0 0
      else
        let b = int (ilog2 n) - int (ilog2 d);
            l = (if d * 2 ^ nat b \<le> n * 2 ^ nat (- b) then b else b - 1);
            e = max (l - 52) (-1074);
            num = n * 2 ^ nat (- e);
            den = d * 2 ^ nat e;
            q = num div den;
            r = num mod den;
            q' = (if den < 2 * r \<or> (2 * r = den \<and> odd q) then q + 1 else q)
        in if 971 < e \<or> (e = 971 \<and> 2 ^ 53 \<le> q') then Inf neg
           else strip2 (if neg then - int q' else int q') e)"

definition round_dyadic :: "int \<Rightarrow> int \<Rightarrow> double" where
  "round_dyadic m e = round_frac (m < 0) (nat \<bar>m\<bar> * 2 ^ nat e) (2 ^ nat (- e))"

definition dbl_of_nat :: "nat \<Rightarrow> double" where
  "dbl_of_nat n = round_frac False n 1"

subsection \<open>Arithmetic\<close>

fun dbl_sub :: "double \<Rightarrow> double \<Rightarrow> double" where
  "dbl_sub (Fin m e) (Fin m' e') =
     (let e0 = min e e' in round_dyadic (m * 2 ^ nat (e - e0) - m' * 2 ^ nat (e' - e0)) e0)"
| "dbl_sub NaN y = NaN"
| "dbl_sub x NaN = NaN"
| "dbl_sub (Inf s) (Inf s') = (if s = s' then NaN else Inf s)"
| "dbl_sub (Inf s) (Fin m e) = Inf s"
| "dbl_sub (Fin m e) (Inf s) = Inf (\<not> s)"

fun dbl_neg_sign :: "double \<Rightarrow> bool" where
  "dbl_neg_sign (Fin m e) = (m < 0)"
| "dbl_neg_sign (Inf s) = s"
| "dbl_neg_sign NaN = False"

fun dbl_mul :: "double \<Rightarrow> double \<Rightarrow> double" where
  "dbl_mul (Fin m e) (Fin m' e') = round_dyadic (m * m') (e + e')"
| "dbl_mul NaN y = NaN"
| "dbl_mul x NaN = NaN"
| "dbl_mul x y =
     (if x = Fin 0 0 \<or> y = Fin 0 0 then NaN else Inf (dbl_neg_sign x \<noteq> dbl_neg_sign y))"

text \<open>The program divides by the constant 1000 only, so the divisor is a positive natural number.\<close>

fun dbl_div_nat :: "double \<Rightarrow> nat \<Rightarrow> double" where
  "dbl_div_nat (Fin m e) k = round_frac (m < 0) (nat \<bar>m\<bar> * 2 ^ nat e) (k * 2 ^ nat (- e))"
| "dbl_div_nat x k = x"

text \<open>The cast to \<^verbatim>\<open>unsigned long long\<close>: truncation, undefined when the result does not fit.\<close>

fun dbl_to_u64 :: "double \<Rightarrow> nat cres" where
  "dbl_to_u64 (Fin m e) =
     (let t = nat \<bar>m\<bar> * 2 ^ nat e div 2 ^ nat (- e) in
      if (m < 0 \<and> 0 < t) \<or> 2 ^ 64 \<le> t then Inl BadConversion else Inr t)"
| "dbl_to_u64 x = Inl BadConversion"

subsection \<open>Parsing numbers\<close>

fun skip_space :: "string \<Rightarrow> string" where
  "skip_space [] = []"
| "skip_space (c # s) = (if is_space c then skip_space s else c # s)"

fun take_sign :: "string \<Rightarrow> bool \<times> string" where
  "take_sign [] = (False, [])"
| "take_sign (c # s) =
     (if c = CHR ''-'' then (True, s) else if c = CHR ''+'' then (False, s) else (False, c # s))"

definition hex_val :: "char \<Rightarrow> nat option" where
  "hex_val c =
     (if is_digit c then Some (char_code c - 48)
      else if 97 \<le> char_code c \<and> char_code c \<le> 102 then Some (char_code c - 87)
      else if 65 \<le> char_code c \<and> char_code c \<le> 70 then Some (char_code c - 55)
      else None)"

text \<open>The value of a digit in a base up to sixteen.\<close>

definition base_digit :: "nat \<Rightarrow> char \<Rightarrow> nat option" where
  "base_digit base c =
     (case hex_val c of None \<Rightarrow> None | Some d \<Rightarrow> if d < base then Some d else None)"

text \<open>Digits in a base: the value read onto \<open>acc\<close>, the number of digits, the rest.\<close>

fun scan_digits :: "nat \<Rightarrow> string \<Rightarrow> nat \<Rightarrow> nat \<Rightarrow> nat \<times> nat \<times> string" where
  "scan_digits base [] acc k = (acc, k, [])"
| "scan_digits base (c # s) acc k =
     (case base_digit base c of
        None \<Rightarrow> (acc, k, c # s)
      | Some d \<Rightarrow> scan_digits base s (base * acc + d) (Suc k))"

text \<open>A mantissa with an optional fraction: value, number of digits, digits after the point, rest.\<close>

definition scan_mantissa :: "nat \<Rightarrow> string \<Rightarrow> nat \<times> nat \<times> nat \<times> string" where
  "scan_mantissa base s =
     (case scan_digits base s 0 0 of
        (v, k, rest) \<Rightarrow>
          (case rest of
             [] \<Rightarrow> (v, k, 0, rest)
           | c # rest' \<Rightarrow>
               if c = CHR ''.'' then
                 (case scan_digits base rest' v 0 of (v', f, rest'') \<Rightarrow> (v', k + f, f, rest''))
               else (v, k, 0, rest)))"

text \<open>The exponent after the letter \<open>e\<close> or \<open>p\<close>: zero when no digit follows.\<close>

definition scan_exponent :: "char set \<Rightarrow> string \<Rightarrow> int" where
  "scan_exponent letters s =
     (case s of
        [] \<Rightarrow> 0
      | c # s' \<Rightarrow>
          if c \<in> letters then
            (case take_sign s' of (neg, s'') \<Rightarrow>
              (case scan_digits 10 s'' 0 0 of (v, k, _) \<Rightarrow>
                 if k = 0 then 0 else if neg then - int v else int v))
          else 0)"

definition scale_round :: "bool \<Rightarrow> nat \<Rightarrow> nat \<Rightarrow> int \<Rightarrow> double" where
  "scale_round neg v base x = round_frac neg (v * base ^ nat x) (base ^ nat (- x))"

definition has_prefix_ci :: "string \<Rightarrow> string \<Rightarrow> bool" where
  "has_prefix_ci p s \<longleftrightarrow> map to_lower (take (length p) s) = p"

definition atof :: "string \<Rightarrow> double" where
  "atof str =
     (case take_sign (skip_space str) of (neg, s) \<Rightarrow>
        if has_prefix_ci ''inf'' s then Inf neg
        else if has_prefix_ci ''nan'' s then NaN
        else
          (case scan_mantissa 16 (drop 2 s) of (hv, hk, hf, hrest) \<Rightarrow>
             if has_prefix_ci ''0x'' s \<and> 0 < hk then
               scale_round neg hv 2 (scan_exponent {CHR ''p'', CHR ''P''} hrest - 4 * int hf)
             else
               (case scan_mantissa 10 s of (v, k, f, rest) \<Rightarrow>
                  if k = 0 then Fin 0 0
                  else scale_round neg v 10 (scan_exponent {CHR ''e'', CHR ''E''} rest - int f))))"

text \<open>\<^verbatim>\<open>atoi\<close> is undefined when the value does not fit an \<^verbatim>\<open>int\<close>.\<close>

definition atoi :: "string \<Rightarrow> int cres" where
  "atoi str =
     (case take_sign (skip_space str) of (neg, s) \<Rightarrow>
        (case scan_digits 10 s 0 0 of (v, k, rest) \<Rightarrow>
           let x = (if neg then - int v else int v) in
           if - (2 ^ 31) \<le> x \<and> x < 2 ^ 31 then Inr x else Inl BadConversion))"

subsection \<open>Constants of the program\<close>

text \<open>The literals of the source, as the compiler reads them.\<close>

definition dbl_0 :: double where "dbl_0 = Fin 0 0"
definition dbl_1 :: double where "dbl_1 = Fin 1 0"
definition dbl_1000 :: double where "dbl_1000 = Fin 125 3"
definition dbl_0_7 :: double where "dbl_0_7 = Fin 3152519739159347 (-52)"

lemma dbl_literals: "atof ''0.0'' = dbl_0" "atof ''1'' = dbl_1" "atof ''1000'' = dbl_1000" "atof ''0.7'' = dbl_0_7"
  by code_simp+

end
