(* ===== verification/Book.thy ===== *)
theory Book
  imports CDouble
begin

section \<open>Books, markets and balances (\<^verbatim>\<open>book/book.c\<close>, \<^verbatim>\<open>book/market.c\<close>, \<^verbatim>\<open>book/mock.c\<close>)\<close>

text \<open>
  The data of the exchange interface. A linked list of structures is the HOL list of its nodes, so the
  \<^verbatim>\<open>next\<close> field is not a record field and \<^verbatim>\<open>NULL\<close> is the empty list; a \<^verbatim>\<open>char*\<close> field that may be null
  is an optional string.
\<close>

record book =
  bid_qty :: double
  bid_price :: double
  ask_qty :: double
  ask_price :: double

definition book_new :: book where
  "book_new = \<lparr>bid_qty = dbl_0, bid_price = dbl_0, ask_qty = dbl_0, ask_price = dbl_0\<rparr>"

record balance =
  currency :: "string option"
  total :: double
  pending :: double
  available :: double

definition balance_new :: balance where
  "balance_new = \<lparr>currency = None, total = dbl_0, pending = dbl_0, available = dbl_0\<rparr>"

record market =
  market_name :: "string option"
  market_currency :: "string option"
  base_currency :: "string option"
  min_trade_size :: double
  fee :: double

definition market_new :: market where
  "market_new = \<lparr>market_name = None, market_currency = None, base_currency = None,
     min_trade_size = dbl_0, fee = dbl_0\<rparr>"

text \<open>\<^verbatim>\<open>strcmp\<close> on a field that may be null.\<close>

definition str_eq :: "string option \<Rightarrow> string \<Rightarrow> bool cres" where
  "str_eq p s = (case p of None \<Rightarrow> Inl BadPointer | Some x \<Rightarrow> Inr (x = s))"

text \<open>\<^verbatim>\<open>market_get\<close>: the pointer to the first matching node, that is the list from that node on.\<close>

fun market_get :: "market list \<Rightarrow> string \<Rightarrow> string \<Rightarrow> market list cres" where
  "market_get [] base mkt = Inr []"
| "market_get (m # ms) base mkt =
     cbind (str_eq (base_currency m) base) (\<lambda>b.
       cbind (if b then str_eq (market_currency m) mkt else Inr False) (\<lambda>found.
         if found then Inr (m # ms) else market_get ms base mkt))"

subsection \<open>Filling the ask side of a book\<close>

text \<open>
  The three book parsers fill the second side of the book while walking the nodes built for the first:
  \<^verbatim>\<open>current\<close> is the node at index \<open>i\<close>, or null when the list is used up; then a node is appended behind
  \<^verbatim>\<open>last\<close>, which is the last node at that point.
\<close>

definition fill_at :: "(book \<Rightarrow> book) \<Rightarrow> book list \<Rightarrow> nat \<Rightarrow> book list" where
  "fill_at f bk i = (if i < length bk then bk[i := f (bk ! i)] else bk @ [f book_new])"

definition set_ask :: "double \<Rightarrow> double \<Rightarrow> book \<Rightarrow> book" where
  "set_ask q r b = b\<lparr>ask_qty := q, ask_price := r\<rparr>"

definition set_bid :: "double \<Rightarrow> double \<Rightarrow> book \<Rightarrow> book" where
  "set_bid q r b = b\<lparr>bid_qty := q, bid_price := r\<rparr>"

text \<open>The reference: both sides side by side, the shorter one padded with the zeros of \<^verbatim>\<open>book_new\<close>.\<close>

fun zip_sides :: "(book \<Rightarrow> book) list \<Rightarrow> (book \<Rightarrow> book) list \<Rightarrow> book list" where
  "zip_sides [] [] = []"
| "zip_sides (f # fs) [] = f book_new # zip_sides fs []"
| "zip_sides [] (g # gs) = g book_new # zip_sides [] gs"
| "zip_sides (f # fs) (g # gs) = g (f book_new) # zip_sides fs gs"

lemma length_zip_sides [simp]: "length (zip_sides fs gs) = max (length fs) (length gs)"
  by (induction fs gs rule: zip_sides.induct) auto

lemma zip_sides_Nil [simp]: "zip_sides fs [] = map (\<lambda>f. f book_new) fs"
  by (induction fs) auto

text \<open>Appending one entry of the second side is one \<open>fill_at\<close>.\<close>

lemma zip_sides_snoc: "zip_sides fs (gs @ [g]) = fill_at g (zip_sides fs gs) (length gs)"
proof (induction fs gs rule: zip_sides.induct)
  case (2 f fs)
  then show ?case by (cases fs) (auto simp: fill_at_def)
qed (auto simp: fill_at_def)

subsection \<open>The mock vendor (\<^verbatim>\<open>book/mock.c\<close>)\<close>

definition mock_get_markets :: "market list" where
  "mock_get_markets = [market_new\<lparr>base_currency := Some ''BTC'', market_currency := Some ''LTC'',
     min_trade_size := atof ''0.01''\<rparr>]"

definition mock_get_books :: "market \<Rightarrow> book list" where
  "mock_get_books market =
     [\<lparr>bid_qty = atof ''12'', bid_price = atof ''0.001'', ask_qty = atof ''12'', ask_price = atof ''0.01''\<rparr>]"

subsection \<open>Searching the market list\<close>

definition named :: "market \<Rightarrow> bool" where
  "named m \<longleftrightarrow> base_currency m \<noteq> None \<and> market_currency m \<noteq> None"

definition is_pair :: "string \<Rightarrow> string \<Rightarrow> market \<Rightarrow> bool" where
  "is_pair base mkt m \<longleftrightarrow> base_currency m = Some base \<and> market_currency m = Some mkt"

lemma market_get_named:
  "(\<forall>m\<in>set ms. named m) \<Longrightarrow> market_get ms base mkt = Inr (dropWhile (\<lambda>m. \<not> is_pair base mkt m) ms)"
  by (induction ms) (auto simp: named_def is_pair_def str_eq_def)

end
