(* ===== verification/Json.thy ===== *)
theory Json
  imports Jsmn CDouble
begin

section \<open>Access to tokenized JSON (\<^verbatim>\<open>utils/json.c\<close>)\<close>

text \<open>
  The accessors work on the text and on the whole token array of the caller, of which the first
  \<^verbatim>\<open>tok_length\<close> entries are tokens; the rest is what the stack held before. A token is read with
  \<open>arr_get\<close>, so an index outside the array faults, and the text of a token faults when its offsets do
  not lie in the text (as those of a stale entry may not). The out-parameters are passed in with their
  old value and returned with the new one.
\<close>

text \<open>\<^verbatim>\<open>json_parse\<close>: a fresh parser over an array of \<open>length ts\<close> entries. A negative return code is \<open>Inl\<close>.\<close>

definition json_parse :: "string \<Rightarrow> jsmntok list \<Rightarrow> jsmnerr + (nat \<times> jsmntok list)" where
  "json_parse json ts =
     (case jsmn_parse jsmn_init json (length json) (Some ts) of
        Inl e \<Rightarrow> Inl e
      | Inr (n, tks) \<Rightarrow> Inr (n, case tks of None \<Rightarrow> [] | Some ts' \<Rightarrow> ts'))"

text \<open>The text of a token, as copied with \<^verbatim>\<open>strncpy\<close> into an array of \<^verbatim>\<open>end - start + 1\<close> characters.\<close>

definition tok_text :: "string \<Rightarrow> jsmntok \<Rightarrow> string cres" where
  "tok_text data t =
     (if 0 \<le> tok_start t \<and> tok_start t \<le> int (length data) \<and> tok_start t \<le> tok_end t
      then Inr (substr data (nat (tok_start t)) (nat (tok_end t)))
      else Inl OutOfBounds)"

text \<open>\<^verbatim>\<open>json_find_token\<close>: the first string token from \<open>start_from\<close> whose text is the tag, or \<open>-1\<close>.\<close>

function json_find_token :: "string \<Rightarrow> jsmntok list \<Rightarrow> nat \<Rightarrow> int \<Rightarrow> string \<Rightarrow> int cres" where
  "json_find_token data ts tok_length i tag =
     (if i < int tok_length then
        cbind (arr_get ts i) (\<lambda>t.
          if tok_type t = JSMN_STRING then
            cbind (tok_text data t) (\<lambda>str.
              if str = tag then Inr i else json_find_token data ts tok_length (i + 1) tag)
          else json_find_token data ts tok_length (i + 1) tag)
      else Inr (-1))"
  by pat_completeness auto
termination
  by (relation "measure (\<lambda>(data, ts, n, i, tag). nat (int n - i))") auto

declare json_find_token.simps [simp del]

definition json_get_string_value ::
    "string \<Rightarrow> jsmntok list \<Rightarrow> nat \<Rightarrow> int \<Rightarrow> string \<Rightarrow> string option \<Rightarrow> (int \<times> string option) cres" where
  "json_get_string_value data ts tok_length search_from tag result =
     cbind (json_find_token data ts tok_length search_from tag) (\<lambda>p.
       if p < 0 then Inr (0, result)
       else
         let p = p + 1 in
         cbind (arr_get ts p) (\<lambda>t.
           let result = (if tok_type t = JSMN_PRIMITIVE then None else result) in
           if tok_type t \<noteq> JSMN_STRING then Inr (0, result)
           else cbind (tok_text data t) (\<lambda>str. Inr (p, Some str))))"

text \<open>The conversion of \<^verbatim>\<open>json_get_int_value\<close>.\<close>

definition json_int_of :: "string \<Rightarrow> int cres" where
  "json_int_of str =
     (if str = ''true'' then Inr 1
      else if str = ''false'' then Inr 0
      else if str = ''null'' then Inr 0
      else atoi str)"

definition json_get_int_value ::
    "string \<Rightarrow> jsmntok list \<Rightarrow> nat \<Rightarrow> int \<Rightarrow> string \<Rightarrow> int \<Rightarrow> (int \<times> int) cres" where
  "json_get_int_value data ts tok_length search_from tag result =
     cbind (json_find_token data ts tok_length search_from tag) (\<lambda>p.
       if p < 0 then Inr (0, result)
       else
         let p = p + 1 in
         cbind (arr_get ts p) (\<lambda>t.
           if tok_type t \<noteq> JSMN_PRIMITIVE then Inr (0, result)
           else cbind (tok_text data t) (\<lambda>str. cbind (json_int_of str) (\<lambda>v. Inr (p, v)))))"

text \<open>The conversion shared by the two double accessors.\<close>

definition json_double_of :: "string \<Rightarrow> double" where
  "json_double_of str =
     (if str = ''true'' then dbl_1
      else if str = ''false'' then dbl_0
      else if str = ''null'' then dbl_0
      else atof str)"

definition json_get_double_value ::
    "string \<Rightarrow> jsmntok list \<Rightarrow> nat \<Rightarrow> int \<Rightarrow> string \<Rightarrow> double \<Rightarrow> (int \<times> double) cres" where
  "json_get_double_value data ts tok_length search_from tag result =
     cbind (json_find_token data ts tok_length search_from tag) (\<lambda>p.
       if p < 0 then Inr (0, result)
       else
         let p = p + 1 in
         cbind (arr_get ts p) (\<lambda>t.
           if tok_type t \<noteq> JSMN_PRIMITIVE then Inr (0, result)
           else cbind (tok_text data t) (\<lambda>str. Inr (p, json_double_of str))))"

definition json_get_double :: "string \<Rightarrow> jsmntok \<Rightarrow> double \<Rightarrow> double cres" where
  "json_get_double data t result =
     (if tok_type t \<noteq> JSMN_PRIMITIVE \<and> tok_type t \<noteq> JSMN_STRING then Inr result
      else cbind (tok_text data t) (\<lambda>str. Inr (json_double_of str)))"

text \<open>The call on the array element \<^verbatim>\<open>tokens[i]\<close>.\<close>

definition token_double :: "string \<Rightarrow> jsmntok list \<Rightarrow> int \<Rightarrow> double \<Rightarrow> double cres" where
  "token_double data ts i result = cbind (arr_get ts i) (\<lambda>t. json_get_double data t result)"

definition json_get_string :: "string \<Rightarrow> jsmntok \<Rightarrow> string option \<Rightarrow> string option cres" where
  "json_get_string data t result =
     (if tok_type t \<noteq> JSMN_STRING then Inr result
      else cbind (tok_text data t) (\<lambda>str. Inr (Some str)))"

subsection \<open>Positions\<close>

lemma json_find_token_pos:
  "json_find_token data ts n i tag = Inr p \<Longrightarrow> p = -1 \<or> (i \<le> p \<and> p < int n)"
proof (induction data ts n i tag rule: json_find_token.induct)
  case (1 data ts n i tag)
  note unfold = json_find_token.simps [of data ts n i tag]
  show ?case
  proof (cases "i < int n")
    case True
    with "1.prems" obtain t where t: "arr_get ts i = Inr t"
      by (auto simp: unfold cbind_Inr_iff)
    show ?thesis
    proof (cases "tok_type t = JSMN_STRING")
      case str: True
      then obtain x where x: "tok_text data t = Inr x"
        using "1.prems" True t by (auto simp: unfold cbind_Inr_iff)
      show ?thesis
        using "1.prems" "1.IH"(1) [OF True t str x] True t str x
        by (cases "x = tag") (auto simp: unfold)
    next
      case False
      then show ?thesis
        using "1.prems" "1.IH"(2) [OF True t False] True t by (auto simp: unfold)
    qed
  next
    case False
    with "1.prems" show ?thesis by (simp add: unfold)
  qed
qed

text \<open>Every accessor that reports a position reports one past the position the search began at.\<close>

lemma json_get_string_value_pos:
  assumes "json_get_string_value data ts n i tag r = Inr (p, r')"
  shows "p = 0 \<or> (i < p \<and> p \<le> int n)"
proof -
  from assms obtain q where "json_find_token data ts n i tag = Inr q"
    by (auto simp: json_get_string_value_def cbind_Inr_iff)
  from json_find_token_pos [OF this] this assms show ?thesis
    by (auto simp: json_get_string_value_def Let_def cbind_Inr_iff split: if_splits)
qed

lemma json_get_int_value_pos:
  assumes "json_get_int_value data ts n i tag z = Inr (p, z')"
  shows "p = 0 \<or> (i < p \<and> p \<le> int n)"
proof -
  from assms obtain q where "json_find_token data ts n i tag = Inr q"
    by (auto simp: json_get_int_value_def cbind_Inr_iff)
  from json_find_token_pos [OF this] this assms show ?thesis
    by (auto simp: json_get_int_value_def Let_def cbind_Inr_iff split: if_splits)
qed

lemma json_get_double_value_pos:
  assumes "json_get_double_value data ts n i tag d = Inr (p, d')"
  shows "p = 0 \<or> (i < p \<and> p \<le> int n)"
proof -
  from assms obtain q where "json_find_token data ts n i tag = Inr q"
    by (auto simp: json_get_double_value_def cbind_Inr_iff)
  from json_find_token_pos [OF this] this assms show ?thesis
    by (auto simp: json_get_double_value_def Let_def cbind_Inr_iff split: if_splits)
qed

lemmas json_value_pos = json_get_string_value_pos json_get_int_value_pos json_get_double_value_pos

end
