(* ===== verification/JsmnJson.thy ===== *)
theory JsmnJson
  imports JsmnSafe
begin

section \<open>The tokenizer on JSON documents\<close>

text \<open>
  A reference for the tokenizer: JSON values, their text (without white space between tokens) and the
  token list that describes them in the order of the text. Tokenizing the text of a value delivers
  exactly its token list, whatever the token array held before, and leaves the rest of the array
  untouched. An array and an object differ for the tokenizer only in their brackets and in that the
  items of an object carry keys, so both are a \<open>JNode\<close> over items with an optional key.
\<close>

subsection \<open>Values, their text and their tokens\<close>

datatype jval =
    JStr string
  | JPrim string
  | JNode bool "(string option \<times> jval) list"  \<comment> \<open>the flag says object\<close>

abbreviation JArr :: "jval list \<Rightarrow> jval" where
  "JArr vs \<equiv> JNode False (map (Pair None) vs)"

abbreviation JObj :: "(string \<times> jval) list \<Rightarrow> jval" where
  "JObj kvs \<equiv> JNode True (map (\<lambda>(k, v). (Some k, v)) kvs)"

abbreviation quote :: char where
  "quote \<equiv> CHR 0x22"

definition node_type :: "bool \<Rightarrow> jsmntype" where
  "node_type obj = (if obj then JSMN_OBJECT else JSMN_ARRAY)"

definition node_open :: "bool \<Rightarrow> char" where
  "node_open obj = (if obj then CHR ''{'' else CHR ''['')"

definition node_close :: "bool \<Rightarrow> char" where
  "node_close obj = (if obj then CHR ''}'' else CHR '']'')"

fun render :: "jval \<Rightarrow> string"
  and render_item :: "string option \<times> jval \<Rightarrow> string"
  and render_items :: "(string option \<times> jval) list \<Rightarrow> string" where
  "render (JStr s) = quote # s @ [quote]"
| "render (JPrim s) = s"
| "render (JNode obj its) = node_open obj # render_items its @ [node_close obj]"
| "render_item (None, v) = render v"
| "render_item (Some k, v) = quote # k @ quote # CHR '':'' # render v"
| "render_items [] = []"
| "render_items [it] = render_item it"
| "render_items (it # it' # its) = render_item it @ CHR '','' # render_items (it' # its)"

fun toks :: "nat \<Rightarrow> jval \<Rightarrow> jsmntok list"
  and toks_item :: "nat \<Rightarrow> string option \<times> jval \<Rightarrow> jsmntok list"
  and toks_items :: "nat \<Rightarrow> (string option \<times> jval) list \<Rightarrow> jsmntok list" where
  "toks p (JStr s) =
     [\<lparr>tok_type = JSMN_STRING, tok_start = int p + 1, tok_end = int (p + 1 + length s), tok_size = 0\<rparr>]"
| "toks p (JPrim s) =
     [\<lparr>tok_type = JSMN_PRIMITIVE, tok_start = int p, tok_end = int (p + length s), tok_size = 0\<rparr>]"
| "toks p (JNode obj its) =
     \<lparr>tok_type = node_type obj, tok_start = int p, tok_end = int (p + length (render_items its)) + 2,
      tok_size = int (length its)\<rparr> # toks_items (p + 1) its"
| "toks_item p (None, v) = toks p v"
| "toks_item p (Some k, v) =
     \<lparr>tok_type = JSMN_STRING, tok_start = int p + 1, tok_end = int (p + 1 + length k), tok_size = 1\<rparr>
     # toks (p + length k + 3) v"
| "toks_items p [] = []"
| "toks_items p (it # its) = toks_item p it @ toks_items (p + length (render_item it) + 1) its"

fun ntoks :: "jval \<Rightarrow> nat"
  and ntoks_item :: "string option \<times> jval \<Rightarrow> nat"
  and ntoks_items :: "(string option \<times> jval) list \<Rightarrow> nat" where
  "ntoks (JStr s) = 1"
| "ntoks (JPrim s) = 1"
| "ntoks (JNode obj its) = 1 + ntoks_items its"
| "ntoks_item (None, v) = ntoks v"
| "ntoks_item (Some k, v) = 1 + ntoks v"
| "ntoks_items [] = 0"
| "ntoks_items (it # its) = ntoks_item it + ntoks_items its"

text \<open>Which texts are covered: strings without escapes, primitives the tokenizer recognises as such.\<close>

definition str_ok :: "string \<Rightarrow> bool" where
  "str_ok s \<longleftrightarrow> (\<forall>c\<in>set s. c \<noteq> quote \<and> c \<noteq> CHR 0x5C \<and> c \<noteq> NUL)"

definition prim_ok :: "string \<Rightarrow> bool" where
  "prim_ok s \<longleftrightarrow> s \<noteq> [] \<and> (\<forall>c\<in>set s. prim_char c) \<and> hd s \<notin> {CHR ''{'', CHR ''['', quote}"

fun val_ok :: "jval \<Rightarrow> bool"
  and item_ok :: "string option \<times> jval \<Rightarrow> bool"
  and items_ok :: "(string option \<times> jval) list \<Rightarrow> bool" where
  "val_ok (JStr s) = str_ok s"
| "val_ok (JPrim s) = prim_ok s"
| "val_ok (JNode obj its) = items_ok its"
| "item_ok (None, v) = val_ok v"
| "item_ok (Some k, v) = (str_ok k \<and> val_ok v)"
| "items_ok [] = True"
| "items_ok (it # its) = (item_ok it \<and> items_ok its)"

lemma length_toks [simp]:
  "length (toks p v) = ntoks v"
  "length (toks_item p it) = ntoks_item it"
  "length (toks_items p its) = ntoks_items its"
  by (induction p v and p it and p its rule: toks_toks_item_toks_items.induct) auto

lemma toks_closed:
  "\<forall>t\<in>set (toks p v). \<not> tok_open t"
  "\<forall>t\<in>set (toks_item p it). \<not> tok_open t"
  "\<forall>t\<in>set (toks_items p its). \<not> tok_open t"
  by (induction p v and p it and p its rule: toks_toks_item_toks_items.induct)
    (auto simp: tok_open_def)

subsection \<open>Writing a segment of the token array\<close>

definition put :: "nat \<Rightarrow> 'a list \<Rightarrow> 'a list \<Rightarrow> 'a list" where
  "put n us ts = take n ts @ us @ drop (n + length us) ts"

lemma length_put [simp]: "n + length us \<le> length ts \<Longrightarrow> length (put n us ts) = length ts"
  by (simp add: put_def)

lemma put_Nil [simp]: "put n [] ts = ts"
  by (simp add: put_def)

lemma put_nth_before [simp]: "j < n \<Longrightarrow> n \<le> length ts \<Longrightarrow> put n us ts ! j = ts ! j"
  by (simp add: put_def nth_append)

lemma put_nth_at [simp]:
  "n \<le> j \<Longrightarrow> j < n + length us \<Longrightarrow> n \<le> length ts \<Longrightarrow> put n us ts ! j = us ! (j - n)"
  by (auto simp: put_def nth_append)

lemma put_put: "n + length us \<le> length ts \<Longrightarrow> put (n + length us) vs (put n us ts) = put n (us @ vs) ts"
  by (simp add: put_def ac_simps)

lemma put_one: "n < length ts \<Longrightarrow> ts[n := u] = put n [u] ts"
  by (simp add: put_def upd_conv_take_nth_drop)

lemma put_update_before: "j < n \<Longrightarrow> n \<le> length ts \<Longrightarrow> (put n us ts)[j := x] = put n us (ts[j := x])"
  by (simp add: put_def list_update_append take_update_swap)

lemma put_update_at:
  "n \<le> length ts \<Longrightarrow> i < length us \<Longrightarrow> (put n us ts)[n + i := x] = put n (us[i := x]) ts"
  by (simp add: put_def list_update_append min_def)

subsection \<open>Scanning rendered texts\<close>

lemma prim_char_not_NUL: "prim_char c \<Longrightarrow> c \<noteq> NUL"
  by (auto simp: prim_char_def NUL_def char_code_def)

definition ends_prim :: "string \<Rightarrow> bool" where
  "ends_prim post \<longleftrightarrow> post = [] \<or> prim_delim (hd post)"

lemma ends_prim_simps [simp]:
  "ends_prim []" "ends_prim (CHR '','' # post)" "ends_prim (node_close obj # post)"
  by (simp_all add: ends_prim_def prim_delim_def node_close_def)

lemma primitive_scan_render:
  assumes "\<forall>c\<in>set s. prim_char c" "ends_prim post"
  shows "primitive_scan (pre @ s @ post) (length (pre @ s @ post)) (length pre) =
    Inr (length pre + length s)"
  using assms(1)
proof (induction s arbitrary: pre)
  case Nil
  then show ?case
    using assms(2)
    by (cases post; subst primitive_scan.simps) (auto simp: ends_prim_def)
next
  case (Cons c s)
  from Cons.IH [of "pre @ [c]"] Cons.prems show ?case
    by (subst primitive_scan.simps) (auto simp: prim_char_def dest: prim_char_not_NUL
        simp: prim_char_not_NUL [unfolded prim_char_def])
qed

lemma string_scan_render:
  assumes "str_ok s"
  shows "string_scan (pre @ s @ quote # post) (length (pre @ s @ quote # post)) (length pre) =
    Inr (length pre + length s)"
  using assms
proof (induction s arbitrary: pre)
  case Nil
  show ?case by (subst string_scan.simps) (simp add: NUL_def)
next
  case (Cons c s)
  from Cons.IH [of "pre @ [c]"] Cons.prems show ?case
    by (subst string_scan.simps) (auto simp: str_ok_def)
qed

subsection \<open>Runs of the loop\<close>

text \<open>\<open>reaches js s t\<close>: from \<open>s\<close> the loop gets to \<open>t\<close> and goes on from there.\<close>

definition reaches :: "string \<Rightarrow> jsmn_state \<Rightarrow> jsmn_state \<Rightarrow> bool" where
  "reaches js s t \<longleftrightarrow> jsmn_loop js (length js) s = jsmn_loop js (length js) t"

lemma reaches_refl [simp]: "reaches js s s"
  by (simp add: reaches_def)

lemma reaches_trans [trans]: "reaches js s t \<Longrightarrow> reaches js t u \<Longrightarrow> reaches js s u"
  by (simp add: reaches_def)

lemma reaches_step:
  "pos s < length js \<Longrightarrow> js_at js (pos s) \<noteq> NUL \<Longrightarrow> jsmn_body js (length js) s = Inr t \<Longrightarrow>
   u = t\<lparr>pos := pos t + 1\<rparr> \<Longrightarrow> reaches js s u"
  by (simp add: reaches_def jsmn_loop.simps [of js "length js" s] jsmn_step_def)

text \<open>The state after a value: position and counters moved on, its tokens written.\<close>

definition after :: "jsmn_state \<Rightarrow> nat \<Rightarrow> jsmntok list \<Rightarrow> jsmntok list \<Rightarrow> int \<Rightarrow> jsmn_state" where
  "after s l us ts sp =
     s\<lparr>pos := pos s + l, toknext := toknext s + length us, count := count s + length us,
       toksuper := sp, tokens := Some (put (toknext s) us ts)\<rparr>"

lemma after_simps [simp]:
  "pos (after s l us ts sp) = pos s + l"
  "toknext (after s l us ts sp) = toknext s + length us"
  "count (after s l us ts sp) = count s + length us"
  "toksuper (after s l us ts sp) = sp"
  "tokens (after s l us ts sp) = Some (put (toknext s) us ts)"
  by (simp_all add: after_def)

lemma after_after:
  "toknext s + length us \<le> length ts \<Longrightarrow>
   after (after s l us ts sp) l' vs (put (toknext s) us ts) sp' = after s (l + l') (us @ vs) ts sp'"
  by (simp add: after_def put_put ac_simps)

lemma state_eqI:
  "pos s = pos t \<Longrightarrow> toknext s = toknext t \<Longrightarrow> toksuper s = toksuper t \<Longrightarrow> tokens s = tokens t \<Longrightarrow>
   count s = count t \<Longrightarrow> (s :: jsmn_state) = t"
  by (cases s; cases t) simp

definition outer :: "jsmntok list \<Rightarrow> nat \<Rightarrow> int" where
  "outer ts n = (case find_last tok_open ts n of None \<Rightarrow> -1 | Some k \<Rightarrow> int k)"

definition scalar :: "jval \<Rightarrow> bool" where
  "scalar v \<longleftrightarrow> (case v of JNode obj its \<Rightarrow> False | _ \<Rightarrow> True)"

lemma find_last_cong:
  "(\<And>j. j < n \<Longrightarrow> P (ts ! j) = P (us ! j)) \<Longrightarrow> find_last P ts n = find_last P us n"
  by (induction n) auto

lemma find_last_eq:
  "k < n \<Longrightarrow> P (ts ! k) \<Longrightarrow> (\<And>j. k < j \<Longrightarrow> j < n \<Longrightarrow> \<not> P (ts ! j)) \<Longrightarrow> find_last P ts n = Some k"
  by (induction n) (auto simp: less_Suc_eq)

lemma tok_open_size [simp]: "tok_open (t\<lparr>tok_size := z\<rparr>) = tok_open t"
  by (simp add: tok_open_def)

lemma container_size [simp]: "container (t\<lparr>tok_size := z\<rparr>) = container t"
  by (simp add: container_def)

lemma outer_bump [simp]:
  "-1 \<le> i \<Longrightarrow> i < int (length ts) \<Longrightarrow> n \<le> length ts \<Longrightarrow> outer (bump_size ts i) n = outer ts n"
  unfolding outer_def
  by (subst find_last_cong [where us = ts]) (auto simp: bump_size_nth)

lemma outer_put [simp]: "n \<le> length ts \<Longrightarrow> outer (put n us ts) n = outer ts n"
  unfolding outer_def by (subst find_last_cong [where us = ts]) auto

lemma put_bump:
  "n \<le> length ts \<Longrightarrow> -1 \<le> i \<Longrightarrow> i < int n \<Longrightarrow> bump_size (put n us ts) i = put n us (bump_size ts i)"
  by (auto simp: bump_size_def put_update_before)

subsection \<open>Runs over one lexical element\<close>

lemma reaches_item:
  assumes js: "js = pre @ c # rest" and p: "pos s = length pre" and ts: "tokens s = Some ts"
    and room: "toknext s < length ts" and sp: "-1 \<le> toksuper s" "toksuper s < int (toknext s)"
    and body: "jsmn_body js (length js) s = Inr (push_token s ts ty a b (pos s + l))" and "c \<noteq> NUL"
  shows "reaches js s (after s (l + 1)
    [\<lparr>tok_type = ty, tok_start = int a, tok_end = int b, tok_size = 0\<rparr>]
    (bump_size ts (toksuper s)) (toksuper s))"
proof (rule reaches_step [OF _ _ body])
  show "pos s < length js" "js_at js (pos s) \<noteq> NUL" using js p assms(8) by auto
  show "after s (l + 1) [\<lparr>tok_type = ty, tok_start = int a, tok_end = int b, tok_size = 0\<rparr>]
      (bump_size ts (toksuper s)) (toksuper s) =
    (push_token s ts ty a b (pos s + l))\<lparr>pos := pos (push_token s ts ty a b (pos s + l)) + 1\<rparr>"
    using room sp by (simp add: after_def push_token_def put_one put_bump)
qed

lemma reaches_string:
  assumes js: "js = pre @ quote # str @ quote # post" and p: "pos s = length pre"
    and ts: "tokens s = Some ts" and room: "toknext s < length ts"
    and sp: "-1 \<le> toksuper s" "toksuper s < int (toknext s)" and ok: "str_ok str"
  shows "reaches js s (after s (length str + 2)
    [\<lparr>tok_type = JSMN_STRING, tok_start = int (pos s) + 1, tok_end = int (pos s + 1 + length str),
      tok_size = 0\<rparr>] (bump_size ts (toksuper s)) (toksuper s))"
proof -
  have "string_scan js (length js) (pos s + 1) = Inr (pos s + 1 + length str)"
    using string_scan_render [OF ok, of "pre @ [quote]" post] by (simp add: js p)
  then have "jsmn_body js (length js) s =
      Inr (push_token s ts JSMN_STRING (pos s + 1) (pos s + 1 + length str) (pos s + (length str + 1)))"
    using step_string_Some [OF ts, of js "length js"] room js p by (simp add: jsmn_body_def)
  from reaches_item [OF _ p ts room sp this, of quote "str @ quote # post"] show ?thesis
    using js by (simp add: NUL_def add.commute)
qed

lemma reaches_primitive:
  assumes js: "js = pre @ str @ post" and p: "pos s = length pre"
    and ts: "tokens s = Some ts" and room: "toknext s < length ts"
    and sp: "-1 \<le> toksuper s" "toksuper s < int (toknext s)"
    and ok: "prim_ok str" and post: "ends_prim post"
  shows "reaches js s (after s (length str)
    [\<lparr>tok_type = JSMN_PRIMITIVE, tok_start = int (pos s), tok_end = int (pos s + length str),
      tok_size = 0\<rparr>] (bump_size ts (toksuper s)) (toksuper s))"
proof -
  from ok obtain c str' where str: "str = c # str'" and c: "prim_char c" "c \<notin> {CHR ''{'', CHR ''['', quote}"
    by (cases str) (auto simp: prim_ok_def)
  have scan: "primitive_scan js (length js) (pos s) = Inr (pos s + length str)"
    using primitive_scan_render [of str post pre] ok post by (simp add: js p prim_ok_def)
  have "jsmn_body js (length js) s = step_item (jsmn_parse_primitive s js (length js) (tokens s))"
    using c js p str by (auto simp: jsmn_body_def Let_def prim_char_def prim_delim_def)
  then have "jsmn_body js (length js) s =
      Inr (push_token s ts JSMN_PRIMITIVE (pos s) (pos s + length str) (pos s + length str'))"
    using step_primitive_Some [OF ts, of js "length js"] scan room str by simp
  from reaches_item [OF _ p ts room sp this, of c "str' @ post"] show ?thesis
    using js str prim_char_not_NUL [OF c(1)] by simp
qed

lemma reaches_open:
  assumes js: "js = pre @ node_open obj # post" and p: "pos s = length pre"
    and ts: "tokens s = Some ts" and room: "toknext s < length ts"
    and sp: "-1 \<le> toksuper s" "toksuper s < int (toknext s)"
  shows "reaches js s (after s 1
    [\<lparr>tok_type = node_type obj, tok_start = int (pos s), tok_end = -1, tok_size = 0\<rparr>]
    (bump_size ts (toksuper s)) (int (toknext s)))"
proof (rule reaches_step)
  define u where "u = \<lparr>tok_type = node_type obj, tok_start = int (pos s), tok_end = -1, tok_size = 0\<rparr>"
  let ?t = "s\<lparr>count := count s + 1, toknext := toknext s + 1, toksuper := int (toknext s),
      tokens := Some (put (toknext s) [u] (bump_size ts (toksuper s)))\<rparr>"
  have "step_open s (node_type obj) = Inr ?t"
    using ts room sp put_one [of "toknext s" "bump_size ts (toksuper s)" u]
    by (cases s; cases "ts ! toknext s")
      (auto simp: tokenizer_defs u_def bump_size_def nth_list_update list_update_swap)
  then show "jsmn_body js (length js) s = Inr ?t"
    using js p by (cases obj) (simp_all add: jsmn_body_def node_open_def node_type_def)
  show "after s 1 [\<lparr>tok_type = node_type obj, tok_start = int (pos s), tok_end = -1, tok_size = 0\<rparr>]
      (bump_size ts (toksuper s)) (int (toknext s)) = ?t\<lparr>pos := pos ?t + 1\<rparr>"
    by (simp add: after_def u_def)
qed (use js p in \<open>auto simp: node_open_def NUL_def\<close>)

lemma reaches_close:
  assumes js: "js = pre @ node_close obj # post" and p: "pos s = length pre"
    and ts: "tokens s = Some ts" and i: "find_last tok_open ts (toknext s) = Some i" "i < length ts"
    and ty: "tok_type (ts ! i) = node_type obj"
  shows "reaches js s (s\<lparr>pos := pos s + 1, tokens := Some (ts[i := (ts ! i)\<lparr>tok_end := int (pos s) + 1\<rparr>]),
    toksuper := outer ts i\<rparr>)"
proof (rule reaches_step)
  let ?ts = "ts[i := (ts ! i)\<lparr>tok_end := int (pos s) + 1\<rparr>]"
  let ?t = "s\<lparr>tokens := Some ?ts, toksuper := outer ts i\<rparr>"
  have "find_last tok_open ?ts (i + 1) = find_last tok_open ts i"
    using i(2) find_last_cong [of i tok_open ?ts ts] by (simp add: tok_open_def)
  then have "step_close s (node_type obj) = Inr ?t"
    using ts i ty by (simp add: step_close_def outer_def del: find_last.simps)
  then show "jsmn_body js (length js) s = Inr ?t"
    using js p by (cases obj) (simp_all add: jsmn_body_def node_close_def node_type_def)
  show "s\<lparr>pos := pos s + 1, tokens := Some ?ts, toksuper := outer ts i\<rparr> = ?t\<lparr>pos := pos ?t + 1\<rparr>"
    by simp
qed (use js p in \<open>auto simp: node_close_def NUL_def\<close>)

lemma reaches_colon:
  assumes "js = pre @ CHR '':'' # post" "pos s = length pre"
  shows "reaches js s (s\<lparr>pos := pos s + 1, toksuper := int (toknext s) - 1\<rparr>)"
  by (rule reaches_step [where t = "s\<lparr>toksuper := int (toknext s) - 1\<rparr>"])
    (use assms in \<open>auto simp: jsmn_body_def NUL_def\<close>)

definition innermost :: "jsmntok list \<Rightarrow> nat \<Rightarrow> nat \<Rightarrow> bool" where
  "innermost ts n k \<longleftrightarrow> k < n \<and> n \<le> length ts \<and> container (ts ! k) \<and> tok_open (ts ! k) \<and>
     (\<forall>j. k < j \<and> j < n \<longrightarrow> \<not> tok_open (ts ! j))"

lemma innermost_outer: "innermost ts n k \<Longrightarrow> outer ts n = int k"
  unfolding innermost_def outer_def by (subst find_last_eq [of k]) auto

lemma reaches_comma:
  assumes "js = pre @ CHR '','' # post" "pos s = length pre" "tokens s = Some ts"
    and k: "innermost ts (toknext s) k"
    and sp: "toksuper s = int k \<or> toksuper s \<noteq> -1 \<and> \<not> container (ts ! nat (toksuper s))"
  shows "reaches js s (s\<lparr>pos := pos s + 1, toksuper := int k\<rparr>)"
proof (rule reaches_step)
  have "find_last (\<lambda>t. container t \<and> tok_open t) ts (toknext s) = Some k"
    using k by (intro find_last_eq) (auto simp: innermost_def)
  then have "step_comma s = Inr (s\<lparr>toksuper := int k\<rparr>)"
    using assms(3) k sp by (cases s) (auto simp: step_comma_def innermost_def)
  then show "jsmn_body js (length js) s = Inr (s\<lparr>toksuper := int k\<rparr>)"
    using assms(1,2) by (simp add: jsmn_body_def)
qed (use assms in \<open>auto simp: NUL_def\<close>)

subsection \<open>Runs over items and values\<close>

definition add_size :: "jsmntok list \<Rightarrow> nat \<Rightarrow> nat \<Rightarrow> jsmntok list" where
  "add_size ts k m = ts[k := (ts ! k)\<lparr>tok_size := tok_size (ts ! k) + int m\<rparr>]"

lemma bump_add_size: "bump_size ts (int k) = add_size ts k 1"
  by (simp add: bump_size_def add_size_def)

lemma length_add_size [simp]: "length (add_size ts k m) = length ts"
  by (simp add: add_size_def)

lemma add_size_0 [simp]: "add_size ts k 0 = ts"
  by (simp add: add_size_def)

lemma add_size_add: "k < length ts \<Longrightarrow> add_size (add_size ts k a) k b = add_size ts k (a + b)"
  by (simp add: add_size_def add.assoc)

lemma add_size_put: "k < n \<Longrightarrow> n \<le> length ts \<Longrightarrow> add_size (put n us ts) k m = put n us (add_size ts k m)"
  by (simp add: add_size_def put_update_before)

lemma innermost_add_size [simp]: "innermost (add_size ts j m) n k = innermost ts n k"
  by (cases "j < length ts")
    (auto simp: innermost_def add_size_def nth_list_update list_update_beyond)

lemma innermost_put:
  assumes "innermost ts n k" "\<forall>t\<in>set us. \<not> tok_open t" "n + length us \<le> length ts"
  shows "innermost (put n us ts) (n + length us) k"
proof -
  have "\<not> tok_open (put n us ts ! j)" if "k < j" "j < n + length us" for j
    using assms that by (cases "j < n") (auto simp: innermost_def)
  then show ?thesis using assms by (auto simp: innermost_def)
qed

definition runs_value :: "jval \<Rightarrow> bool" where
  "runs_value v \<longleftrightarrow> (\<forall>js pre post s ts.
     js = pre @ render v @ post \<longrightarrow> ends_prim post \<longrightarrow> pos s = length pre \<longrightarrow> tokens s = Some ts \<longrightarrow>
     toknext s + ntoks v \<le> length ts \<longrightarrow> -1 \<le> toksuper s \<longrightarrow> toksuper s < int (toknext s) \<longrightarrow>
     reaches js s (after s (length (render v)) (toks (pos s) v) (bump_size ts (toksuper s))
       (if scalar v then toksuper s else outer ts (toknext s))))"

definition runs_item :: "string option \<times> jval \<Rightarrow> bool" where
  "runs_item it \<longleftrightarrow> (\<forall>js pre post s ts k.
     js = pre @ render_item it @ post \<longrightarrow> ends_prim post \<longrightarrow> pos s = length pre \<longrightarrow> tokens s = Some ts \<longrightarrow>
     toknext s + ntoks_item it \<le> length ts \<longrightarrow> innermost ts (toknext s) k \<longrightarrow> toksuper s = int k \<longrightarrow>
     (\<exists>sp. reaches js s (after s (length (render_item it)) (toks_item (pos s) it) (add_size ts k 1) sp) \<and>
        (sp = int k \<or> sp \<noteq> -1 \<and>
           \<not> container (put (toknext s) (toks_item (pos s) it) (add_size ts k 1) ! nat sp))))"

definition runs_items :: "(string option \<times> jval) list \<Rightarrow> bool" where
  "runs_items its \<longleftrightarrow> (\<forall>js pre post s ts k.
     js = pre @ render_items its @ post \<longrightarrow> ends_prim post \<longrightarrow> pos s = length pre \<longrightarrow> tokens s = Some ts \<longrightarrow>
     toknext s + ntoks_items its \<le> length ts \<longrightarrow> innermost ts (toknext s) k \<longrightarrow> toksuper s = int k \<longrightarrow>
     (\<exists>sp. reaches js s
        (after s (length (render_items its)) (toks_items (pos s) its) (add_size ts k (length its)) sp)))"

lemma runs_valueD:
  "runs_value v \<Longrightarrow> js = pre @ render v @ post \<Longrightarrow> ends_prim post \<Longrightarrow> pos s = length pre \<Longrightarrow>
   tokens s = Some ts \<Longrightarrow> toknext s + ntoks v \<le> length ts \<Longrightarrow> toksuper s = sp \<Longrightarrow> -1 \<le> sp \<Longrightarrow>
   sp < int (toknext s) \<Longrightarrow> sp' = (if scalar v then sp else outer ts (toknext s)) \<Longrightarrow>
   reaches js s (after s (length (render v)) (toks (pos s) v) (bump_size ts sp) sp')"
  unfolding runs_value_def by blast

lemma runs_itemsD:
  assumes "runs_items its" "js = pre @ render_items its @ post" "ends_prim post" "pos s = length pre"
    "tokens s = Some ts" "toknext s + ntoks_items its \<le> length ts" "innermost ts (toknext s) k"
    "toksuper s = int k"
  obtains sp where "reaches js s
    (after s (length (render_items its)) (toks_items (pos s) its) (add_size ts k (length its)) sp)"
  using assms unfolding runs_items_def by blast

lemma runs_item_elem:
  assumes "runs_value v" shows "runs_item (None, v)"
  unfolding runs_item_def
proof (intro allI impI)
  fix js pre post and s :: jsmn_state and ts k
  assume a: "js = pre @ render_item (None, v) @ post" "ends_prim post" "pos s = length pre"
    "tokens s = Some ts" "toknext s + ntoks_item (None, v) \<le> length ts" "innermost ts (toknext s) k"
    "toksuper s = int k"
  have "reaches js s (after s (length (render v)) (toks (pos s) v) (bump_size ts (int k)) (int k))"
    by (rule runs_valueD [OF assms, where pre = pre and post = post])
      (use a innermost_outer [OF a(6)] in \<open>auto simp: innermost_def\<close>)
  then show "\<exists>sp. reaches js s (after s (length (render_item (None, v))) (toks_item (pos s) (None, v))
      (add_size ts k 1) sp) \<and>
    (sp = int k \<or> sp \<noteq> -1 \<and>
      \<not> container (put (toknext s) (toks_item (pos s) (None, v)) (add_size ts k 1) ! nat sp))"
    by (auto simp: bump_add_size)
qed

lemma runs_item_member:
  assumes v: "runs_value v" and key: "str_ok key" shows "runs_item (Some key, v)"
  unfolding runs_item_def
proof (intro allI impI)
  fix js pre post and s :: jsmn_state and ts k
  assume a: "js = pre @ render_item (Some key, v) @ post" "ends_prim post" "pos s = length pre"
    "tokens s = Some ts" "toknext s + ntoks_item (Some key, v) \<le> length ts"
    "innermost ts (toknext s) k" "toksuper s = int k"
  let ?n = "toknext s" and ?ts = "add_size ts k 1"
  let ?key = "\<lambda>z. \<lparr>tok_type = JSMN_STRING, tok_start = int (pos s) + 1,
    tok_end = int (pos s + 1 + length key), tok_size = z\<rparr>"
  let ?s1 = "after s (length key + 2) [?key 0] ?ts (int k)"
  let ?s2 = "?s1\<lparr>pos := pos ?s1 + 1, toksuper := int (toknext ?s1) - 1\<rparr>"
  let ?sp = "if scalar v then int ?n else int k"
  have k: "k < ?n" "?n < length ts" using a by (auto simp: innermost_def)
  have "reaches js s ?s1"
    using reaches_string [of js pre key "CHR '':'' # render v @ post" s ts] a k key
    by (simp add: bump_add_size)
  also have "reaches js ?s1 ?s2"
    by (rule reaches_colon [of js "pre @ quote # key @ [quote]" "render v @ post"])
      (use a in simp_all)
  also have "reaches js ?s2 (after ?s2 (length (render v)) (toks (pos ?s2) v)
      (bump_size (put ?n [?key 0] ?ts) (int ?n)) ?sp)"
  proof (rule runs_valueD [OF v, where pre = "pre @ quote # key @ quote # [CHR '':'']" and post = post])
    have "outer (put ?n [?key 0] ?ts) (?n + 1) = int k"
      using innermost_put [of ?ts ?n k "[?key 0]"] a(6) k
      by (intro innermost_outer) (simp add: tok_open_def)
    then show "?sp = (if scalar v then int ?n else outer (put ?n [?key 0] ?ts) (toknext ?s2))"
      by simp
  qed (use a k in simp_all)
  also have "bump_size (put ?n [?key 0] ?ts) (int ?n) = put ?n [?key 1] ?ts"
    using k put_update_at [of ?n ?ts 0 "[?key 0]" "?key 1"] by (simp add: bump_size_def)
  also have "after ?s2 (length (render v)) (toks (pos ?s2) v) (put ?n [?key 1] ?ts) ?sp =
      after s (length (render_item (Some key, v))) (toks_item (pos s) (Some key, v)) ?ts ?sp"
    by (rule state_eqI) (use k put_put [of ?n "[?key 1]" ?ts] in \<open>simp_all add: ac_simps numeral_3_eq_3\<close>)
  finally have "reaches js s
      (after s (length (render_item (Some key, v))) (toks_item (pos s) (Some key, v)) ?ts ?sp)" .
  moreover have "\<not> container (put ?n (toks_item (pos s) (Some key, v)) ?ts ! ?n)"
    using k by (simp add: container_def)
  ultimately show "\<exists>sp. reaches js s (after s (length (render_item (Some key, v)))
      (toks_item (pos s) (Some key, v)) ?ts sp) \<and>
    (sp = int k \<or> sp \<noteq> -1 \<and> \<not> container (put ?n (toks_item (pos s) (Some key, v)) ?ts ! nat sp))"
    by (intro exI [of _ ?sp]) auto
qed

lemma runs_items_cons:
  assumes it: "runs_item it" and its: "runs_items its"
    and rend: "render_items (it # its) = render_item it @ CHR '','' # render_items its"
  shows "runs_items (it # its)"
  unfolding runs_items_def
proof (intro allI impI)
  fix js pre post and s :: jsmn_state and ts k
  assume a: "js = pre @ render_items (it # its) @ post" "ends_prim post" "pos s = length pre"
    "tokens s = Some ts" "toknext s + ntoks_items (it # its) \<le> length ts"
    "innermost ts (toknext s) k" "toksuper s = int k"
  let ?n = "toknext s" and ?us = "toks_item (pos s) it"
  let ?ts = "put ?n ?us (add_size ts k 1)"
  have k: "k < ?n" "?n \<le> length ts" using a by (auto simp: innermost_def)
  obtain sp where sp: "reaches js s (after s (length (render_item it)) ?us (add_size ts k 1) sp)"
      "sp = int k \<or> sp \<noteq> -1 \<and> \<not> container (?ts ! nat sp)"
    using it [unfolded runs_item_def, rule_format, of js pre "CHR '','' # render_items its @ post" s ts k] a
    by (auto simp: rend)
  let ?s1 = "after s (length (render_item it)) ?us (add_size ts k 1) sp"
  let ?s2 = "?s1\<lparr>pos := pos ?s1 + 1, toksuper := int k\<rparr>"
  have inner: "innermost ?ts (toknext ?s1) k"
    using innermost_put [of "add_size ts k 1" ?n k ?us] toks_closed(2) a by simp
  obtain sp' where sp': "reaches js ?s2 (after ?s2 (length (render_items its)) (toks_items (pos ?s2) its)
      (add_size ?ts k (length its)) sp')"
    by (rule runs_itemsD [OF its, where pre = "pre @ render_item it @ [CHR '','']" and post = post
        and s = ?s2 and ts = ?ts and k = k]) (use a inner in \<open>simp_all add: rend\<close>)
  note sp(1)
  also have "reaches js ?s1 ?s2"
    by (rule reaches_comma [of js "pre @ render_item it" "render_items its @ post" _ ?ts k])
      (use a sp(2) inner in \<open>simp_all add: rend\<close>)
  also have "reaches js ?s2 (after ?s2 (length (render_items its)) (toks_items (pos ?s2) its)
      (add_size ?ts k (length its)) sp')" by (rule sp')
  also have "after ?s2 (length (render_items its)) (toks_items (pos ?s2) its) (add_size ?ts k (length its)) sp' =
      after s (length (render_items (it # its))) (toks_items (pos s) (it # its))
        (add_size ts k (length (it # its))) sp'"
    by (rule state_eqI)
      (use a k put_put [of ?n ?us "add_size ts k (length (it # its))"] in
        \<open>simp_all add: rend add_size_put add_size_add ac_simps\<close>)
  finally show "\<exists>sp. reaches js s (after s (length (render_items (it # its)))
      (toks_items (pos s) (it # its)) (add_size ts k (length (it # its))) sp)"
    by blast
qed

lemma runs_value_node:
  assumes its: "runs_items its" shows "runs_value (JNode obj its)"
  unfolding runs_value_def
proof (intro allI impI)
  fix js pre post and s :: jsmn_state and ts
  assume a: "js = pre @ render (JNode obj its) @ post" "ends_prim post" "pos s = length pre"
    "tokens s = Some ts" "toknext s + ntoks (JNode obj its) \<le> length ts" "-1 \<le> toksuper s"
    "toksuper s < int (toknext s)"
  let ?n = "toknext s" and ?us = "toks_items (pos s + 1) its" and ?B = "bump_size ts (toksuper s)"
  let ?u = "\<lambda>e z. \<lparr>tok_type = node_type obj, tok_start = int (pos s), tok_end = e, tok_size = z\<rparr>"
  let ?l = "length (render_items its)"
  have n: "?n < length ts" using a by simp
  let ?s1 = "after s 1 [?u (-1) 0] ?B (int ?n)"
  have inner: "innermost (put ?n [?u (-1) 0] ?B) (toknext ?s1) ?n"
    using n by (auto simp: innermost_def container_def node_type_def tok_open_def)
  obtain sp where sp: "reaches js ?s1 (after ?s1 ?l (toks_items (pos ?s1) its)
      (add_size (put ?n [?u (-1) 0] ?B) ?n (length its)) sp)"
    by (rule runs_itemsD [OF its, where pre = "pre @ [node_open obj]" and post = "node_close obj # post"
        and s = ?s1 and ts = "put ?n [?u (-1) 0] ?B" and k = ?n]) (use a inner in simp_all)
  have put1: "add_size (put ?n [?u (-1) 0] ?B) ?n (length its) = put ?n [?u (-1) (int (length its))] ?B"
    using n put_update_at [of ?n ?B 0 "[?u (-1) 0]" "?u (-1) (int (length its))"]
    by (simp add: add_size_def)
  let ?us1 = "?u (-1) (int (length its)) # ?us"
  let ?s2 = "after s (1 + ?l) ?us1 ?B sp"
  have "?s2 = after ?s1 ?l (toks_items (pos ?s1) its) (put ?n [?u (-1) (int (length its))] ?B) sp"
    by (rule state_eqI) (use n put_put [of ?n "[?u (-1) (int (length its))]" ?B ?us] in simp_all)
  then have run2: "reaches js ?s1 ?s2"
    using sp put1 by simp
  have closed: "\<not> tok_open (put ?n ?us1 ?B ! j)" if "?n < j" "j < ?n + length ?us1" for j
    using that n toks_closed(3) [of "pos s + 1" its] a(5) nth_mem [of "j - ?n - 1" ?us]
    by (auto simp: nth_Cons split: nat.split)
  have last: "find_last tok_open (put ?n ?us1 ?B) (toknext ?s2) = Some ?n"
    by (rule find_last_eq) (use n closed in \<open>auto simp: tok_open_def\<close>)
  have "reaches js s ?s1"
    using reaches_open [of js pre obj "render_items its @ node_close obj # post" s ts] a n by simp
  also note run2
  also have "reaches js ?s2 (?s2\<lparr>pos := pos ?s2 + 1,
      tokens := Some ((put ?n ?us1 ?B)[?n := (put ?n ?us1 ?B ! ?n)\<lparr>tok_end := int (pos ?s2) + 1\<rparr>]),
      toksuper := outer (put ?n ?us1 ?B) ?n\<rparr>)"
    by (rule reaches_close [where pre = "pre @ node_open obj # render_items its" and obj = obj and post = post])
      (use a n last in simp_all)
  also have "(put ?n ?us1 ?B)[?n := (put ?n ?us1 ?B ! ?n)\<lparr>tok_end := int (pos ?s2) + 1\<rparr>] =
      put ?n (toks (pos s) (JNode obj its)) ?B"
    using n put_update_at [of ?n ?B 0 ?us1] by (simp add: ac_simps)
  also have "?s2\<lparr>pos := pos ?s2 + 1, tokens := Some (put ?n (toks (pos s) (JNode obj its)) ?B),
        toksuper := outer (put ?n ?us1 ?B) ?n\<rparr> =
      after s (length (render (JNode obj its))) (toks (pos s) (JNode obj its)) ?B (outer ts ?n)"
    by (rule state_eqI) (use n a in simp_all)
  finally show "reaches js s (after s (length (render (JNode obj its))) (toks (pos s) (JNode obj its)) ?B
      (if scalar (JNode obj its) then toksuper s else outer ts ?n))"
    by (simp add: scalar_def)
qed

lemma runs_value_scalar:
  assumes "scalar v" "val_ok v" shows "runs_value v"
  unfolding runs_value_def
proof (intro allI impI)
  fix js pre post and s :: jsmn_state and ts
  assume a: "js = pre @ render v @ post" "ends_prim post" "pos s = length pre"
    "tokens s = Some ts" "toknext s + ntoks v \<le> length ts" "-1 \<le> toksuper s"
    "toksuper s < int (toknext s)"
  show "reaches js s (after s (length (render v)) (toks (pos s) v) (bump_size ts (toksuper s))
      (if scalar v then toksuper s else outer ts (toknext s)))"
  proof (cases v)
    case (JStr x)
    then show ?thesis
      using reaches_string [of js pre x post s ts] a assms by (simp add: scalar_def)
  next
    case (JPrim x)
    then show ?thesis
      using reaches_primitive [of js pre x post s ts] a assms by (simp add: scalar_def)
  next
    case (JNode obj its)
    then show ?thesis using assms(1) by (simp add: scalar_def)
  qed
qed

lemma after_nothing: "tokens s = Some ts \<Longrightarrow> after s 0 [] ts (toksuper s) = s"
  by (rule state_eqI) simp_all

lemma runs_items_Nil: "runs_items []"
  unfolding runs_items_def by (metis after_nothing add_size_0 list.size(3) reaches_refl render_items.simps(1)
      toks_items.simps(1))

lemma runs_all:
  "val_ok v \<Longrightarrow> runs_value v" "item_ok it \<Longrightarrow> runs_item it" "items_ok its \<Longrightarrow> runs_items its"
proof (induction v and it and its rule: render_render_item_render_items.induct)
  case 6
  show ?case by (rule runs_items_Nil)
next
  case (7 it)
  then have it: "runs_item it" by simp
  show ?case
    unfolding runs_items_def
  proof (intro allI impI)
    fix js pre post and s :: jsmn_state and ts k
    assume "js = pre @ render_items [it] @ post" "ends_prim post" "pos s = length pre"
      "tokens s = Some ts" "toknext s + ntoks_items [it] \<le> length ts" "innermost ts (toknext s) k"
      "toksuper s = int k"
    then show "\<exists>sp. reaches js s (after s (length (render_items [it])) (toks_items (pos s) [it])
        (add_size ts k (length [it])) sp)"
      using it [unfolded runs_item_def, rule_format, of js pre post s ts k] by auto
  qed
next
  case (8 it it' its)
  show ?case by (rule runs_items_cons) (use 8 in simp_all)
qed (auto intro: runs_value_scalar runs_value_node runs_item_elem runs_item_member simp: scalar_def)

subsection \<open>Tokenizing a document\<close>

lemma jsmn_parse_put:
  assumes ok: "val_ok v" and room: "ntoks v \<le> length ts0"
  shows "jsmn_parse jsmn_init (render v) (length (render v)) (Some ts0) =
    Inr (ntoks v, Some (put 0 (toks 0 v) ts0))"
proof -
  let ?s = "\<lparr>pos = 0, toknext = 0, toksuper = -1, tokens = Some ts0, count = 0\<rparr>"
  let ?t = "after ?s (length (render v)) (toks 0 v) ts0 (-1)"
  have "outer ts0 0 = -1" by (simp add: outer_def)
  then have "reaches (render v) ?s ?t"
    using runs_valueD [OF runs_all(1) [OF ok], where js = "render v" and pre = "[]" and post = "[]"
        and s = ?s and ts = ts0 and sp = "-1" and sp' = "-1"] room
    by (simp add: ends_prim_def bump_size_def)
  then have "jsmn_loop (render v) (length (render v)) ?s = Inr ?t"
    by (simp add: reaches_def jsmn_loop.simps [of _ _ ?t])
  moreover have "find_last tok_open (put 0 (toks 0 v) ts0) (ntoks v) = None"
    using toks_closed(1) [of 0 v] by (auto simp: find_last_None)
  ultimately show ?thesis
    by (simp add: jsmn_parse_def jsmn_init_def)
qed

text \<open>
  C2. Tokenizing the text of a JSON value into any array with enough room succeeds, returns the number
  of tokens of the value, writes exactly the value's tokens (types, offsets and numbers of children) to
  the front of the array and leaves the entries behind them as they were.
\<close>

theorem jsmn_parse_render:
  assumes "val_ok v" "ntoks v \<le> length ts0"
  shows "jsmn_parse jsmn_init (render v) (length (render v)) (Some ts0) =
    Inr (ntoks v, Some (toks 0 v @ drop (ntoks v) ts0))"
  using jsmn_parse_put [OF assms] by (simp add: put_def)

theorem jsmn_parse_render_witness:
  "jsmn_parse jsmn_init ''{\"asks\":[[1,0.5]]}'' 18 (Some (replicate 7 (hd (toks 0 (JStr []))))) =
     Inr (6, Some
       [\<lparr>tok_type = JSMN_OBJECT, tok_start = 0, tok_end = 18, tok_size = 1\<rparr>,
        \<lparr>tok_type = JSMN_STRING, tok_start = 2, tok_end = 6, tok_size = 1\<rparr>,
        \<lparr>tok_type = JSMN_ARRAY, tok_start = 8, tok_end = 17, tok_size = 1\<rparr>,
        \<lparr>tok_type = JSMN_ARRAY, tok_start = 9, tok_end = 16, tok_size = 2\<rparr>,
        \<lparr>tok_type = JSMN_PRIMITIVE, tok_start = 10, tok_end = 11, tok_size = 0\<rparr>,
        \<lparr>tok_type = JSMN_PRIMITIVE, tok_start = 12, tok_end = 15, tok_size = 0\<rparr>,
        \<lparr>tok_type = JSMN_STRING, tok_start = 1, tok_end = 1, tok_size = 0\<rparr>])"
proof -
  let ?v = "JObj [(''asks'', JArr [JArr [JPrim ''1'', JPrim ''0.5'']])]"
  have "val_ok ?v" "ntoks ?v \<le> length (replicate 7 (hd (toks 0 (JStr []))))"
    by code_simp+
  from jsmn_parse_render [OF this] show ?thesis
    by (simp add: node_open_def node_close_def node_type_def eval_nat_numeral)
qed

end
