(* ===== verification/JsonView.thy ===== *)
theory JsonView
  imports Json JsmnJson
begin

section \<open>The token array as the accessors see it\<close>

text \<open>
  The accessors of \<open>Json\<close> depend on a token only through its type and its text. \<open>views data ts n ws\<close>
  says that the first \<open>n\<close> tokens have the types and texts \<open>ws\<close>; under it each accessor is a search in
  \<open>ws\<close>. For the text of a JSON value \<open>ws\<close> is the flattening \<open>flat\<close> of the value, so the parsers of
  the vendors can be described on values, without offsets.
\<close>

type_synonym view = "jsmntype \<times> string"

definition views :: "string \<Rightarrow> jsmntok list \<Rightarrow> nat \<Rightarrow> view list \<Rightarrow> bool" where
  "views data ts n ws \<longleftrightarrow> n = length ws \<and> n \<le> length ts \<and>
     (\<forall>i<n. tok_type (ts ! i) = fst (ws ! i) \<and> tok_text data (ts ! i) = Inr (snd (ws ! i)))"

lemma views_arr_get:
  "views data ts n ws \<Longrightarrow> 0 \<le> i \<Longrightarrow> i < int n \<Longrightarrow>
   \<exists>t. arr_get ts i = Inr t \<and> tok_type t = fst (ws ! nat i) \<and> tok_text data t = Inr (snd (ws ! nat i))"
  by (auto simp: views_def arr_get_def nat_less_iff)

subsection \<open>Searching for a tag\<close>

fun find_str :: "view list \<Rightarrow> string \<Rightarrow> nat option" where
  "find_str [] tag = None"
| "find_str (w # ws) tag = (if w = (JSMN_STRING, tag) then Some 0 else map_option Suc (find_str ws tag))"

lemma find_str_None: "find_str ws tag = None \<longleftrightarrow> (JSMN_STRING, tag) \<notin> set ws"
  by (induction ws) auto

lemma find_str_skip: "(JSMN_STRING, tag) \<notin> set us \<Longrightarrow>
  find_str (us @ (JSMN_STRING, tag) # ws) tag = Some (length us)"
  by (induction us) auto

lemma find_str_append: "(JSMN_STRING, tag) \<notin> set us \<Longrightarrow>
  find_str (us @ ws) tag = map_option (\<lambda>j. length us + j) (find_str ws tag)"
  by (induction us) (cases "find_str ws tag"; auto)+

lemma find_str_Some: "find_str ws tag = Some j \<Longrightarrow> j < length ws \<and> ws ! j = (JSMN_STRING, tag)"
  by (induction ws arbitrary: j) (auto split: if_splits)

definition as_pos :: "nat \<Rightarrow> nat option \<Rightarrow> int" where
  "as_pos i r = (case r of None \<Rightarrow> -1 | Some j \<Rightarrow> int (i + j))"

lemma find_token_views:
  assumes v: "views data ts n ws"
  shows "json_find_token data ts n (int i) tag = Inr (as_pos i (find_str (drop i ws) tag))"
proof (induction "n - i" arbitrary: i)
  case 0
  then show ?case
    using v by (subst json_find_token.simps) (auto simp: views_def as_pos_def)
next
  case (Suc m)
  then have i: "i < n" "i < length ws" using v by (auto simp: views_def)
  obtain t where t: "arr_get ts (int i) = Inr t" "tok_type t = fst (ws ! i)" "tok_text data t = Inr (snd (ws ! i))"
    using views_arr_get [OF v, of "int i"] i by auto
  have IH: "json_find_token data ts n (int i + 1) tag = Inr (as_pos (Suc i) (find_str (drop (Suc i) ws) tag))"
    using Suc.hyps(1) [of "Suc i"] Suc.hyps(2) by (simp add: add.commute)
  have d: "drop i ws = ws ! i # drop (Suc i) ws" using i by (simp add: Cons_nth_drop_Suc)
  show ?case
    using i t IH by (subst json_find_token.simps)
      (cases "ws ! i"; auto simp: d as_pos_def split: option.split)
qed

text \<open>What follows the tag, the tag's value first: the accessors go on from there.\<close>

lemma get_double_views:
  assumes "views data ts n ws" "find_str (drop i ws) tag = Some j" "i + j + 1 < n"
    "ws ! (i + j + 1) = (JSMN_PRIMITIVE, x)"
  shows "json_get_double_value data ts n (int i) tag d = Inr (int (i + j + 1), json_double_of x)"
  using find_token_views [OF assms(1), of i tag] views_arr_get [OF assms(1), of "int (i + j + 1)"] assms(2-4)
  by (auto simp: json_get_double_value_def as_pos_def add.commute nat_add_distrib)

lemma get_int_views:
  assumes "views data ts n ws" "find_str (drop i ws) tag = Some j" "i + j + 1 < n"
    "ws ! (i + j + 1) = (JSMN_PRIMITIVE, x)" "json_int_of x = Inr z'"
  shows "json_get_int_value data ts n (int i) tag z = Inr (int (i + j + 1), z')"
  using find_token_views [OF assms(1), of i tag] views_arr_get [OF assms(1), of "int (i + j + 1)"] assms(2-5)
  by (auto simp: json_get_int_value_def as_pos_def add.commute nat_add_distrib)

lemma get_string_views:
  assumes "views data ts n ws" "find_str (drop i ws) tag = Some j" "i + j + 1 < n"
    "ws ! (i + j + 1) = (JSMN_STRING, x)"
  shows "json_get_string_value data ts n (int i) tag r = Inr (int (i + j + 1), Some x)"
  using find_token_views [OF assms(1), of i tag] views_arr_get [OF assms(1), of "int (i + j + 1)"] assms(2-4)
  by (auto simp: json_get_string_value_def as_pos_def add.commute nat_add_distrib)

lemma get_value_none_views:
  assumes "views data ts n ws" "find_str (drop i ws) tag = None"
  shows "json_get_double_value data ts n (int i) tag d = Inr (0, d)"
    and "json_get_int_value data ts n (int i) tag z = Inr (0, z)"
    and "json_get_string_value data ts n (int i) tag r = Inr (0, r)"
  using find_token_views [OF assms(1), of i tag] assms(2)
  by (auto simp: json_get_double_value_def json_get_int_value_def json_get_string_value_def as_pos_def)

lemma json_get_double_views:
  assumes "views data ts n ws" "i < n" "fst (ws ! i) \<in> {JSMN_PRIMITIVE, JSMN_STRING}"
  shows "\<exists>t. arr_get ts (int i) = Inr t \<and> json_get_double data t d = Inr (json_double_of (snd (ws ! i)))"
  using views_arr_get [OF assms(1), of "int i"] assms(2,3) by (auto simp: json_get_double_def)

text \<open>The same on suffixes: skip what does not hold the tag, stop at the tag's value.\<close>

lemma drop_eq_append:
  assumes "drop i ws = us @ a # x # rest"
  shows "i + length us + 1 < length ws" "ws ! (i + length us + 1) = x"
    "drop (i + length us + 1) ws = x # rest"
proof -
  have "length (drop i ws) = length us + 2 + length rest" using assms by simp
  then show 1: "i + length us + 1 < length ws" by simp
  show 2: "drop (i + length us + 1) ws = x # rest"
    using arg_cong [OF assms, of "drop (length us + 1)"] by (simp add: add.commute add.left_commute)
  show "ws ! (i + length us + 1) = x"
    using 1 2 hd_drop_conv_nth [of "i + length us + 1" ws] by simp
qed

lemma seek_string:
  assumes v: "views data ts n ws" and d: "drop i ws = us @ (JSMN_STRING, tag) # (JSMN_STRING, x) # rest"
    and u: "(JSMN_STRING, tag) \<notin> set us"
  obtains i' where "json_get_string_value data ts n (int i) tag r = Inr (int i', Some x)" "i < i'"
    "drop i' ws = (JSMN_STRING, x) # rest"
proof
  show "json_get_string_value data ts n (int i) tag r = Inr (int (i + length us + 1), Some x)"
    using drop_eq_append [OF d] v find_str_skip [OF u]
    by (intro get_string_views [OF v]) (auto simp: d views_def)
qed (use drop_eq_append [OF d] in auto)

lemma seek_double:
  assumes v: "views data ts n ws" and d: "drop i ws = us @ (JSMN_STRING, tag) # (JSMN_PRIMITIVE, x) # rest"
    and u: "(JSMN_STRING, tag) \<notin> set us"
  obtains i' where "json_get_double_value data ts n (int i) tag z = Inr (int i', json_double_of x)" "i < i'"
    "drop i' ws = (JSMN_PRIMITIVE, x) # rest"
proof
  show "json_get_double_value data ts n (int i) tag z = Inr (int (i + length us + 1), json_double_of x)"
    using drop_eq_append [OF d] v find_str_skip [OF u]
    by (intro get_double_views [OF v]) (auto simp: d views_def)
qed (use drop_eq_append [OF d] in auto)

lemma seek_int:
  assumes v: "views data ts n ws" and d: "drop i ws = us @ (JSMN_STRING, tag) # (JSMN_PRIMITIVE, x) # rest"
    and u: "(JSMN_STRING, tag) \<notin> set us" and x: "json_int_of x = Inr k"
  obtains i' where "json_get_int_value data ts n (int i) tag z = Inr (int i', k)" "i < i'"
    "drop i' ws = (JSMN_PRIMITIVE, x) # rest"
proof
  show "json_get_int_value data ts n (int i) tag z = Inr (int (i + length us + 1), k)"
    using drop_eq_append [OF d] v find_str_skip [OF u] x
    by (intro get_int_views [OF v]) (auto simp: d views_def)
qed (use drop_eq_append [OF d] in auto)

subsection \<open>Flattening a value\<close>

fun flat :: "jval \<Rightarrow> view list"
  and flat_item :: "string option \<times> jval \<Rightarrow> view list"
  and flat_items :: "(string option \<times> jval) list \<Rightarrow> view list" where
  "flat (JStr s) = [(JSMN_STRING, s)]"
| "flat (JPrim s) = [(JSMN_PRIMITIVE, s)]"
| "flat (JNode obj its) = (node_type obj, render (JNode obj its)) # flat_items its"
| "flat_item (None, v) = flat v"
| "flat_item (Some k, v) = (JSMN_STRING, k) # flat v"
| "flat_items [] = []"
| "flat_items (it # its) = flat_item it @ flat_items its"

lemma length_flat [simp]:
  "length (flat v) = ntoks v" "length (flat_item it) = ntoks_item it"
  "length (flat_items its) = ntoks_items its"
  by (induction v and it and its rule: flat_flat_item_flat_items.induct) auto

lemma flat_items_append [simp]: "flat_items (its @ its') = flat_items its @ flat_items its'"
  by (induction its) auto

lemma flat_items_map_None [simp]: "flat_items (map (Pair None) vs) = concat (map flat vs)"
  by (induction vs) auto

lemma flat_items_map_comp [simp]:
  "flat_items (map (Pair None \<circ> f) xs) = concat (map (\<lambda>x. flat (f x)) xs)"
  by (induction xs) auto

definition tok_view :: "string \<Rightarrow> jsmntok \<Rightarrow> view cres" where
  "tok_view data t = cbind (tok_text data t) (\<lambda>x. Inr (tok_type t, x))"

lemma tok_view_at:
  "data = pre @ x @ post \<Longrightarrow> a = int (length pre) \<Longrightarrow> b = int (length pre + length x) \<Longrightarrow>
   tok_view data \<lparr>tok_type = ty, tok_start = a, tok_end = b, tok_size = z\<rparr> = Inr (ty, x)"
  by (simp add: tok_view_def tok_text_def nat_add_distrib)

lemma toks_view:
  "data = pre @ render v @ post \<Longrightarrow> p = length pre \<Longrightarrow> map (tok_view data) (toks p v) = map Inr (flat v)"
  "data = pre @ render_item it @ post \<Longrightarrow> p = length pre \<Longrightarrow>
     map (tok_view data) (toks_item p it) = map Inr (flat_item it)"
  "data = pre @ render_items its @ post \<Longrightarrow> p = length pre \<Longrightarrow>
     map (tok_view data) (toks_items p its) = map Inr (flat_items its)"
proof (induction v and it and its arbitrary: p pre post and p pre post and p pre post
    rule: render_render_item_render_items.induct)
  case (1 s)
  then show ?case by (auto intro!: tok_view_at [where pre = "pre @ [quote]" and post = "quote # post"])
next
  case (2 s)
  then show ?case by (auto intro!: tok_view_at [where pre = pre and post = post])
next
  case (3 obj its)
  then show ?case
    using "3.IH" [of "pre @ [node_open obj]" "node_close obj # post" "p + 1"]
    by (auto intro!: tok_view_at [where pre = pre and post = post])
next
  case (4 v)
  then show ?case by simp
next
  case (5 k v)
  then show ?case
    using "5.IH" [of "pre @ quote # k @ quote # [CHR '':'']" post "p + length k + 3"]
    by (auto intro!: tok_view_at [where pre = "pre @ [quote]" and post = "quote # CHR '':'' # render v @ post"])
next
  case 6
  then show ?case by simp
next
  case (7 it)
  then show ?case by simp
next
  case (8 it it' its)
  have "map (tok_view data) (toks_item p it) = map Inr (flat_item it)"
    using "8.IH"(1) [of pre "CHR '','' # render_items (it' # its) @ post" p] "8.prems" by simp
  moreover have "map (tok_view data) (toks_items (p + length (render_item it) + 1) (it' # its)) =
      map Inr (flat_items (it' # its))"
    using "8.IH"(2) [of "pre @ render_item it @ [CHR '','']" post "p + length (render_item it) + 1"] "8.prems"
    by simp
  ultimately show ?case by simp
qed

lemma tok_view_Inr: "tok_view data t = Inr w \<longleftrightarrow> tok_type t = fst w \<and> tok_text data t = Inr (snd w)"
  by (cases w) (auto simp: tok_view_def cbind_Inr_iff)

text \<open>Parsing the text of a value gives an array that shows the flattened value.\<close>

lemma json_parse_render:
  assumes "val_ok v" "ntoks v \<le> length ts0"
  obtains ts where "json_parse (render v) ts0 = Inr (ntoks v, ts)" "length ts = length ts0"
    "views (render v) ts (ntoks v) (flat v)"
proof
  let ?ts = "put 0 (toks 0 v) ts0"
  show "json_parse (render v) ts0 = Inr (ntoks v, ?ts)"
    using jsmn_parse_put [OF assms] by (simp add: json_parse_def)
  show "length ?ts = length ts0" using assms(2) by simp
  have "tok_view (render v) (?ts ! i) = Inr (flat v ! i)" if "i < ntoks v" for i
  proof -
    have "map (tok_view (render v)) (toks 0 v) ! i = map Inr (flat v) ! i"
      using toks_view(1) [of "render v" "[]" v "[]" 0] by simp
    with that show ?thesis by simp
  qed
  then show "views (render v) ?ts (ntoks v) (flat v)"
    using assms(2) by (auto simp: views_def tok_view_Inr)
qed

text \<open>The text of a value is a C string.\<close>

lemma prim_char_NUL: "\<not> prim_char NUL"
  by (simp add: prim_char_def char_code_def NUL_def)

lemma render_no_NUL:
  "val_ok v \<Longrightarrow> NUL \<notin> set (render v)"
  "item_ok it \<Longrightarrow> NUL \<notin> set (render_item it)"
  "items_ok its \<Longrightarrow> NUL \<notin> set (render_items its)"
proof (induction v and it and its rule: render_render_item_render_items.induct)
  case (2 s)
  then show ?case using prim_char_NUL by (auto simp: prim_ok_def)
qed (auto simp: str_ok_def NUL_def node_open_def node_close_def)

end
