(* ===== verification/LevelView.thy ===== *)
theory LevelView
  imports Book JsonView
begin

section \<open>Price levels as arrays of two numbers\<close>

text \<open>
  Two exchanges write a level of the order book as an array of two numbers, each a primitive or a
  string. The positional parsers read a level at the two tokens behind its array token.
\<close>

definition free_of :: "string \<Rightarrow> (string option \<times> jval) list \<Rightarrow> bool" where
  "free_of tag its \<longleftrightarrow> (JSMN_STRING, tag) \<notin> set (flat_items its)"

lemma free_of_Nil [simp, intro]: "free_of tag []"
  by (simp add: free_of_def)

lemma items_ok_append [simp]: "items_ok (its @ its') \<longleftrightarrow> items_ok its \<and> items_ok its'"
  by (induction its) auto

lemma items_ok_elems [simp]: "items_ok (map (Pair None) vs) \<longleftrightarrow> (\<forall>v\<in>set vs. val_ok v)"
  by (induction vs) auto

type_synonym level = "jval \<times> jval"

fun scalar_view :: "jval \<Rightarrow> view option" where
  "scalar_view (JStr s) = Some (JSMN_STRING, s)"
| "scalar_view (JPrim s) = Some (JSMN_PRIMITIVE, s)"
| "scalar_view (JNode obj its) = None"

definition num_of :: "jval \<Rightarrow> double" where
  "num_of v = (case scalar_view v of None \<Rightarrow> dbl_0 | Some w \<Rightarrow> json_double_of (snd w))"

definition level_arr :: "level \<Rightarrow> jval" where
  "level_arr l = JArr [fst l, snd l]"

text \<open>Numbers that are strings must not be one of the two tags the parsers search for.\<close>

definition num_ok :: "jval \<Rightarrow> bool" where
  "num_ok v \<longleftrightarrow> (\<exists>w. scalar_view v = Some w \<and> w \<notin> {(JSMN_STRING, ''asks''), (JSMN_STRING, ''bids'')})"

definition level_ok :: "level \<Rightarrow> bool" where
  "level_ok l \<longleftrightarrow> num_ok (fst l) \<and> num_ok (snd l)"

definition flat_levels :: "level list \<Rightarrow> view list" where
  "flat_levels ls = concat (map (\<lambda>l. flat (level_arr l)) ls)"

lemma flat_levels_simps [simp]:
  "flat_levels [] = []"
  "flat_levels (l # ls) = flat (level_arr l) @ flat_levels ls"
  by (simp_all add: flat_levels_def)

lemma flat_scalar: "scalar_view v = Some w \<Longrightarrow> flat v = [w] \<and> fst w \<in> {JSMN_PRIMITIVE, JSMN_STRING}"
  by (cases v) auto

lemma flat_level_arr:
  assumes "level_ok l"
  obtains v w where "flat (level_arr l) = [(JSMN_ARRAY, render (level_arr l)), v, w]"
    "fst v \<in> {JSMN_PRIMITIVE, JSMN_STRING}" "fst w \<in> {JSMN_PRIMITIVE, JSMN_STRING}"
    "num_of (fst l) = json_double_of (snd v)" "num_of (snd l) = json_double_of (snd w)"
    "{v, w} \<inter> {(JSMN_STRING, ''asks''), (JSMN_STRING, ''bids'')} = {}"
proof -
  obtain v w where "scalar_view (fst l) = Some v" "scalar_view (snd l) = Some w"
      "{v, w} \<inter> {(JSMN_STRING, ''asks''), (JSMN_STRING, ''bids'')} = {}"
    using assms by (auto simp: level_ok_def num_ok_def)
  with that [of v w] show ?thesis
    using flat_scalar [of "fst l" v] flat_scalar [of "snd l" w]
    by (simp add: level_arr_def num_of_def node_type_def)
qed

lemma length_flat_levels: "\<forall>l\<in>set ls. level_ok l \<Longrightarrow> length (flat_levels ls) = 3 * length ls"
proof (induction ls)
  case (Cons l ls)
  then have "level_ok l" by simp
  then obtain v w where "flat (level_arr l) = [(JSMN_ARRAY, render (level_arr l)), v, w]"
    by (rule flat_level_arr)
  with Cons show ?case by simp
qed simp

lemma flat_levels_tags:
  "\<forall>l\<in>set ls. level_ok l \<Longrightarrow> tag \<in> {''asks'', ''bids''} \<Longrightarrow> (JSMN_STRING, tag) \<notin> set (flat_levels ls)"
proof (induction ls)
  case (Cons l ls)
  then have "level_ok l" by simp
  then obtain v w where "flat (level_arr l) = [(JSMN_ARRAY, render (level_arr l)), v, w]"
      "{v, w} \<inter> {(JSMN_STRING, ''asks''), (JSMN_STRING, ''bids'')} = {}"
    by (rule flat_level_arr)
  with Cons show ?case by auto
qed simp

lemma token_double_views:
  assumes "views data ts n ws" "i < n" "fst (ws ! i) \<in> {JSMN_PRIMITIVE, JSMN_STRING}"
  shows "token_double data ts (int i) d = Inr (json_double_of (snd (ws ! i)))"
  using json_get_double_views [OF assms, of d] by (auto simp: token_double_def)

text \<open>A level at a position: what the two reads give, and what follows.\<close>

lemma read_level:
  assumes v: "views data ts n ws" and d: "drop i ws = flat (level_arr l) @ rest" and ok: "level_ok l"
  shows "token_double data ts (int i + 1) x = Inr (num_of (fst l))"
    and "token_double data ts (int i + 2) y = Inr (num_of (snd l))"
    and "drop (i + 3) ws = rest"
proof -
  obtain v' w where f: "flat (level_arr l) = [(JSMN_ARRAY, render (level_arr l)), v', w]"
    "fst v' \<in> {JSMN_PRIMITIVE, JSMN_STRING}" "fst w \<in> {JSMN_PRIMITIVE, JSMN_STRING}"
    "num_of (fst l) = json_double_of (snd v')" "num_of (snd l) = json_double_of (snd w)"
    using ok by (rule flat_level_arr)
  have len: "i + 2 < length ws"
    using arg_cong [OF d, of length] f(1) by simp
  have at: "ws ! (i + k) = (flat (level_arr l) @ rest) ! k" if "i + k < length ws" for k
    using that by (metis d add.commute less_diff_conv nth_drop le_add1 less_or_eq_imp_le add_leD1 add_lessD1)
  have n: "n = length ws" using v by (simp add: views_def)
  show "token_double data ts (int i + 1) x = Inr (num_of (fst l))"
    using token_double_views [OF v, of "i + 1"] at [of 1] len f n by (simp add: add.commute)
  show "token_double data ts (int i + 2) y = Inr (num_of (snd l))"
    using token_double_views [OF v, of "i + 2"] at [of 2] len f n by (simp add: add.commute)
  show "drop (i + 3) ws = rest"
    using arg_cong [OF d, of "drop 3"] f(1) by (simp add: add.commute)
qed

text \<open>The index of a tag and what follows it, for the searches from the beginning.\<close>

lemma find_tag_views:
  assumes v: "views data ts n ws" and ws: "ws = us @ (JSMN_STRING, tag) # rest"
    and us: "(JSMN_STRING, tag) \<notin> set us"
  shows "json_find_token data ts n 0 tag = Inr (int (length us))" "drop (length us + 1) ws = rest"
  using find_token_views [OF v, of 0 tag] find_str_skip [OF us, of rest] by (auto simp: ws as_pos_def)

text \<open>A member with a number: the search for its tag, and the read behind it.\<close>

lemma seek_number:
  assumes v: "views data ts n ws" and d: "drop i ws = us @ (JSMN_STRING, tag) # flat x @ rest"
    and us: "(JSMN_STRING, tag) \<notin> set us" and x: "scalar_view x = Some w"
  obtains p where "json_find_token data ts n (int i) tag = Inr (int p)" "i \<le> p"
    "\<And>d. token_double data ts (int p + 1) d = Inr (num_of x)" "drop (p + 1) ws = w # rest"
proof
  let ?p = "i + length us"
  have f: "flat x = [w]" "fst w \<in> {JSMN_PRIMITIVE, JSMN_STRING}" using flat_scalar [OF x] by auto
  then have d': "drop i ws = us @ (JSMN_STRING, tag) # w # rest" using d by simp
  note q = drop_eq_append [OF d']
  show "json_find_token data ts n (int i) tag = Inr (int ?p)"
    unfolding find_token_views [OF v] d' find_str_skip [OF us] by (simp add: as_pos_def)
  show "token_double data ts (int ?p + 1) y = Inr (num_of x)" for y
    using token_double_views [OF v, of "?p + 1" y] q f x v
    by (simp add: num_of_def views_def add.commute add.left_commute)
  show "drop (?p + 1) ws = w # rest" using q(3) by simp
qed simp

text \<open>A number that is not the string \<open>tag\<close>.\<close>

definition scalar_not :: "jval \<Rightarrow> string \<Rightarrow> bool" where
  "scalar_not v tag \<longleftrightarrow> (case scalar_view v of None \<Rightarrow> False | Some w \<Rightarrow> w \<noteq> (JSMN_STRING, tag))"

lemma scalar_notE:
  assumes "scalar_not v tag"
  obtains w where "scalar_view v = Some w" "w \<noteq> (JSMN_STRING, tag)" "flat v = [w]"
  using assms flat_scalar by (auto simp: scalar_not_def split: option.splits)

text \<open>A stale array element, for the examples.\<close>

definition stale :: jsmntok where
  "stale = \<lparr>tok_type = JSMN_STRING, tok_start = 3, tok_end = 1, tok_size = 9\<rparr>"

end
