(* ===== verification/Https.thy ===== *)
theory Https
  imports CDouble
begin

section \<open>HTTPS requests (\<^verbatim>\<open>utils/https.c\<close>)\<close>

text \<open>
  Building requests, collecting answers, nonces, hexadecimal text and signatures. The transfer itself,
  \<^verbatim>\<open>curl_easy_perform\<close>, is the parameter \<open>perform\<close>: from the request it gives whether the transfer
  succeeded and the pieces of the answer in the order in which the write callback receives them.
  \<^verbatim>\<open>curl_easy_escape\<close> is the parameter \<open>escape\<close> and \<^verbatim>\<open>mbedtls_md_hmac\<close> with SHA-512 the parameter
  \<open>hmac\<close> (\<open>None\<close> when it fails). The clock of \<^verbatim>\<open>gettimeofday\<close> is an argument.
\<close>

subsection \<open>The answer buffer\<close>

record memory_struct =
  mem_memory :: block
  mem_size :: nat

text \<open>The chunk of \<^verbatim>\<open>utils_https_get\<close> and \<^verbatim>\<open>utils_https_post\<close>: one byte that is never written.\<close>

definition chunk_new :: memory_struct where
  "chunk_new = \<lparr>mem_memory = [None], mem_size = 0\<rparr>"

definition write_memory_callback :: "string \<Rightarrow> memory_struct \<Rightarrow> nat \<times> memory_struct" where
  "write_memory_callback contents mem =
     (let realsize = length contents;
          buf = take (mem_size mem) (mem_memory mem)
      in (realsize, mem\<lparr>mem_memory := buf @ map Some contents @ [Some NUL],
                        mem_size := mem_size mem + realsize\<rparr>))"

definition receive :: "string list \<Rightarrow> memory_struct \<Rightarrow> memory_struct" where
  "receive pieces mem = fold (\<lambda>p m. snd (write_memory_callback p m)) pieces mem"

lemma receive_append:
  "receive pieces \<lparr>mem_memory = map Some s @ [x], mem_size = length s\<rparr> =
     \<lparr>mem_memory = map Some (s @ concat pieces) @ [if pieces = [] then x else Some NUL],
      mem_size = length (s @ concat pieces)\<rparr>"
proof (induction pieces arbitrary: s x)
  case Nil
  then show ?case by (simp add: receive_def)
next
  case (Cons p pieces)
  have "snd (write_memory_callback p \<lparr>mem_memory = map Some s @ [x], mem_size = length s\<rparr>) =
      \<lparr>mem_memory = map Some (s @ p) @ [Some NUL], mem_size = length (s @ p)\<rparr>"
    by (simp add: write_memory_callback_def Let_def)
  then show ?case
    using Cons.IH [of "s @ p" "Some NUL"] by (simp add: receive_def)
qed

text \<open>The pieces are put together in order, behind a terminator once there is a piece.\<close>

lemma receive_new:
  "receive pieces chunk_new =
     \<lparr>mem_memory = map Some (concat pieces) @ [if pieces = [] then None else Some NUL],
      mem_size = length (concat pieces)\<rparr>"
  using receive_append [of pieces "[]" None] by (simp add: chunk_new_def)

subsection \<open>Requests\<close>

record http_connection =
  conn_curl :: bool   \<comment> \<open>\<^verbatim>\<open>curl_easy_init\<close> gave a handle\<close>
  headers :: "string list"
  post_parameters :: "string option"
  encoded_post_parameters :: "string option"

record curl_request =
  req_url :: string
  req_agent :: string
  req_headers :: "string list"
  req_post :: "string option"
  req_follow :: bool
  req_verify :: bool

type_synonym curl_perform = "curl_request \<Rightarrow> bool \<times> string list"

definition utils_https_new :: "bool \<Rightarrow> http_connection" where
  "utils_https_new handle =
     \<lparr>conn_curl = handle, headers = [], post_parameters = None, encoded_post_parameters = None\<rparr>"

text \<open>The options \<^verbatim>\<open>utils_https_get\<close> sets before the transfer.\<close>

definition get_request :: "string list \<Rightarrow> string \<Rightarrow> curl_request" where
  "get_request hs url =
     \<lparr>req_url = url, req_agent = ''libcurl-agent/1.0'', req_headers = hs, req_post = None,
      req_follow = True, req_verify = True\<rparr>"

text \<open>The options \<^verbatim>\<open>utils_https_post\<close> sets: no redirects, and the peer is not verified.\<close>

definition post_request :: "http_connection \<Rightarrow> string \<Rightarrow> curl_request" where
  "post_request connection url =
     \<lparr>req_url = url, req_agent = ''Mozilla/4.0 (compatible; MSID 6.0; WINDOWS NT 5.0)'',
      req_headers = headers connection, req_post = post_parameters connection,
      req_follow = False, req_verify = False\<rparr>"

text \<open>Both calls return their code and what \<^verbatim>\<open>*results\<close> is set to, \<open>None\<close> when it is left alone.\<close>

definition utils_https_get :: "curl_perform \<Rightarrow> http_connection \<Rightarrow> string \<Rightarrow> int \<times> block option" where
  "utils_https_get perform connection url =
     (if conn_curl connection then
        (case perform (get_request (headers connection) url) of
           (ok, pieces) \<Rightarrow>
             if \<not> ok then (-1, None) else (0, Some (mem_memory (receive pieces chunk_new))))
      else (0, None))"

definition utils_https_post :: "curl_perform \<Rightarrow> http_connection \<Rightarrow> string \<Rightarrow> int \<times> block option" where
  "utils_https_post perform connection url =
     (if conn_curl connection then
        (case perform (post_request connection url) of
           (ok, pieces) \<Rightarrow>
             if \<not> ok then (-1, None) else (0, Some (mem_memory (receive pieces chunk_new))))
      else (0, None))"

text \<open>Reading \<^verbatim>\<open>*results\<close> after a call.\<close>

definition answer_text :: "block option \<Rightarrow> string cres" where
  "answer_text r = (case r of None \<Rightarrow> Inl BadPointer | Some b \<Rightarrow> c_string b)"

text \<open>A server that answers a URL with a text, in one or more pieces.\<close>

definition serves :: "curl_perform \<Rightarrow> string \<Rightarrow> string \<Rightarrow> bool" where
  "serves perform url s \<longleftrightarrow>
     (case perform (get_request [] url) of (ok, pieces) \<Rightarrow> ok \<and> pieces \<noteq> [] \<and> concat pieces = s)"

lemma https_get_serves:
  assumes "serves perform url s" "NUL \<notin> set s"
  shows "fst (utils_https_get perform (utils_https_new True) url) = 0"
    and "answer_text (snd (utils_https_get perform (utils_https_new True) url)) = Inr s"
  using assms c_string_text [of s "[]"]
  by (auto simp: serves_def utils_https_get_def utils_https_new_def answer_text_def receive_new
      split: prod.splits)

lemma https_get_headers:
  assumes "perform (get_request (headers c) url) = (True, pieces)" "pieces \<noteq> []" "concat pieces = s"
    "NUL \<notin> set s" "conn_curl c"
  shows "answer_text (snd (utils_https_get perform c url)) = Inr s"
  using assms c_string_text [of s "[]"]
  by (auto simp: utils_https_get_def answer_text_def receive_new)

lemma https_post_answer:
  assumes "perform (post_request c url) = (True, pieces)" "pieces \<noteq> []" "concat pieces = s"
    "NUL \<notin> set s" "conn_curl c"
  shows "answer_text (snd (utils_https_post perform c url)) = Inr s"
  using assms c_string_text [of s "[]"]
  by (auto simp: utils_https_post_def answer_text_def receive_new)

text \<open>A server that knows one URL only.\<close>

definition one_page :: "string \<Rightarrow> string \<Rightarrow> curl_perform" where
  "one_page url s req = (if req_url req = url then (True, [s]) else (False, []))"

lemma one_page_serves: "serves (one_page url s) url s"
  by (simp add: serves_def one_page_def get_request_def)

text \<open>A transfer that fails leaves the caller's pointer unassigned; one that delivers nothing leaves
  the byte it points to unwritten.\<close>

lemma https_get_fails:
  "\<not> fst (perform (get_request [] url)) \<Longrightarrow>
   utils_https_get perform (utils_https_new True) url = (-1, None)"
  by (cases "perform (get_request [] url)") (simp add: utils_https_get_def utils_https_new_def)

lemma https_get_empty:
  "perform (get_request [] url) = (True, []) \<Longrightarrow>
   answer_text (snd (utils_https_get perform (utils_https_new True) url)) = Inl Uninit"
  by (simp add: utils_https_get_def utils_https_new_def answer_text_def receive_new)

definition utils_https_add_post_parameter :: "http_connection \<Rightarrow> string \<Rightarrow> string \<Rightarrow> http_connection" where
  "utils_https_add_post_parameter c name value =
     (case post_parameters c of
        None \<Rightarrow>
          (let new_size = length name + length value + 2 in
           c\<lparr>post_parameters := Some (snprintf new_size (name @ ''='' @ value))\<rparr>)
      | Some old \<Rightarrow>
          (let new_size = length old + 1 + (length name + length value + 2) in
           c\<lparr>post_parameters := Some (snprintf new_size (old @ ''&'' @ name @ ''='' @ value))\<rparr>))"

definition utils_https_add_header :: "http_connection \<Rightarrow> string \<Rightarrow> string option \<Rightarrow> http_connection" where
  "utils_https_add_header c name value =
     (let str_length = length name + 2 + (case value of None \<Rightarrow> 0 | Some v \<Rightarrow> length v + 1);
          new_value = (case value of
                         None \<Rightarrow> snprintf str_length (name @ '':'')
                       | Some v \<Rightarrow> snprintf str_length (name @ '': '' @ v))
      in c\<lparr>headers := headers c @ [new_value]\<rparr>)"

definition utils_https_encode_parameters ::
    "(string \<Rightarrow> string) \<Rightarrow> http_connection \<Rightarrow> (string \<times> http_connection) cres" where
  "utils_https_encode_parameters escape c =
     (case post_parameters c of
        None \<Rightarrow> Inl BadPointer
      | Some p \<Rightarrow> Inr (escape p, c\<lparr>encoded_post_parameters := Some (escape p)\<rparr>))"

definition utils_https_get_nonce :: "nat \<times> nat \<Rightarrow> string" where
  "utils_https_get_nonce tval = snprintf 40 (dec (fst tval * 1000000 + snd tval))"

subsection \<open>Building a POST line\<close>

fun postfield_length :: "(string \<times> string) list \<Rightarrow> nat" where
  "postfield_length [] = 0"
| "postfield_length ((name, value) # ps) = length name + length value + 2 + postfield_length ps"

fun postfield_loop :: "nat \<Rightarrow> (string \<times> string) list \<Rightarrow> string \<Rightarrow> string cres" where
  "postfield_loop cap [] buf = Inr buf"
| "postfield_loop cap ((name, value) # ps) buf =
     cbind (if length buf > 0 then buf_cat cap buf ''&'' else Inr buf) (\<lambda>buf.
     cbind (buf_cat cap buf name) (\<lambda>buf.
     cbind (buf_cat cap buf ''='') (\<lambda>buf.
     cbind (buf_cat cap buf value) (\<lambda>buf.
       postfield_loop cap ps buf))))"

text \<open>An array without elements cannot even hold the empty string, so no parameter is a fault.\<close>

definition utils_https_build_postfield ::
    "(string \<Rightarrow> string) \<Rightarrow> (string \<times> string) list \<Rightarrow> string cres" where
  "utils_https_build_postfield escape params =
     (let cap = postfield_length params in
      if cap = 0 then Inl OutOfBounds
      else cbind (postfield_loop cap params []) (\<lambda>buf. Inr (escape buf)))"

fun join_params :: "(string \<times> string) list \<Rightarrow> string" where
  "join_params [] = []"
| "join_params [(n, v)] = n @ ''='' @ v"
| "join_params ((n, v) # p # ps) = n @ ''='' @ v @ ''&'' @ join_params (p # ps)"

lemma length_join_params: "ps \<noteq> [] \<Longrightarrow> Suc (length (join_params ps)) = postfield_length ps"
  by (induction ps rule: join_params.induct) auto

lemma postfield_loop_more:
  "\<lbrakk>buf \<noteq> []; ps \<noteq> []; length buf + 1 + length (join_params ps) < cap\<rbrakk> \<Longrightarrow>
   postfield_loop cap ps buf = Inr (buf @ ''&'' @ join_params ps)"
  by (induction ps arbitrary: buf rule: join_params.induct) (auto simp: buf_cat_def)

text \<open>The array is exactly large enough, and the line is the joined parameters.\<close>

lemma build_postfield_join:
  assumes "ps \<noteq> []"
  shows "utils_https_build_postfield escape ps = Inr (escape (join_params ps))"
proof -
  obtain n v ps' where ps: "ps = (n, v) # ps'" using assms by (cases ps) auto
  have "postfield_loop (postfield_length ps) ps [] = Inr (join_params ps)"
    using length_join_params [of ps'] postfield_loop_more [of "n @ ''='' @ v" ps' "postfield_length ps"]
    by (cases ps') (auto simp: ps buf_cat_def)
  then show ?thesis
    using length_join_params [OF assms] by (simp add: utils_https_build_postfield_def Let_def)
qed

text \<open>Adding post parameters one by one gives the same line.\<close>

lemma add_post_parameters_join:
  assumes "ps \<noteq> []"
  shows "post_parameters (fold (\<lambda>(n, v) c. utils_https_add_post_parameter c n v) ps (utils_https_new h)) =
    Some (join_params ps)"
proof -
  have more: "post_parameters c = Some s \<Longrightarrow> qs \<noteq> [] \<Longrightarrow>
      post_parameters (fold (\<lambda>(n, v) c. utils_https_add_post_parameter c n v) qs c) =
        Some (s @ ''&'' @ join_params qs)" for c s qs
  proof (induction qs arbitrary: c s rule: join_params.induct)
    case (3 n v p ps)
    then show ?case
      using "3.IH" [of "utils_https_add_post_parameter c n v" "s @ ''&'' @ n @ ''='' @ v"]
      by (simp add: utils_https_add_post_parameter_def Let_def)
  qed (auto simp: utils_https_add_post_parameter_def Let_def)
  obtain n v ps' where ps: "ps = (n, v) # ps'" using assms by (cases ps) auto
  show ?thesis
    using more [of "utils_https_add_post_parameter (utils_https_new h) n v" "n @ ''='' @ v" ps']
    by (cases ps') (auto simp: ps utils_https_add_post_parameter_def utils_https_new_def Let_def)
qed

subsection \<open>Hexadecimal text\<close>

text \<open>\<^verbatim>\<open>strtol(item, NULL, 16)\<close> on the (at most) two characters of \<^verbatim>\<open>item\<close>: no room for a \<^verbatim>\<open>0x\<close> prefix
  with a digit behind it.\<close>

definition strtol16 :: "string \<Rightarrow> int" where
  "strtol16 s =
     (case take_sign (skip_space s) of (neg, s') \<Rightarrow>
        (case scan_digits 16 s' 0 0 of (v, _, _) \<Rightarrow> if neg then - int v else int v))"

text \<open>The text of \<^verbatim>\<open>item\<close> ends at a NUL.\<close>

definition item_text :: "char \<Rightarrow> char \<Rightarrow> string" where
  "item_text c d = takeWhile (\<lambda>x. x \<noteq> NUL) [c, d]"

text \<open>
  The loop of \<^verbatim>\<open>utils_https_hex_string_to_bytes\<close>: \<open>k\<close> is \<open>i/2\<close>. A text of odd length makes the last
  pass write one byte behind the array. The first argument \<open>len\<close> is the value \<^verbatim>\<open>*len\<close> holds at the
  call; the code tests it before it sets it.
\<close>

fun hex_loop :: "string \<Rightarrow> 8 word list \<Rightarrow> nat \<Rightarrow> 8 word list cres" where
  "hex_loop [] array k = Inr array"
| "hex_loop [c] array k =
     (if k < length array then Inr (array[k := word_of_int (strtol16 (item_text c NUL))])
      else Inl OutOfBounds)"
| "hex_loop (c # d # s) array k =
     (if k < length array then hex_loop s (array[k := word_of_int (strtol16 (item_text c d))]) (k + 1)
      else Inl OutOfBounds)"

definition utils_https_hex_string_to_bytes ::
    "8 word list \<Rightarrow> string \<Rightarrow> nat \<Rightarrow> (nat \<times> 8 word list option) cres" where
  "utils_https_hex_string_to_bytes junk s len =
     (if len mod 2 \<noteq> 0 then Inr (len, None)
      else
        let len' = length s div 2
        in cbind (hex_loop s (take len' (junk @ replicate len' 0)) 0) (\<lambda>array. Inr (len', Some array)))"

definition hex_digit :: "nat \<Rightarrow> char" where
  "hex_digit n = (if n < 10 then char_of (48 + n) else char_of (87 + n))"

text \<open>\<^verbatim>\<open>%02x\<close> of a byte.\<close>

definition byte_hex :: "8 word \<Rightarrow> string" where
  "byte_hex b = [hex_digit (unat b div 16), hex_digit (unat b mod 16)]"

text \<open>Each pass writes two characters and a terminator at \<open>2 * k\<close>; the next pass overwrites the latter.\<close>

fun hex_write :: "8 word list \<Rightarrow> string \<Rightarrow> nat \<Rightarrow> string cres" where
  "hex_write [] result i = Inr result"
| "hex_write (b # bs) result i =
     (if i + 2 < length result then
        hex_write bs (result[i := byte_hex b ! 0, i + 1 := byte_hex b ! 1, i + 2 := NUL]) (i + 2)
      else Inl OutOfBounds)"

definition utils_https_bytes_to_hex_string :: "8 word list \<Rightarrow> nat \<Rightarrow> (nat \<times> string) cres" where
  "utils_https_bytes_to_hex_string bytes incoming_len =
     (if incoming_len \<le> length bytes then
        (let result_len = incoming_len * 2 in
         cbind (hex_write (take incoming_len bytes) (replicate (result_len + 1) NUL) 0)
           (\<lambda>result. Inr (result_len, result)))
      else Inl OutOfBounds)"

definition utils_https_sign ::
    "(string \<Rightarrow> string \<Rightarrow> 8 word list option) \<Rightarrow> string \<Rightarrow> string \<Rightarrow> string option cres" where
  "utils_https_sign hmac private_key message =
     (case hmac private_key message of
        None \<Rightarrow> Inr None
      | Some mac \<Rightarrow> cbind (utils_https_bytes_to_hex_string mac 64) (\<lambda>(n, r). Inr (Some (take n r))))"

lemma hex_write_all:
  "length rest = 2 * length bs \<Longrightarrow>
   hex_write bs (pre @ NUL # rest) (length pre) = Inr (pre @ concat (map byte_hex bs) @ [NUL])"
proof (induction bs arbitrary: pre rest)
  case (Cons b bs)
  obtain x y rest' where r: "rest = x # y # rest'" "length rest' = 2 * length bs"
    using Cons.prems by (cases rest; cases "tl rest") auto
  have upd: "(pre @ NUL # rest)[length pre := c, length pre + 1 := d, length pre + 2 := e] =
      (pre @ [c, d]) @ e # rest'" for c d e
    by (simp add: r list_update_append)
  show ?case
    using Cons.IH [of rest' "pre @ byte_hex b"] r upd
    by (simp add: byte_hex_def)
qed simp

text \<open>The written text is the hexadecimal text of the bytes and fills its block exactly.\<close>

lemma bytes_to_hex_eq:
  "utils_https_bytes_to_hex_string bs (length bs) = Inr (2 * length bs, concat (map byte_hex bs) @ [NUL])"
  using hex_write_all [of "replicate (2 * length bs) NUL" bs "[]"]
  by (simp add: utils_https_bytes_to_hex_string_def Let_def mult.commute)

lemma length_hex: "length (concat (map byte_hex bs)) = 2 * length bs"
  by (induction bs) (auto simp: byte_hex_def)

lemma hex_digit_code: "n < 16 \<Longrightarrow> char_code (hex_digit n) = (if n < 10 then 48 + n else 87 + n)"
  by (simp add: hex_digit_def char_code_def)

lemma strtol16_digits:
  assumes "a < 16" "b < 16"
  shows "strtol16 (item_text (hex_digit a) (hex_digit b)) = int (16 * a + b)"
proof -
  have ne: "hex_digit n \<noteq> NUL" "\<not> is_space (hex_digit n)" "hex_digit n \<noteq> CHR ''-''" "hex_digit n \<noteq> CHR ''+''"
    if "n < 16" for n
    using hex_digit_code [OF that] by (auto simp: char_class NUL_def char_code_def split: if_splits)
  have "base_digit 16 (hex_digit n) = Some n" if "n < 16" for n
    using hex_digit_code [OF that] that by (auto simp: base_digit_def hex_val_def char_class)
  then show ?thesis
    using ne [OF assms(1)] ne [OF assms(2)] assms by (simp add: strtol16_def item_text_def)
qed

lemma hex_loop_all:
  "length rest = length bs \<Longrightarrow>
   hex_loop (concat (map byte_hex bs)) (pre @ rest) (length pre) = Inr (pre @ bs)"
proof (induction bs arbitrary: pre rest)
  case (Cons b bs)
  obtain x rest' where r: "rest = x # rest'" "length rest' = length bs"
    using Cons.prems by (cases rest) auto
  have lt: "unat b < 256" using unsigned_less [of b, where ?'a = nat] by simp
  have "int (16 * (unat b div 16) + unat b mod 16) = int (unat b)" by simp
  then have "word_of_int (strtol16 (item_text (hex_digit (unat b div 16)) (hex_digit (unat b mod 16)))) = b"
    using lt by (subst strtol16_digits) (simp_all only: less_mult_imp_div_less mod_less_divisor, simp_all)
  then show ?case
    using Cons.IH [of rest' "pre @ [b]"] r by (simp add: byte_hex_def list_update_append)
qed simp

text \<open>Reading back the hexadecimal text gives the bytes.\<close>

lemma hex_round_trip:
  assumes "even len"
  shows "utils_https_hex_string_to_bytes junk (concat (map byte_hex bs)) len = Inr (length bs, Some bs)"
proof -
  have "hex_loop (concat (map byte_hex bs)) (take (length bs) (junk @ replicate (length bs) 0)) 0 = Inr bs"
    using hex_loop_all [of "take (length bs) (junk @ replicate (length bs) 0)" bs "[]"] by simp
  then show ?thesis
    using assms by (simp add: utils_https_hex_string_to_bytes_def length_hex Let_def even_iff_mod_2_eq_zero)
qed

text \<open>A text of odd length makes the loop write behind the array.\<close>

lemma hex_loop_odd:
  "odd (length s) \<Longrightarrow> length array = k + length s div 2 \<Longrightarrow> hex_loop s array k = Inl OutOfBounds"
  by (induction s array k rule: hex_loop.induct) auto

lemma hex_string_odd:
  "even len \<Longrightarrow> odd (length s) \<Longrightarrow> utils_https_hex_string_to_bytes junk s len = Inl OutOfBounds"
  using hex_loop_odd [of s "take (length s div 2) (junk @ replicate (length s div 2) 0)" 0]
  by (simp add: utils_https_hex_string_to_bytes_def Let_def even_iff_mod_2_eq_zero)

lemma byte_hex_no_NUL: "NUL \<notin> set (byte_hex b)"
proof -
  have "hex_digit n \<noteq> NUL" if "n < 16" for n
    using hex_digit_code [OF that] by (auto simp: NUL_def char_code_def split: if_splits)
  moreover have "unat b < 256" using unsigned_less [of b, where ?'a = nat] by simp
  then have "unat b div 16 < 16" by (simp add: less_mult_imp_div_less)
  ultimately have "hex_digit (unat b div 16) \<noteq> NUL" "hex_digit (unat b mod 16) \<noteq> NUL" by simp_all
  then show ?thesis
    by (simp add: byte_hex_def eq_commute [of NUL])
qed

text \<open>
  C39. The hexadecimal text \<^verbatim>\<open>utils_https_bytes_to_hex_string\<close> writes fills its block exactly, holds no NUL before its
  end, and \<^verbatim>\<open>utils_https_hex_string_to_bytes\<close> reads the bytes back from it. The latter does so only if the length
  its caller left in \<^verbatim>\<open>*len\<close> is even; with such a length a text with one more character makes it write
  behind its array.
\<close>

theorem hex_text_round_trip:
  "\<exists>hex. utils_https_bytes_to_hex_string bs (length bs) = Inr (2 * length bs, hex @ [NUL]) \<and>
    length hex = 2 * length bs \<and> NUL \<notin> set hex \<and>
    utils_https_hex_string_to_bytes junk hex len = Inr (if even len then (length bs, Some bs) else (len, None)) \<and>
    utils_https_hex_string_to_bytes junk (hex @ [c]) len = (if even len then Inl OutOfBounds else Inr (len, None))"
proof -
  have odd: "utils_https_hex_string_to_bytes junk s len = Inr (len, None)" if "odd len" for s
    using that by (simp add: utils_https_hex_string_to_bytes_def odd_iff_mod_2_eq_one)
  show ?thesis
    by (rule exI [of _ "concat (map byte_hex bs)"])
      (simp add: bytes_to_hex_eq length_hex byte_hex_no_NUL hex_round_trip hex_string_odd odd)
qed

lemma sign_hex:
  "hmac key msg = Some mac \<Longrightarrow> length mac = 64 \<Longrightarrow>
   utils_https_sign hmac key msg = Inr (Some (concat (map byte_hex mac)))"
  using bytes_to_hex_eq [of mac] by (simp add: utils_https_sign_def length_hex)

end
