(* ===== verification/Bittrex.thy ===== *)
theory Bittrex
  imports Book JsonView Https
begin

section \<open>The bittrex exchange (\<^verbatim>\<open>book/bittrex.c\<close>)\<close>

text \<open>
  The parsers of the exchange's answers. The argument \<open>ts0\<close> is what the stack holds in the token array
  before the call; its length is the size of the array (65535, or 1000 for balances). Each loop is a
  function on the position \<^verbatim>\<open>start_pos\<close>, its body a step of its own.
\<close>

subsection \<open>Markets\<close>

definition bittrex_market_step ::
    "string \<Rightarrow> jsmntok list \<Rightarrow> nat \<Rightarrow> int \<Rightarrow> (int \<times> market option) cres" where
  "bittrex_market_step data ts n sp =
     cbind (json_get_string_value data ts n sp ''MarketCurrency'' None) (\<lambda>(sp, mc).
       if sp = 0 then Inr (0, None) else
     cbind (json_get_string_value data ts n sp ''BaseCurrency'' None) (\<lambda>(sp, bc).
       if sp = 0 then Inr (0, None) else
     cbind (json_get_double_value data ts n sp ''MinTradeSize'' dbl_0) (\<lambda>(sp, mts).
       if sp = 0 then Inr (0, None) else
     cbind (json_get_string_value data ts n sp ''MarketName'' None) (\<lambda>(sp, mn).
       if sp = 0 then Inr (0, None) else
     cbind (json_get_int_value data ts n sp ''IsActive'' 0) (\<lambda>(sp, active).
       if sp = 0 \<or> active = 0 then Inr (sp, None)
       else Inr (sp, Some (market_new\<lparr>market_currency := mc, base_currency := bc,
                      min_trade_size := mts, market_name := mn, fee := dbl_0_7\<rparr>)))))))"

lemma bittrex_market_step_pos:
  assumes "bittrex_market_step data ts n sp = Inr (sp', m)"
  shows "sp' = 0 \<or> (sp < sp' \<and> sp' \<le> int n)"
  using assms
  by (fastforce simp: bittrex_market_step_def cbind_Inr_iff split: prod.splits if_splits
      dest!: json_value_pos)

function bittrex_market_loop ::
    "string \<Rightarrow> jsmntok list \<Rightarrow> nat \<Rightarrow> int \<Rightarrow> market list \<Rightarrow> market list cres" where
  "bittrex_market_loop data ts n sp head =
     (if sp = 0 then Inr head
      else cbind (bittrex_market_step data ts n sp) (\<lambda>(sp', m).
        bittrex_market_loop data ts n sp' (head @ (case m of None \<Rightarrow> [] | Some x \<Rightarrow> [x]))))"
  by pat_completeness auto
termination
  by (relation "measure (\<lambda>(data, ts, n, sp, head). if sp = 0 then 0 else nat (int n - sp) + 1)")
    (auto dest!: bittrex_market_step_pos)

declare bittrex_market_loop.simps [simp del]

definition book_bittrex_parse_market :: "jsmntok list \<Rightarrow> string option \<Rightarrow> market list cres" where
  "book_bittrex_parse_market ts0 json =
     (case json of
        None \<Rightarrow> Inr []
      | Some data \<Rightarrow>
          (case json_parse data ts0 of
             Inl e \<Rightarrow> Inr []
           | Inr (n, ts) \<Rightarrow>
               cbind (json_get_int_value data ts n 0 ''success'' 0) (\<lambda>(sp, success).
                 if sp = 0 \<or> success = 0 then Inr []
                 else bittrex_market_loop data ts n sp [])))"

subsection \<open>Order books\<close>

text \<open>The loop for the bids: entries whose rate lies before the token \<^verbatim>\<open>sell\<close>.\<close>

function bittrex_bid_loop ::
    "string \<Rightarrow> jsmntok list \<Rightarrow> nat \<Rightarrow> int \<Rightarrow> int \<Rightarrow> book list \<Rightarrow> book list cres" where
  "bittrex_bid_loop data ts n sell_pos sp bk =
     (if sp \<noteq> 0 \<and> sp < sell_pos then
        cbind (json_get_double_value data ts n sp ''Quantity'' dbl_0) (\<lambda>(sp1, quantity).
          if sp1 = 0 then Inr bk else
        cbind (json_get_double_value data ts n sp1 ''Rate'' dbl_0) (\<lambda>(sp2, rate).
          if sp2 = 0 then Inr bk else
          bittrex_bid_loop data ts n sell_pos sp2
            (if sp2 < sell_pos then bk @ [set_bid quantity rate book_new] else bk)))
      else Inr bk)"
  by pat_completeness auto
termination
  by (relation "measure (\<lambda>(data, ts, n, sell_pos, sp, bk). nat (int n - sp))")
    (auto dest!: json_get_double_value_pos)

declare bittrex_bid_loop.simps [simp del]

text \<open>The loop for the asks: \<open>i\<close> is the index of \<^verbatim>\<open>current\<close>.\<close>

function bittrex_ask_loop ::
    "string \<Rightarrow> jsmntok list \<Rightarrow> nat \<Rightarrow> int \<Rightarrow> book list \<Rightarrow> nat \<Rightarrow> book list cres" where
  "bittrex_ask_loop data ts n sp bk i =
     (if sp \<noteq> 0 then
        cbind (json_get_double_value data ts n sp ''Quantity'' dbl_0) (\<lambda>(sp1, quantity).
          if sp1 = 0 then Inr bk else
        cbind (json_get_double_value data ts n sp1 ''Rate'' dbl_0) (\<lambda>(sp2, rate).
          if sp2 = 0 then Inr bk else
          bittrex_ask_loop data ts n sp2 (fill_at (set_ask quantity rate) bk i) (i + 1)))
      else Inr bk)"
  by pat_completeness auto
termination
  by (relation "measure (\<lambda>(data, ts, n, sp, bk, i). nat (int n - sp))")
    (auto dest!: json_get_double_value_pos)

declare bittrex_ask_loop.simps [simp del]

definition book_bittrex_parse_book :: "jsmntok list \<Rightarrow> string option \<Rightarrow> book list cres" where
  "book_bittrex_parse_book ts0 json =
     (case json of
        None \<Rightarrow> Inr []
      | Some data \<Rightarrow>
          (case json_parse data ts0 of
             Inl e \<Rightarrow> Inr []
           | Inr (n, ts) \<Rightarrow>
               cbind (json_get_int_value data ts n 0 ''success'' 0) (\<lambda>(sp, success).
                 if sp = 0 \<or> success = 0 then Inr []
                 else
                   cbind (json_find_token data ts n sp ''sell'') (\<lambda>sell_pos.
                   cbind (bittrex_bid_loop data ts n sell_pos sp []) (\<lambda>bk.
                     bittrex_ask_loop data ts n sell_pos bk 0)))))"

subsection \<open>Balances\<close>

text \<open>One member of a balance: find the tag, read the double in the token after it.\<close>

definition bittrex_balance_field ::
    "string \<Rightarrow> jsmntok list \<Rightarrow> nat \<Rightarrow> int \<Rightarrow> string \<Rightarrow> double \<Rightarrow> (int \<times> double) option cres" where
  "bittrex_balance_field data ts n token_position tag old =
     cbind (json_find_token data ts n token_position tag) (\<lambda>p.
       if p < 0 then Inr None
       else cbind (token_double data ts (p + 1) old) (\<lambda>d. Inr (Some (p + 1, d))))"

definition bittrex_parse_balance :: "jsmntok list \<Rightarrow> string \<Rightarrow> balance option cres" where
  "bittrex_parse_balance ts0 data =
     (case json_parse data ts0 of
        Inl e \<Rightarrow> Inr None
      | Inr (n, ts) \<Rightarrow>
          cbind (json_find_token data ts n 0 ''Currency'') (\<lambda>p.
            if p < 0 then Inr None else
          cbind (arr_get ts (p + 1)) (\<lambda>t.
          cbind (json_get_string data t None) (\<lambda>cur.
          cbind (bittrex_balance_field data ts n (p + 1) ''Balance'' dbl_0) (\<lambda>r.
            case r of None \<Rightarrow> Inr None | Some (p, bal) \<Rightarrow>
          cbind (bittrex_balance_field data ts n p ''Available'' dbl_0) (\<lambda>r.
            case r of None \<Rightarrow> Inr None | Some (p, avail) \<Rightarrow>
          cbind (bittrex_balance_field data ts n p ''Pending'' dbl_0) (\<lambda>r.
            case r of None \<Rightarrow> Inr None | Some (p, pend) \<Rightarrow>
              Inr (Some (balance_new\<lparr>currency := cur, total := bal, available := avail,
                                   pending := pend\<rparr>)))))))))"

subsection \<open>Requests\<close>

definition bittrex_url :: string where "bittrex_url = ''https://bittrex.com/api/v1.1/''"
definition bittrex_apikey :: string where "bittrex_apikey = ''55bbbe56a47046ac858f26110b044b6d''"
definition bittrex_apisecret :: string where "bittrex_apisecret = ''5d7773773d5c481f9ec1afa67227a7b4''"

text \<open>A null nonce is only allowed for public methods: the other format prints it.\<close>

definition bittrex_build_url :: "string \<Rightarrow> string \<Rightarrow> string option \<Rightarrow> string cres" where
  "bittrex_build_url grp method nonce =
     (let len = length bittrex_url + length grp + length method + length bittrex_apikey + 20 +
                (case nonce of None \<Rightarrow> 0 | Some s \<Rightarrow> length s)
      in if grp = ''public'' then Inr (snprintf len (bittrex_url @ grp @ ''/'' @ method))
         else case nonce of
                None \<Rightarrow> Inl BadPointer
              | Some s \<Rightarrow> Inr (snprintf len (bittrex_url @ grp @ ''/'' @ method @ ''?apikey='' @
                             bittrex_apikey @ ''&nonce='' @ s)))"

text \<open>\<^verbatim>\<open>%s\<close> of a pointer that may be null.\<close>

definition print_str :: "string option \<Rightarrow> string cres" where
  "print_str p = (case p of None \<Rightarrow> Inl BadPointer | Some s \<Rightarrow> Inr s)"

text \<open>
  The parameters of the calls: the transfer, whether \<^verbatim>\<open>curl_easy_init\<close> gives a handle, and the stale
  token array. The return code of the transfer is not looked at.
\<close>

definition bittrex_get_books ::
    "curl_perform \<Rightarrow> bool \<Rightarrow> jsmntok list \<Rightarrow> market \<Rightarrow> book list cres" where
  "bittrex_get_books perform handle ts0 m =
     cbind (print_str (base_currency m)) (\<lambda>base.
     cbind (print_str (market_currency m)) (\<lambda>mkt.
       let getorderbook = snprintf 50 (''getorderbook?market='' @ base @ ''-'' @ mkt @ ''&type='' @
             ''both'' @ ''&depth=50'') in
     cbind (bittrex_build_url ''public'' getorderbook None) (\<lambda>url.
     cbind (answer_text (snd (utils_https_get perform (utils_https_new handle) url))) (\<lambda>results.
       book_bittrex_parse_book ts0 (Some results)))))"

definition bittrex_get_markets :: "curl_perform \<Rightarrow> bool \<Rightarrow> jsmntok list \<Rightarrow> market list cres" where
  "bittrex_get_markets perform handle ts0 =
     cbind (bittrex_build_url ''public'' ''getmarkets'' None) (\<lambda>url.
     cbind (answer_text (snd (utils_https_get perform (utils_https_new handle) url))) (\<lambda>results.
       book_bittrex_parse_market ts0 (Some results)))"

definition bittrex_limit_buy :: "market \<Rightarrow> double \<Rightarrow> double \<Rightarrow> int" where
  "bittrex_limit_buy pair rate quantity = 0"

definition bittrex_limit_sell :: "market \<Rightarrow> double \<Rightarrow> double \<Rightarrow> int" where
  "bittrex_limit_sell pair rate quantity = 0"

definition bittrex_market_buy :: "market \<Rightarrow> double \<Rightarrow> int" where
  "bittrex_market_buy pair quantity = 0"

definition bittrex_market_sell :: "market \<Rightarrow> double \<Rightarrow> int" where
  "bittrex_market_sell pair quantity = 0"

definition bittrex_balance ::
    "curl_perform \<Rightarrow> bool \<Rightarrow> (string \<Rightarrow> string \<Rightarrow> 8 word list option) \<Rightarrow> nat \<times> nat \<Rightarrow> jsmntok list \<Rightarrow>
     string \<Rightarrow> balance option cres" where
  "bittrex_balance perform handle hmac tval ts0 cur =
     (let template_length = length ''%saccount/getbalance?apikey=%s&nonce=%s&currency=%s'';
          nonce = utils_https_get_nonce tval;
          url_len = length bittrex_url + template_length + length bittrex_apikey + length cur +
                    length nonce - 2;
          url = snprintf url_len (bittrex_url @ ''account/getbalance?apikey='' @ bittrex_apikey @
                  ''&nonce='' @ nonce @ ''&currency='' @ cur)
      in cbind (utils_https_sign hmac bittrex_apisecret url) (\<lambda>signature.
         cbind (answer_text (snd (utils_https_get perform
                  (utils_https_add_header (utils_https_new handle) ''apisign'' signature) url))) (\<lambda>json.
           bittrex_parse_balance ts0 json)))"

end
