(* ===== verification/Btc38.thy ===== *)
theory Btc38
  imports Bittrex
begin

section \<open>The btc38 exchange (\<^verbatim>\<open>book/btc38.c\<close>)\<close>

text \<open>
  The parsers walk over fixed positions of the token array. As in \<open>Bittrex\<close>, \<open>ts0\<close> is the stale token
  array; for balances its length depends on the text, so the stack below is a function of the index.
\<close>

definition btc38_url :: string where "btc38_url = ''http://api.btc38.com/v1/''"
definition btc38_userid :: string where "btc38_userid = ''179172''"
definition btc38_apikey :: string where "btc38_apikey = ''7133a888bd686cff84b2b6a934366d3f''"
definition btc38_apisecret :: string where
  "btc38_apisecret = ''70af5f27d79f5ab07822375ae5dbd5e1b50d651766a2d32bf109e1470bdf0e4c''"

definition btc38_build_url :: "string \<Rightarrow> string" where
  "btc38_build_url method =
     (let len = length btc38_url + length method + 20 in snprintf len (btc38_url @ method))"

definition btc38_all_upper :: "string \<Rightarrow> string" where
  "btc38_all_upper s = map to_upper s"

subsection \<open>Markets\<close>

text \<open>Both exchanges with positional answers find a market by a tag two tokens behind its name.\<close>

definition market_before ::
    "string \<Rightarrow> string \<Rightarrow> jsmntok list \<Rightarrow> nat \<Rightarrow> int \<Rightarrow> (int \<times> string) cres" where
  "market_before tag data ts tokens_length start_pos =
     cbind (json_find_token data ts tokens_length start_pos tag) (\<lambda>pos.
       if pos < 1 then Inr (0, [])
       else cbind (arr_get ts (pos - 2)) (\<lambda>curr.
              if tok_type curr \<noteq> JSMN_STRING then Inr (0, [])
              else cbind (tok_text data curr) (\<lambda>result. Inr (pos, result))))"

definition find_next_market_type ::
    "string \<Rightarrow> jsmntok list \<Rightarrow> nat \<Rightarrow> int \<Rightarrow> (int \<times> string) cres" where
  "find_next_market_type = market_before ''ticker''"

lemma market_before_pos:
  assumes "market_before tag data ts n sp = Inr (p, r)"
  shows "p = 0 \<or> (sp \<le> p \<and> 1 \<le> p \<and> p < int n)"
proof -
  from assms obtain q where "json_find_token data ts n sp tag = Inr q"
    by (auto simp: market_before_def cbind_Inr_iff)
  from json_find_token_pos [OF this] this assms show ?thesis
    by (auto simp: market_before_def cbind_Inr_iff split: if_splits)
qed

definition btc38_market :: "string \<Rightarrow> string \<Rightarrow> market" where
  "btc38_market base ticker =
     (let base_currency_length = length base + 1;
          len = base_currency_length + length ticker + 13
      in market_new\<lparr>base_currency := Some (btc38_all_upper base),
           market_name := Some (snprintf len (''?c='' @ base @ ''&mk_type='' @ ticker)),
           market_currency := Some (btc38_all_upper ticker), fee := dbl_0_7\<rparr>)"

function btc38_market_loop ::
    "string \<Rightarrow> jsmntok list \<Rightarrow> nat \<Rightarrow> string \<Rightarrow> int \<Rightarrow> market list \<Rightarrow> market list cres" where
  "btc38_market_loop data ts n base sp head =
     (if sp = 0 then Inr head
      else cbind (find_next_market_type data ts n sp) (\<lambda>(sp', ticker).
        if sp' = 0 then Inr head
        else btc38_market_loop data ts n base (sp' + 1) (head @ [btc38_market base ticker])))"
  by pat_completeness auto
termination
  by (relation "measure (\<lambda>(data, ts, n, base, sp, head). nat (int n + 1 - sp))")
    (auto simp: find_next_market_type_def dest!: market_before_pos)

declare btc38_market_loop.simps [simp del]

definition btc38_parse_market :: "jsmntok list \<Rightarrow> string \<Rightarrow> string \<Rightarrow> market list cres" where
  "btc38_parse_market ts0 data base =
     (case json_parse data ts0 of
        Inl e \<Rightarrow> Inr []
      | Inr (total_tokens, ts) \<Rightarrow> btc38_market_loop data ts total_tokens base 1 [])"

subsection \<open>Order books\<close>

text \<open>Three tokens per level: its array, its quantity and its rate. \<open>sp\<close> is at the quantity.\<close>

function btc38_bid_loop ::
    "string \<Rightarrow> jsmntok list \<Rightarrow> int \<Rightarrow> int \<Rightarrow> book list \<Rightarrow> book list cres" where
  "btc38_bid_loop data ts sell_pos sp bk =
     (if sp \<noteq> 0 \<and> sp < sell_pos then
        cbind (token_double data ts sp dbl_0) (\<lambda>quantity.
        cbind (token_double data ts (sp + 1) dbl_0) (\<lambda>rate.
          if sp + 3 < sell_pos
          then btc38_bid_loop data ts sell_pos (sp + 3) (bk @ [set_bid quantity rate book_new])
          else Inr bk))
      else Inr bk)"
  by pat_completeness auto
termination
  by (relation "measure (\<lambda>(data, ts, sell_pos, sp, bk). nat (sell_pos - sp))") auto

declare btc38_bid_loop.simps [simp del]

function btc38_ask_loop ::
    "string \<Rightarrow> jsmntok list \<Rightarrow> nat \<Rightarrow> int \<Rightarrow> book list \<Rightarrow> nat \<Rightarrow> book list cres" where
  "btc38_ask_loop data ts tok_no sp bk i =
     (if sp \<noteq> 0 then
        cbind (token_double data ts sp dbl_0) (\<lambda>quantity.
        cbind (token_double data ts (sp + 1) dbl_0) (\<lambda>rate.
          if sp + 3 > int tok_no then Inr bk
          else btc38_ask_loop data ts tok_no (sp + 3) (fill_at (set_ask quantity rate) bk i) (i + 1)))
      else Inr bk)"
  by pat_completeness auto
termination
  by (relation "measure (\<lambda>(data, ts, tok_no, sp, bk, i). nat (int tok_no - sp))") auto

declare btc38_ask_loop.simps [simp del]

definition btc38_parse_book :: "jsmntok list \<Rightarrow> string \<Rightarrow> book list cres" where
  "btc38_parse_book ts0 data =
     (case json_parse data ts0 of
        Inl e \<Rightarrow> Inr []
      | Inr (tok_no, ts) \<Rightarrow>
          cbind (json_find_token data ts tok_no 0 ''asks'') (\<lambda>p.
            let sell_pos = (if p = 0 then int tok_no else p) in
          cbind (json_find_token data ts tok_no 0 ''bids'') (\<lambda>b.
          cbind (btc38_bid_loop data ts sell_pos (b + 3) []) (\<lambda>bk.
            btc38_ask_loop data ts tok_no (sell_pos + 3) bk 0))))"

subsection \<open>Requests\<close>

definition btc38_get_books :: "curl_perform \<Rightarrow> bool \<Rightarrow> jsmntok list \<Rightarrow> market \<Rightarrow> book list cres" where
  "btc38_get_books perform handle ts0 m =
     cbind (print_str (market_name m)) (\<lambda>name.
       let getorderbook = snprintf (length name + 10) (''depth.php'' @ name);
           url = btc38_build_url getorderbook
       in cbind (answer_text (snd (utils_https_get perform (utils_https_new handle) url))) (\<lambda>results.
            btc38_parse_book ts0 results))"

definition btc38_get_markets :: "curl_perform \<Rightarrow> bool \<Rightarrow> jsmntok list \<Rightarrow> market list cres" where
  "btc38_get_markets perform handle ts0 =
     (let get = (\<lambda>method. utils_https_get perform (utils_https_new handle) (btc38_build_url method));
          btc = get ''ticker.php?c=all&mk_type=btc''
      in if fst btc \<noteq> 0 then Inr []
         else cbind (answer_text (snd btc)) (\<lambda>json.
              cbind (btc38_parse_market ts0 json ''btc'') (\<lambda>btc_market.
                let cny = get ''ticker.php?c=all&mk_type=cny'' in
                if fst cny \<noteq> 0 then Inr btc_market
                else cbind (answer_text (snd cny)) (\<lambda>json.
                     cbind (btc38_parse_market ts0 json ''cny'') (\<lambda>cny_market.
                       if btc_market = [] then Inl BadPointer
                       else Inr (btc_market @ cny_market))))))"

definition btc38_limit_buy :: "market \<Rightarrow> double \<Rightarrow> double \<Rightarrow> int" where
  "btc38_limit_buy pair rate quantity = 0"

definition btc38_limit_sell :: "market \<Rightarrow> double \<Rightarrow> double \<Rightarrow> int" where
  "btc38_limit_sell pair rate quantity = 0"

definition btc38_market_buy :: "market \<Rightarrow> double \<Rightarrow> int" where
  "btc38_market_buy pair quantity = 0"

definition btc38_market_sell :: "market \<Rightarrow> double \<Rightarrow> int" where
  "btc38_market_sell pair quantity = 0"

subsection \<open>Balances\<close>

text \<open>The array of \<^verbatim>\<open>strlen(json) / 4\<close> tokens; an array of no elements is undefined behaviour.\<close>

definition quarter_array :: "(nat \<Rightarrow> jsmntok) \<Rightarrow> string \<Rightarrow> jsmntok list cres" where
  "quarter_array stack data =
     (let max_tokens = length data div 4 in
      if max_tokens = 0 then Inl OutOfBounds else Inr (map stack [0..<max_tokens]))"

text \<open>The characters of the currency up to its terminator; reading on is a fault.\<close>

definition str_read :: "string \<Rightarrow> nat \<Rightarrow> char cres" where
  "str_read s i = (if i \<le> length s then Inr (js_at s i) else Inl OutOfBounds)"

definition currency_tag :: "string \<Rightarrow> string \<Rightarrow> string cres" where
  "currency_tag cur suffix =
     cbind (str_read cur 0) (\<lambda>a.
     cbind (str_read cur 1) (\<lambda>b.
     cbind (str_read cur 2) (\<lambda>c.
       Inr (takeWhile (\<lambda>x. x \<noteq> NUL) ([to_lower a, to_lower b, to_lower c] @ suffix)))))"

definition btc38_parse_balance ::
    "(nat \<Rightarrow> jsmntok) \<Rightarrow> string \<Rightarrow> string \<Rightarrow> balance option cres" where
  "btc38_parse_balance stack cur data =
     cbind (quarter_array stack data) (\<lambda>ts0.
       case json_parse data ts0 of
         Inl e \<Rightarrow> Inr None
       | Inr (n, ts) \<Rightarrow>
           cbind (currency_tag cur ''_balance'') (\<lambda>tag.
           cbind (json_find_token data ts n 0 tag) (\<lambda>p.
             if p < 0 then Inr None else
           cbind (token_double data ts (p + 1) dbl_0) (\<lambda>bal.
           cbind (currency_tag cur ''_balance_lock'') (\<lambda>tag.
           cbind (json_find_token data ts n (p + 1) tag) (\<lambda>p.
             if p < 0 then Inr None else
           cbind (token_double data ts (p + 1) dbl_0) (\<lambda>pend.
             Inr (Some (balance_new\<lparr>currency := Some cur, total := bal, pending := pend,
                          available := dbl_sub bal pend\<rparr>)))))))))"

definition btc38_balance ::
    "curl_perform \<Rightarrow> bool \<Rightarrow> (string \<Rightarrow> 8 word list) \<Rightarrow> nat \<times> nat \<Rightarrow> (nat \<Rightarrow> jsmntok) \<Rightarrow>
     string \<Rightarrow> balance option cres" where
  "btc38_balance perform handle md5 tval stack cur =
     (let template_length = length ''%sgetMyBalance.php'';
          url = snprintf (length btc38_url + template_length) (btc38_url @ ''getMyBalance.php'');
          nonce = utils_https_get_nonce tval;
          c = utils_https_add_post_parameter (utils_https_new handle) ''key'' btc38_apikey;
          c = utils_https_add_post_parameter c ''time'' nonce;
          md5_input = snprintf
            (length btc38_apikey + length btc38_userid + length btc38_apisecret + length nonce + 4)
            (btc38_apikey @ ''_'' @ btc38_userid @ ''_'' @ btc38_apisecret @ ''_'' @ nonce)
      in cbind (utils_https_bytes_to_hex_string (md5 md5_input) 16) (\<lambda>(n, hex).
           let c = utils_https_add_post_parameter c ''md5'' (take n hex) in
         cbind (answer_text (snd (utils_https_post perform c url))) (\<lambda>json.
           btc38_parse_balance stack cur json)))"

end
