(* ===== verification/Poloniex.thy ===== *)
theory Poloniex
  imports Btc38
begin

section \<open>The poloniex exchange (\<^verbatim>\<open>book/poloniex.c\<close>)\<close>

text \<open>
  As \<open>Btc38\<close>: positional parsers over the token array. The market loop of the code does not advance
  when a ticker has no underscore, so its model carries fuel: \<open>Diverges\<close> when the fuel runs out.
\<close>

definition poloniex_url :: string where "poloniex_url = ''https://poloniex.com/''"
definition poloniex_apikey :: string where "poloniex_apikey = ''TFNUBJYV-84RXQBXI-3PONC8MW-3ATNRJ9B''"
definition poloniex_apisecret :: string where
  "poloniex_apisecret = ''0ce4c944bce4afa24b9e68166699002b9f780ec4b0b23a6b30b5dc273dd28817'' @
     ''bf31c15b4880c89d2de0669f0c7224925fc61ae5e98e59e23fd3e21751c5bf27''"

definition poloniex_build_url :: "string \<Rightarrow> string" where
  "poloniex_build_url method =
     (let len = length poloniex_url + length method + 1 in snprintf len (poloniex_url @ method))"

subsection \<open>Markets\<close>

definition poloniex_find_next_market_type ::
    "string \<Rightarrow> jsmntok list \<Rightarrow> nat \<Rightarrow> int \<Rightarrow> (int \<times> string) cres" where
  "poloniex_find_next_market_type = market_before ''id''"

text \<open>\<^verbatim>\<open>strchr(full_ticker, '_')\<close> splits the ticker; \<open>None\<close> when there is no underscore.\<close>

definition poloniex_market :: "string \<Rightarrow> market option" where
  "poloniex_market full_ticker =
     (case dropWhile (\<lambda>c. c \<noteq> CHR ''_'') full_ticker of
        [] \<Rightarrow> None
      | _ # rest \<Rightarrow>
          Some (market_new\<lparr>base_currency := Some (takeWhile (\<lambda>c. c \<noteq> CHR ''_'') full_ticker),
            market_currency := Some rest, market_name := Some full_ticker, fee := dbl_0_7\<rparr>))"

fun poloniex_market_loop ::
    "nat \<Rightarrow> string \<Rightarrow> jsmntok list \<Rightarrow> nat \<Rightarrow> int \<Rightarrow> market list \<Rightarrow> market list cres" where
  "poloniex_market_loop 0 data ts n sp head = Inl Diverges"
| "poloniex_market_loop (Suc fuel) data ts n sp head =
     (if sp = 0 then Inr head
      else cbind (poloniex_find_next_market_type data ts n sp) (\<lambda>(sp', full_ticker).
        if sp' = 0 then poloniex_market_loop fuel data ts n 0 head
        else case poloniex_market full_ticker of
               None \<Rightarrow> poloniex_market_loop fuel data ts n sp' head
             | Some m \<Rightarrow> poloniex_market_loop fuel data ts n (sp' + 1) (head @ [m])))"

text \<open>A pass that goes on passes a token, and one more pass ends the loop.\<close>

definition poloniex_parse_market :: "jsmntok list \<Rightarrow> string \<Rightarrow> market list cres" where
  "poloniex_parse_market ts0 data =
     (case json_parse data ts0 of
        Inl e \<Rightarrow> Inr []
      | Inr (total_tokens, ts) \<Rightarrow>
          poloniex_market_loop (total_tokens + 3) data ts total_tokens 1 [])"

definition poloniex_get_markets :: "curl_perform \<Rightarrow> bool \<Rightarrow> jsmntok list \<Rightarrow> market list cres" where
  "poloniex_get_markets perform handle ts0 =
     (let url = poloniex_build_url ''public?command=returnTicker'';
          r = utils_https_get perform (utils_https_new handle) url
      in if fst r \<noteq> 0 then Inr []
         else cbind (answer_text (snd r)) (\<lambda>json. poloniex_parse_market ts0 json))"

subsection \<open>Order books\<close>

function poloniex_ask_loop ::
    "string \<Rightarrow> jsmntok list \<Rightarrow> int \<Rightarrow> int \<Rightarrow> book list \<Rightarrow> book list cres" where
  "poloniex_ask_loop data ts bid_pos sp bk =
     (if sp \<noteq> 0 \<and> sp < bid_pos then
        cbind (token_double data ts sp dbl_0) (\<lambda>quantity.
        cbind (token_double data ts (sp + 1) dbl_0) (\<lambda>rate.
          if sp + 3 < bid_pos
          then poloniex_ask_loop data ts bid_pos (sp + 3) (bk @ [set_ask quantity rate book_new])
          else Inr bk))
      else Inr bk)"
  by pat_completeness auto
termination
  by (relation "measure (\<lambda>(data, ts, bid_pos, sp, bk). nat (bid_pos - sp))") auto

declare poloniex_ask_loop.simps [simp del]

function poloniex_bid_loop ::
    "string \<Rightarrow> jsmntok list \<Rightarrow> nat \<Rightarrow> int \<Rightarrow> book list \<Rightarrow> nat \<Rightarrow> book list cres" where
  "poloniex_bid_loop data ts tok_no sp bk i =
     (if sp \<noteq> 0 \<and> sp < int tok_no then
        cbind (token_double data ts sp dbl_0) (\<lambda>quantity.
          if sp + 1 \<ge> int tok_no then Inr bk else
        cbind (token_double data ts (sp + 1) dbl_0) (\<lambda>rate.
          if sp + 3 \<ge> int tok_no then Inr bk
          else poloniex_bid_loop data ts tok_no (sp + 3) (fill_at (set_bid quantity rate) bk i) (i + 1)))
      else Inr bk)"
  by pat_completeness auto
termination
  by (relation "measure (\<lambda>(data, ts, tok_no, sp, bk, i). nat (int tok_no - sp))") auto

declare poloniex_bid_loop.simps [simp del]

definition poloniex_parse_book :: "jsmntok list \<Rightarrow> string \<Rightarrow> book list cres" where
  "poloniex_parse_book ts0 data =
     (case json_parse data ts0 of
        Inl e \<Rightarrow> Inr []
      | Inr (tok_no, ts) \<Rightarrow>
          cbind (json_find_token data ts tok_no 0 ''asks'') (\<lambda>p.
            let sell_pos = (if p = 0 then int tok_no else p) in
          cbind (json_find_token data ts tok_no 0 ''bids'') (\<lambda>bid_pos.
            if bid_pos = 0 then Inr [] else
          cbind (poloniex_ask_loop data ts bid_pos (sell_pos + 3) []) (\<lambda>bk.
            poloniex_bid_loop data ts tok_no (bid_pos + 3) bk 0))))"

definition poloniex_get_books :: "curl_perform \<Rightarrow> bool \<Rightarrow> jsmntok list \<Rightarrow> market \<Rightarrow> book list cres" where
  "poloniex_get_books perform handle ts0 m =
     cbind (print_str (market_name m)) (\<lambda>name.
       let getorderbook = snprintf (length name + 60)
             (''public?command=returnOrderBook&currencyPair='' @ name @ ''&depth=10'');
           url = poloniex_build_url getorderbook
       in cbind (answer_text (snd (utils_https_get perform (utils_https_new handle) url))) (\<lambda>results.
            poloniex_parse_book ts0 results))"

subsection \<open>Balances and orders\<close>

text \<open>One member of the balance: find the tag, read the double in the token after it.\<close>

definition poloniex_balance_field ::
    "string \<Rightarrow> jsmntok list \<Rightarrow> nat \<Rightarrow> int \<Rightarrow> string \<Rightarrow> (int \<times> double) option cres" where
  "poloniex_balance_field data ts n token_position tag =
     cbind (json_find_token data ts n token_position tag) (\<lambda>p.
       if p < 0 then Inr None
       else cbind (token_double data ts (p + 1) dbl_0) (\<lambda>d. Inr (Some (p + 1, d))))"

definition poloniex_parse_balance ::
    "(nat \<Rightarrow> jsmntok) \<Rightarrow> string \<Rightarrow> string \<Rightarrow> balance option cres" where
  "poloniex_parse_balance stack data cur =
     cbind (quarter_array stack data) (\<lambda>ts0.
       case json_parse data ts0 of
         Inl e \<Rightarrow> Inr None
       | Inr (n, ts) \<Rightarrow>
           cbind (json_find_token data ts n 0 cur) (\<lambda>p.
             if p < 0 then Inr None else
           cbind (poloniex_balance_field data ts n p ''available'') (\<lambda>r.
             case r of None \<Rightarrow> Inr None | Some (p, avail) \<Rightarrow>
           cbind (poloniex_balance_field data ts n p ''onOrders'') (\<lambda>r.
             case r of None \<Rightarrow> Inr None | Some (p, pend) \<Rightarrow>
           cbind (poloniex_balance_field data ts n p ''btcValue'') (\<lambda>r.
             case r of None \<Rightarrow> Inr None | Some (p, bal) \<Rightarrow>
               Inr (Some (balance_new\<lparr>currency := Some cur, available := avail, pending := pend,
                            total := bal\<rparr>)))))))"

definition poloniex_limit_buy :: "market \<Rightarrow> double \<Rightarrow> double \<Rightarrow> int" where
  "poloniex_limit_buy pair rate quantity = 0"

definition poloniex_limit_sell :: "market \<Rightarrow> double \<Rightarrow> double \<Rightarrow> int" where
  "poloniex_limit_sell pair rate quantity = 0"

definition poloniex_market_buy :: "market \<Rightarrow> double \<Rightarrow> int" where
  "poloniex_market_buy pair quantity = 0"

definition poloniex_market_sell :: "market \<Rightarrow> double \<Rightarrow> int" where
  "poloniex_market_sell pair quantity = 0"

definition poloniex_balance ::
    "curl_perform \<Rightarrow> bool \<Rightarrow> (string \<Rightarrow> string \<Rightarrow> 8 word list option) \<Rightarrow> nat \<times> nat \<Rightarrow> (nat \<Rightarrow> jsmntok) \<Rightarrow>
     string \<Rightarrow> balance option cres" where
  "poloniex_balance perform handle hmac tval stack cur =
     (let url = snprintf (length poloniex_url + length ''tradingApi'' + 1) (poloniex_url @ ''tradingApi'');
          c = utils_https_add_post_parameter (utils_https_new handle) ''command'' ''returnCompleteBalances'';
          c = utils_https_add_post_parameter c ''nonce'' (utils_https_get_nonce tval);
          c = utils_https_add_header c ''Key'' (Some poloniex_apikey)
      in cbind (print_str (post_parameters c)) (\<lambda>message.
         cbind (utils_https_sign hmac poloniex_apisecret message) (\<lambda>signed_params.
           let c = utils_https_add_header c ''Sign'' signed_params in
         cbind (answer_text (snd (utils_https_post perform c url))) (\<lambda>json.
           poloniex_parse_balance stack json cur))))"

end
