(* ===== verification/Robust.thy ===== *)
theory Robust
  imports JsmnSafe LevelView Poloniex
begin

section \<open>The parsers of the exchanges on arbitrary answers\<close>

text \<open>
  The functional theorems of the exchanges are about answers of the documented form. Here the text is
  arbitrary: what \<open>JsmnSafe\<close> shows of the tokens of any accepted text is carried through the accessors
  of \<^verbatim>\<open>utils/json.c\<close> and the market parsers, so that the only way left to a fault is named.
\<close>

subsection \<open>Tokens that a successful parse delivered\<close>

text \<open>
  The invariant the accessors need: the first \<open>n\<close> entries of the array are closed tokens of the text. The
  second lemma is the one the accessors use.
\<close>

definition tokens_of :: "string \<Rightarrow> nat \<Rightarrow> jsmntok list \<Rightarrow> bool" where
  "tokens_of data n ts \<longleftrightarrow> wf_tokens data (length data) n ts"

lemma tokens_of_parse:
  assumes "json_parse data ts0 = Inr (n, ts)"
  shows "tokens_of data n ts \<and> length ts = length ts0"
proof -
  from assms obtain tks where
    "jsmn_parse jsmn_init data (length data) (Some ts0) = Inr (n, tks)"
    "ts = (case tks of None \<Rightarrow> [] | Some ts' \<Rightarrow> ts')"
    by (auto simp: json_parse_def split: sum.splits prod.splits)
  with parse_tokens_wf [of data "length data" ts0 n tks] show ?thesis
    by (auto simp: tokens_of_def)
qed

lemma tokens_of_get:
  assumes "tokens_of data n ts" "0 \<le> i" "i < int n"
  shows "arr_get ts i = Inr (ts ! nat i)"
    "tok_text data (ts ! nat i) =
       Inr (substr data (nat (tok_start (ts ! nat i))) (nat (tok_end (ts ! nat i))))"
proof -
  have wf: "n \<le> length ts" "wf_token data (length data) (ts ! nat i)"
    using assms by (auto simp: tokens_of_def wf_tokens_def)
  then show "arr_get ts i = Inr (ts ! nat i)"
    using assms by simp
  show "tok_text data (ts ! nat i) =
      Inr (substr data (nat (tok_start (ts ! nat i))) (nat (tok_end (ts ! nat i))))"
    using wf(2) by (auto simp: wf_token_def tok_shape_def tok_text_def split: jsmntype.splits)
qed

text \<open>The token at a position is the string \<open>tag\<close>.\<close>

definition tag_at :: "string \<Rightarrow> jsmntok list \<Rightarrow> int \<Rightarrow> string \<Rightarrow> bool" where
  "tag_at data ts i tag \<longleftrightarrow> tok_type (ts ! nat i) = JSMN_STRING \<and>
     substr data (nat (tok_start (ts ! nat i))) (nat (tok_end (ts ! nat i))) = tag"

text \<open>The search never faults, and finds the first string token with that text.\<close>

definition first_tag :: "string \<Rightarrow> nat \<Rightarrow> jsmntok list \<Rightarrow> int \<Rightarrow> string \<Rightarrow> int \<Rightarrow> bool" where
  "first_tag data n ts i tag p \<longleftrightarrow>
     (if p = -1 then \<forall>j. i \<le> j \<and> j < int n \<longrightarrow> \<not> tag_at data ts j tag
      else i \<le> p \<and> p < int n \<and> tag_at data ts p tag \<and>
        (\<forall>j. i \<le> j \<and> j < p \<longrightarrow> \<not> tag_at data ts j tag))"

lemma first_tag_next:
  assumes "\<not> tag_at data ts i tag" "first_tag data n ts (i + 1) tag p"
  shows "first_tag data n ts i tag p"
proof -
  have "j = i \<or> i + 1 \<le> j" if "i \<le> j" for j
    using that by linarith
  with assms show ?thesis
    by (auto simp: first_tag_def split: if_splits)
qed

lemma json_find_token_first:
  assumes "tokens_of data n ts" "0 \<le> i"
  shows "\<exists>p. json_find_token data ts n i tag = Inr p \<and> first_tag data n ts i tag p"
  using assms
proof (induction data ts n i tag rule: json_find_token.induct)
  case (1 data ts n i tag)
  note unfold = json_find_token.simps [of data ts n i tag]
  show ?case
  proof (cases "i < int n")
    case True
    note tok = tokens_of_get [OF "1.prems" True]
    show ?thesis
    proof (cases "tag_at data ts i tag")
      case hit: True
      then have "json_find_token data ts n i tag = Inr i"
        using True by (auto simp: unfold tok tag_at_def)
      then show ?thesis
        using True hit "1.prems"(2) by (auto simp: first_tag_def)
    next
      case miss: False
      have step: "json_find_token data ts n i tag = json_find_token data ts n (i + 1) tag"
        using True miss by (auto simp: unfold tok tag_at_def)
      have "\<exists>p. json_find_token data ts n (i + 1) tag = Inr p \<and> first_tag data n ts (i + 1) tag p"
      proof (cases "tok_type (ts ! nat i) = JSMN_STRING")
        case str: True
        then have "substr data (nat (tok_start (ts ! nat i))) (nat (tok_end (ts ! nat i))) \<noteq> tag"
          using miss by (auto simp: tag_at_def)
        then show ?thesis
          using "1.IH"(1) [OF True tok(1) str tok(2)] "1.prems" by simp
      next
        case False
        then show ?thesis
          using "1.IH"(2) [OF True tok(1)] "1.prems" by simp
      qed
      then show ?thesis
        unfolding step using first_tag_next [OF miss] by blast
    qed
  next
    case False
    then show ?thesis
      by (auto simp: unfold first_tag_def)
  qed
qed

subsection \<open>The accessors\<close>

text \<open>
  The accessors read the token behind the tag without looking at the number of tokens, so a tag that is
  the last token makes them read what the array held before. This is the only way they leave the tokens.
\<close>

definition tag_last :: "string \<Rightarrow> nat \<Rightarrow> jsmntok list \<Rightarrow> string \<Rightarrow> bool" where
  "tag_last data n ts tag \<longleftrightarrow> 0 < n \<and> tag_at data ts (int n - 1) tag"

definition harmless :: "'a cres \<Rightarrow> bool" where
  "harmless r \<longleftrightarrow> r \<in> range Inr \<or> r = Inl BadConversion"

lemma harmless_Inr [simp, intro]: "harmless (Inr x)"
  by (simp add: harmless_def)

lemma harmless_Inl [simp]: "harmless (Inl e) \<longleftrightarrow> e = BadConversion"
  by (auto simp: harmless_def)

lemma harmless_cbind: "harmless m \<Longrightarrow> (\<And>x. m = Inr x \<Longrightarrow> harmless (f x)) \<Longrightarrow> harmless (cbind m f)"
  by (cases m) auto

lemma harmless_atoi: "harmless (atoi s)"
  by (simp add: atoi_def Let_def split: prod.split)

text \<open>What a search delivers when the tag is not the last token: the value token is one of the tokens.\<close>

lemma json_find_value:
  assumes "tokens_of data n ts" "0 \<le> i" "\<not> tag_last data n ts tag"
  obtains "json_find_token data ts n i tag = Inr (-1)"
  | p where "json_find_token data ts n i tag = Inr p" "i \<le> p" "p + 1 < int n"
proof -
  obtain p where p: "json_find_token data ts n i tag = Inr p" "first_tag data n ts i tag p"
    using json_find_token_first [OF assms(1,2)] by blast
  show thesis
  proof (cases "p = -1")
    case True
    with p show thesis by (auto intro: that(1))
  next
    case False
    then have "i \<le> p" "p < int n" "p \<noteq> int n - 1"
      using p(2) assms(2,3) by (auto simp: first_tag_def tag_last_def)
    with p show thesis by (auto intro: that(2))
  qed
qed

text \<open>An accessor or a step that is harmless and reports no negative position.\<close>

definition safe_at :: "(int \<times> 'a) cres \<Rightarrow> bool" where
  "safe_at r \<longleftrightarrow> harmless r \<and> (\<forall>p v. r = Inr (p, v) \<longrightarrow> 0 \<le> p)"

lemma safe_at_Inr [simp]: "safe_at (Inr (p, v)) \<longleftrightarrow> 0 \<le> p"
  by (simp add: safe_at_def)

lemma safe_at_cbind:
  assumes "safe_at m" "\<And>p v. 0 \<le> p \<Longrightarrow> safe_at (f (p, v))"
  shows "safe_at (cbind m f)"
proof (cases m)
  case (Inr x)
  then obtain p v where m: "m = Inr (p, v)"
    by (cases x) auto
  with assms(1) have "0 \<le> p" by simp
  from assms(2) [OF this] show ?thesis by (simp add: m)
qed (use assms(1) in \<open>simp add: safe_at_def\<close>)

lemma json_value_harmless:
  assumes "tokens_of data n ts" "0 \<le> i" "\<not> tag_last data n ts tag"
  shows "harmless (json_get_string_value data ts n i tag s) \<and>
    harmless (json_get_double_value data ts n i tag d) \<and> harmless (json_get_int_value data ts n i tag z)"
proof (rule json_find_value [OF assms])
  assume "json_find_token data ts n i tag = Inr (-1)"
  then show ?thesis
    by (simp add: json_get_string_value_def json_get_double_value_def json_get_int_value_def)
next
  fix p assume p: "json_find_token data ts n i tag = Inr p" "i \<le> p" "p + 1 < int n"
  then show ?thesis
    using assms(2) tokens_of_get [OF assms(1), of "p + 1"]
    by (auto simp: json_get_string_value_def json_get_double_value_def json_get_int_value_def
        Let_def json_int_of_def intro!: harmless_cbind harmless_atoi)
qed

lemma json_value_safe:
  assumes "tokens_of data n ts" "0 \<le> i" "\<not> tag_last data n ts tag"
  shows "safe_at (json_get_string_value data ts n i tag s)"
    and "safe_at (json_get_double_value data ts n i tag d)"
    and "safe_at (json_get_int_value data ts n i tag z)"
  using json_value_harmless [OF assms, of s d z] assms(2)
  by (auto simp: safe_at_def dest!: json_value_pos)

subsection \<open>Bittrex markets\<close>

definition bittrex_market_tags :: "string list" where
  "bittrex_market_tags =
     [''success'', ''MarketCurrency'', ''BaseCurrency'', ''MinTradeSize'', ''MarketName'', ''IsActive'']"

text \<open>The tokens of the text end in one of the tags the parser looks for.\<close>

definition ends_in_tag :: "jsmntok list \<Rightarrow> string list \<Rightarrow> string \<Rightarrow> bool" where
  "ends_in_tag ts0 tags data =
     (case json_parse data ts0 of
        Inl e \<Rightarrow> False
      | Inr (n, ts) \<Rightarrow> list_ex (tag_last data n ts) tags)"

lemma bittrex_market_step_safe:
  assumes "tokens_of data n ts" "0 \<le> sp" "\<not> list_ex (tag_last data n ts) bittrex_market_tags"
  shows "safe_at (bittrex_market_step data ts n sp)"
  using assms(2,3) unfolding bittrex_market_step_def bittrex_market_tags_def
  by (auto intro!: safe_at_cbind json_value_safe [OF assms(1)])

lemma bittrex_market_loop_safe:
  assumes "tokens_of data n ts" "0 \<le> sp" "\<not> list_ex (tag_last data n ts) bittrex_market_tags"
  shows "harmless (bittrex_market_loop data ts n sp head)"
  using assms
proof (induction data ts n sp head rule: bittrex_market_loop.induct)
  case (1 data ts n sp head)
  have "safe_at (bittrex_market_step data ts n sp)"
    by (rule bittrex_market_step_safe [OF "1.prems"])
  then show ?case
    unfolding bittrex_market_loop.simps [of data ts n sp head]
    using "1.IH" "1.prems"(1,3) by (auto simp: safe_at_def intro!: harmless_cbind)
qed

text \<open>
  C11. On any text whatever, with any stale contents of the token array, the market parser of bittrex
  reads nothing outside its arrays, follows no bad pointer and stops: if the last token of the text is
  not itself one of the tags the parser looks for, the only fault left is the conversion of a number
  that does not fit an \<^verbatim>\<open>int\<close>.
\<close>

theorem bittrex_markets_safe:
  assumes "\<not> ends_in_tag ts0 bittrex_market_tags data"
  shows "(\<exists>ms. book_bittrex_parse_market ts0 (Some data) = Inr ms) \<or>
    book_bittrex_parse_market ts0 (Some data) = Inl BadConversion"
proof (cases "json_parse data ts0")
  case (Inl e)
  then show ?thesis
    by (simp add: book_bittrex_parse_market_def)
next
  case (Inr r)
  then obtain n ts where r: "json_parse data ts0 = Inr (n, ts)"
    by (cases r) auto
  have tags: "\<not> list_ex (tag_last data n ts) bittrex_market_tags"
    using assms r by (simp add: ends_in_tag_def)
  note tok = tokens_of_parse [OF r, THEN conjunct1]
  have "safe_at (json_get_int_value data ts n 0 ''success'' 0)"
    using tags by (auto simp: bittrex_market_tags_def intro!: json_value_safe [OF tok])
  then have "harmless (book_bittrex_parse_market ts0 (Some data))"
    using r by (auto simp: book_bittrex_parse_market_def safe_at_def
        intro!: harmless_cbind bittrex_market_loop_safe [OF tok _ tags])
  then show ?thesis
    by (auto simp: harmless_def)
qed

theorem bittrex_markets_safe_witness:
  "(\<exists>ms. book_bittrex_parse_market (replicate 6 stale) (Some ''[\"IsActive\",\"success\",9]'') = Inr ms) \<or>
    book_bittrex_parse_market (replicate 6 stale) (Some ''[\"IsActive\",\"success\",9]'') = Inl BadConversion"
proof -
  have "\<not> ends_in_tag (replicate 6 stale) bittrex_market_tags ''[\"IsActive\",\"success\",9]''"
    by code_simp
  then show ?thesis
    by (rule bittrex_markets_safe)
qed

subsection \<open>Markets of the exchanges with positional answers\<close>

text \<open>
  The name of a market is read two tokens before the tag. From the second token on that token exists;
  from the first one it does not when the tag is that token itself.
\<close>

lemma market_before_safe:
  assumes "tokens_of data n ts" "0 < sp" "\<not> (sp = 1 \<and> 1 < n \<and> tag_at data ts 1 tag)"
  shows "\<exists>p r. market_before tag data ts n sp = Inr (p, r) \<and> (p = 0 \<or> sp \<le> p \<and> 1 < p \<and> p < int n)"
proof -
  obtain p where p: "json_find_token data ts n sp tag = Inr p" "first_tag data n ts sp tag p"
    using json_find_token_first [OF assms(1)] assms(2) by (meson less_imp_le)
  show ?thesis
  proof (cases "p < 1")
    case True
    with p show ?thesis by (simp add: market_before_def)
  next
    case False
    then have "sp \<le> p" "p < int n" "tag_at data ts p tag"
      using p(2) by (auto simp: first_tag_def split: if_splits)
    moreover from this False assms(2,3) have "1 < p"
      by (cases "p = 1") auto
    ultimately show ?thesis
      using p(1) tokens_of_get [OF assms(1), of "p - 2"]
      by (auto simp: market_before_def)
  qed
qed

lemma market_before_first:
  assumes "tokens_of data n ts" "1 < n" "tag_at data ts 1 tag"
  shows "market_before tag data ts n 1 = Inl OutOfBounds"
proof -
  obtain p where p: "json_find_token data ts n 1 tag = Inr p" "first_tag data n ts 1 tag p"
    using json_find_token_first [OF assms(1), of 1] by auto
  then have "p = 1"
    using assms(2,3) by (fastforce simp: first_tag_def split: if_splits)
  with p(1) show ?thesis
    by (simp add: market_before_def)
qed

lemma btc38_market_loop_safe:
  assumes "tokens_of data n ts" "0 < sp" "\<not> (sp = 1 \<and> 1 < n \<and> tag_at data ts 1 ''ticker'')"
  shows "\<exists>ms. btc38_market_loop data ts n base sp head = Inr ms"
  using assms
proof (induction data ts n base sp head rule: btc38_market_loop.induct)
  case (1 data ts n base sp head)
  obtain p r where pr: "find_next_market_type data ts n sp = Inr (p, r)"
      "p = 0 \<or> sp \<le> p \<and> 1 < p \<and> p < int n"
    using market_before_safe [OF "1.prems"] by (auto simp: find_next_market_type_def)
  then show ?case
    unfolding btc38_market_loop.simps [of data ts n base sp head]
    using "1.IH" [OF _ pr(1)] "1.prems"(1,2) by auto
qed

text \<open>
  C14. On any text that tokenizes, with any stale contents of the token array, the market parser of btc38
  returns a list of markets, except when the second token is the string \<^verbatim>\<open>ticker\<close> (as it is in the
  answer for a single market): then, and only then, it reads the token before the first.
\<close>

theorem btc38_markets_fault:
  assumes "json_parse data ts0 = Inr (n, ts)"
  shows "if 1 < n \<and> tag_at data ts 1 ''ticker''
    then btc38_parse_market ts0 data base = Inl OutOfBounds
    else \<exists>ms. btc38_parse_market ts0 data base = Inr ms"
proof -
  note tok = tokens_of_parse [OF assms, THEN conjunct1]
  show ?thesis
    using assms btc38_market_loop_safe [OF tok, of 1 base "[]"] market_before_first [OF tok, of "''ticker''"]
    by (auto simp: btc38_parse_market_def btc38_market_loop.simps [of data ts n base 1]
        find_next_market_type_def)
qed

theorem btc38_markets_fault_witness:
  "btc38_parse_market (replicate 6 stale) ''{\"ticker\":1}'' ''btc'' = Inl OutOfBounds \<and>
   (\<exists>ms. btc38_parse_market (replicate 6 stale) ''{}'' ''btc'' = Inr ms)"
proof -
  let ?t = "\<lambda>ty a b z. \<lparr>tok_type = ty, tok_start = a, tok_end = b, tok_size = z\<rparr>"
  let ?a = "[?t JSMN_OBJECT 0 12 1, ?t JSMN_STRING 2 8 1, ?t JSMN_PRIMITIVE 10 11 0, stale, stale, stale]"
  have "json_parse ''{\"ticker\":1}'' (replicate 6 stale) = Inr (3, ?a)" "tag_at ''{\"ticker\":1}'' ?a 1 ''ticker''"
    by code_simp+
  then have a: "btc38_parse_market (replicate 6 stale) ''{\"ticker\":1}'' ''btc'' = Inl OutOfBounds"
    using btc38_markets_fault [of "''{\"ticker\":1}''" "replicate 6 stale" 3 ?a "''btc''"] by simp
  have "json_parse ''{}'' (replicate 6 stale) = Inr (1, ?t JSMN_OBJECT 0 2 0 # replicate 5 stale)"
    by code_simp
  then show ?thesis
    using a btc38_markets_fault [of "''{}''" "replicate 6 stale" 1 "?t JSMN_OBJECT 0 2 0 # replicate 5 stale" "''btc''"]
    by simp
qed

text \<open>A ticker of the answer: the string two tokens before a tag \<^verbatim>\<open>id\<close>.\<close>

definition ticker_at :: "string \<Rightarrow> nat \<Rightarrow> jsmntok list \<Rightarrow> int \<Rightarrow> string \<Rightarrow> bool" where
  "ticker_at data n ts p s \<longleftrightarrow> 1 < p \<and> p < int n \<and> tag_at data ts p ''id'' \<and> tag_at data ts (p - 2) s"

lemma market_before_ticker:
  assumes "tokens_of data n ts" "0 < sp" "market_before ''id'' data ts n sp = Inr (p, s)" "1 < p"
  shows "ticker_at data n ts p s"
proof -
  obtain q where q: "json_find_token data ts n sp ''id'' = Inr q" "first_tag data n ts sp ''id'' q"
    using json_find_token_first [OF assms(1)] assms(2) by (meson less_imp_le)
  have "q = p"
    using q(1) assms(3,4) by (auto simp: market_before_def cbind_Inr_iff split: if_splits)
  with q assms(3,4) have "p < int n" "tag_at data ts p ''id''"
    by (auto simp: first_tag_def split: if_splits)
  then show ?thesis
    using q(1) \<open>q = p\<close> assms(3,4) tokens_of_get [OF assms(1), of "p - 2"]
    by (auto simp: market_before_def ticker_at_def tag_at_def split: if_splits)
qed

lemma poloniex_market_Some:
  assumes "CHR ''_'' \<in> set s"
  shows "\<exists>m. poloniex_market s = Some m"
proof -
  have "dropWhile (\<lambda>c. c \<noteq> CHR ''_'') s \<noteq> []"
    using assms by (simp add: dropWhile_eq_Nil_conv)
  then obtain c rest where "dropWhile (\<lambda>c. c \<noteq> CHR ''_'') s = c # rest"
    by (meson neq_Nil_conv)
  then show ?thesis
    by (simp only: poloniex_market_def list.case) blast
qed

lemma poloniex_market_loop_safe:
  assumes "tokens_of data n ts" "0 \<le> sp" "\<not> (sp = 1 \<and> 1 < n \<and> tag_at data ts 1 ''id'')"
    "\<And>p s. ticker_at data n ts p s \<Longrightarrow> CHR ''_'' \<in> set s"
    "0 < fuel" "0 < sp \<longrightarrow> sp \<le> int n + 1 \<and> int n + 2 < int fuel + sp"
  shows "\<exists>ms. poloniex_market_loop fuel data ts n sp head = Inr ms"
  using assms
proof (induction fuel data ts n sp head rule: poloniex_market_loop.induct)
  case (2 fuel data ts n sp head)
  show ?case
  proof (cases "sp = 0")
    case True
    then show ?thesis by simp
  next
    case False
    with "2.prems"(2) have sp: "0 < sp" by simp
    obtain p r where pr: "market_before ''id'' data ts n sp = Inr (p, r)"
        "p = 0 \<or> sp \<le> p \<and> 1 < p \<and> p < int n"
      using market_before_safe [OF "2.prems"(1) sp "2.prems"(3)] by auto
    show ?thesis
    proof (cases "p = 0")
      case True
      have "\<exists>ms. poloniex_market_loop fuel data ts n 0 head = Inr ms"
        using "2.prems"(6) sp by (cases fuel) auto
      then show ?thesis
        using pr(1) \<open>sp \<noteq> 0\<close> True by (simp add: poloniex_find_next_market_type_def)
    next
      case False
      with pr(2) have p: "sp \<le> p" "1 < p" "p < int n" by auto
      then have "CHR ''_'' \<in> set r"
        using market_before_ticker [OF "2.prems"(1) sp pr(1)] "2.prems"(4) by blast
      then obtain m where m: "poloniex_market r = Some m"
        using poloniex_market_Some by blast
      have "\<exists>ms. poloniex_market_loop fuel data ts n (p + 1) (head @ [m]) = Inr ms"
        using "2.prems"(6) sp p
        by (intro "2.IH"(3) [OF \<open>sp \<noteq> 0\<close> pr(1)[folded poloniex_find_next_market_type_def] refl False m "2.prems"(1)]
            "2.prems"(4)) auto
      then show ?thesis
        using pr(1) \<open>sp \<noteq> 0\<close> False m by (simp add: poloniex_find_next_market_type_def)
    qed
  qed
qed simp

text \<open>
  On any text that tokenizes, with any stale contents of the token array, the market parser of
  poloniex returns a list of markets (its loop ends within the fuel, and no read leaves the tokens) when
  every ticker has an underscore and the second token is not the string \<^verbatim>\<open>id\<close>.
\<close>

lemma poloniex_markets_total:
  assumes "json_parse data ts0 = Inr (n, ts)" "\<not> (1 < n \<and> tag_at data ts 1 ''id'')"
    and "\<And>p s. ticker_at data n ts p s \<Longrightarrow> CHR ''_'' \<in> set s"
  shows "\<exists>ms. poloniex_parse_market ts0 data = Inr ms"
  using poloniex_market_loop_safe [OF tokens_of_parse [OF assms(1), THEN conjunct1], of 1 "n + 3" "[]"]
    assms by (auto simp: poloniex_parse_market_def)

subsection \<open>Order books with a missing side\<close>

text \<open>
  When the tag \<^verbatim>\<open>sell\<close> is missing, the search of bittrex reports \<open>-1\<close> and the loop over the asks starts
  its first search there: the token before the first is read.
\<close>

lemma bittrex_book_needs_sell:
  assumes "json_parse data ts0 = Inr (n, ts)" "0 < n"
    "json_get_int_value data ts n 0 ''success'' 0 = Inr (sp, v)" "sp \<noteq> 0" "v \<noteq> 0"
    "\<And>j. sp \<le> j \<Longrightarrow> j < int n \<Longrightarrow> \<not> tag_at data ts j ''sell''"
  shows "book_bittrex_parse_book ts0 (Some data) = Inl OutOfBounds"
proof -
  have sp: "0 < sp"
    using json_get_int_value_pos [OF assms(3)] assms(4) by simp
  obtain p where p: "json_find_token data ts n sp ''sell'' = Inr p" "first_tag data n ts sp ''sell'' p"
    using json_find_token_first [OF tokens_of_parse [OF assms(1), THEN conjunct1], of sp] sp by auto
  then have "p = -1"
    using assms(6) by (auto simp: first_tag_def split: if_splits)
  moreover have "json_find_token data ts n (-1) ''Quantity'' = Inl OutOfBounds"
    using assms(2) by (simp add: json_find_token.simps [of data ts n "-1"])
  ultimately show ?thesis
    using assms(1,3-5) p(1) sp
    by (simp add: book_bittrex_parse_book_def bittrex_bid_loop.simps [of data ts n "-1" sp]
        bittrex_ask_loop.simps [of data ts n "-1"] json_get_double_value_def)
qed

text \<open>That is the only way: with the tag present, and no tag of the parser as last token, the book parser of bittrex
  stays within its arrays and stops on any text.\<close>

lemma bittrex_bid_loop_safe:
  assumes "tokens_of data n ts" "0 \<le> sp" "\<not> list_ex (tag_last data n ts) [''Quantity'', ''Rate'']"
  shows "harmless (bittrex_bid_loop data ts n sell_pos sp bk)"
  using assms
proof (induction data ts n sell_pos sp bk rule: bittrex_bid_loop.induct)
  case (1 data ts n sell_pos sp bk)
  have get: "safe_at (json_get_double_value data ts n i tag dbl_0)" if "0 \<le> i" "tag \<in> {''Quantity'', ''Rate''}" for i tag
    using that "1.prems"(3) by (intro json_value_safe [OF "1.prems"(1)]) auto
  show ?case
    unfolding bittrex_bid_loop.simps [of data ts n sell_pos sp bk]
    using "1.IH" "1.prems" get [of sp "''Quantity''"] get [of _ "''Rate''"]
    by (auto simp: safe_at_def intro!: harmless_cbind)
qed

lemma bittrex_ask_loop_safe:
  assumes "tokens_of data n ts" "0 \<le> sp" "\<not> list_ex (tag_last data n ts) [''Quantity'', ''Rate'']"
  shows "harmless (bittrex_ask_loop data ts n sp bk i)"
  using assms
proof (induction data ts n sp bk i rule: bittrex_ask_loop.induct)
  case (1 data ts n sp bk i)
  have get: "safe_at (json_get_double_value data ts n k tag dbl_0)" if "0 \<le> k" "tag \<in> {''Quantity'', ''Rate''}" for k tag
    using that "1.prems"(3) by (intro json_value_safe [OF "1.prems"(1)]) auto
  show ?case
    unfolding bittrex_ask_loop.simps [of data ts n sp bk i]
    using "1.IH" "1.prems" get [of sp "''Quantity''"] get [of _ "''Rate''"]
    by (auto simp: safe_at_def intro!: harmless_cbind)
qed

lemma bittrex_book_safe:
  assumes "json_parse data ts0 = Inr (n, ts)" "\<not> list_ex (tag_last data n ts) [''success'', ''Quantity'', ''Rate'']"
    and sell: "\<And>sp v. json_get_int_value data ts n 0 ''success'' 0 = Inr (sp, v) \<Longrightarrow>
      \<exists>j. sp \<le> j \<and> j < int n \<and> tag_at data ts j ''sell''"
  shows "harmless (book_bittrex_parse_book ts0 (Some data))"
proof -
  note tok = tokens_of_parse [OF assms(1), THEN conjunct1]
  have start: "safe_at (json_get_int_value data ts n 0 ''success'' 0)"
    using assms(2) by (intro json_value_safe [OF tok]) auto
  have find: "\<exists>p. json_find_token data ts n sp ''sell'' = Inr p \<and> 0 \<le> p"
    if "json_get_int_value data ts n 0 ''success'' 0 = Inr (sp, v)" for sp v
  proof -
    have "0 \<le> sp" using start that by (simp add: safe_at_def)
    then obtain p where p: "json_find_token data ts n sp ''sell'' = Inr p" "first_tag data n ts sp ''sell'' p"
      using json_find_token_first [OF tok] by blast
    then have "p \<noteq> -1" using sell [OF that] by (auto simp: first_tag_def)
    with p \<open>0 \<le> sp\<close> show ?thesis by (auto simp: first_tag_def)
  qed
  have "harmless (cbind (json_find_token data ts n sp ''sell'') (\<lambda>sell_pos.
      cbind (bittrex_bid_loop data ts n sell_pos sp []) (\<lambda>bk. bittrex_ask_loop data ts n sell_pos bk 0)))"
    if g: "json_get_int_value data ts n 0 ''success'' 0 = Inr (sp, v)" for sp v
    using find [OF g] start g assms(2)
    by (auto simp: safe_at_def intro!: harmless_cbind bittrex_bid_loop_safe [OF tok] bittrex_ask_loop_safe [OF tok])
  then show ?thesis
    using start assms(1) by (auto simp: book_bittrex_parse_book_def safe_at_def intro!: harmless_cbind)
qed

text \<open>The balance of bittrex, in the same way; no number is converted to an integer, so nothing is left that can fail.\<close>

lemma token_double_safe:
  assumes "tokens_of data n ts" "0 \<le> i" "i < int n"
  shows "\<exists>d. token_double data ts i old = Inr d"
  using tokens_of_get [OF assms] by (simp add: token_double_def json_get_double_def)

lemma bittrex_balance_field_safe:
  assumes "tokens_of data n ts" "0 \<le> i" "\<not> tag_last data n ts tag"
  shows "\<exists>r. bittrex_balance_field data ts n i tag old = Inr r \<and> (\<forall>p d. r = Some (p, d) \<longrightarrow> 0 \<le> p)"
proof (rule json_find_value [OF assms])
  fix p assume p: "json_find_token data ts n i tag = Inr p" "i \<le> p" "p + 1 < int n"
  then show ?thesis
    using token_double_safe [OF assms(1), of "p + 1" old] assms(2) by (auto simp: bittrex_balance_field_def)
qed (simp add: bittrex_balance_field_def)

lemma bittrex_balance_safe:
  assumes "\<not> ends_in_tag ts0 [''Currency'', ''Balance'', ''Available'', ''Pending''] data"
  shows "\<exists>b. bittrex_parse_balance ts0 data = Inr b"
proof (cases "json_parse data ts0")
  case (Inr r)
  then obtain n ts where r: "json_parse data ts0 = Inr (n, ts)" by (cases r) auto
  note tok = tokens_of_parse [OF r, THEN conjunct1]
  have tags: "\<not> tag_last data n ts tag" if "tag \<in> {''Currency'', ''Balance'', ''Available'', ''Pending''}" for tag
    using that assms r by (auto simp: ends_in_tag_def)
  show ?thesis
  proof (rule json_find_value [OF tok _ tags, of 0 "''Currency''"])
    fix p assume p: "json_find_token data ts n 0 ''Currency'' = Inr p" "0 \<le> p" "p + 1 < int n"
    obtain cur where cur: "json_get_string data (ts ! nat (p + 1)) None = Inr cur"
      using tokens_of_get(2) [OF tok, of "p + 1"] p
      by (cases "tok_type (ts ! nat (p + 1)) = JSMN_STRING") (auto simp: json_get_string_def)
    obtain r1 where 1: "bittrex_balance_field data ts n (p + 1) ''Balance'' dbl_0 = Inr r1" "\<And>p d. r1 = Some (p, d) \<Longrightarrow> 0 \<le> p"
      using bittrex_balance_field_safe [OF tok _ tags, of "p + 1" "''Balance''" dbl_0] p(2) by auto
    have 2: "\<exists>r2. bittrex_balance_field data ts n q ''Available'' dbl_0 = Inr r2 \<and> (\<forall>p d. r2 = Some (p, d) \<longrightarrow> 0 \<le> p)"
      "\<exists>r3. bittrex_balance_field data ts n q ''Pending'' dbl_0 = Inr r3" if "0 \<le> q" for q
      using bittrex_balance_field_safe [OF tok that tags, of "''Available''" dbl_0]
        bittrex_balance_field_safe [OF tok that tags, of "''Pending''" dbl_0] by auto
    show ?thesis
    proof (cases r1)
      case (Some x)
      then obtain q d where q: "r1 = Some (q, d)" "0 \<le> q" using 1(2) by (cases x) auto
      obtain r2 where r2: "bittrex_balance_field data ts n q ''Available'' dbl_0 = Inr r2" "\<forall>p d. r2 = Some (p, d) \<longrightarrow> 0 \<le> p"
        using 2(1) [OF q(2)] by auto
      show ?thesis
      proof (cases r2)
        case (Some y)
        then obtain k e where k: "r2 = Some (k, e)" "0 \<le> k" using r2(2) by (cases y) auto
        then show ?thesis
          using r p cur 1(1) q r2(1) 2(2) [OF k(2)] tokens_of_get(1) [OF tok, of "p + 1"]
          by (auto simp: bittrex_parse_balance_def split: option.split)
      qed (use r p cur 1(1) q r2(1) tokens_of_get(1) [OF tok, of "p + 1"] in \<open>simp add: bittrex_parse_balance_def\<close>)
    qed (use r p cur 1(1) tokens_of_get(1) [OF tok, of "p + 1"] in \<open>simp add: bittrex_parse_balance_def\<close>)
  qed (use r in \<open>simp_all add: bittrex_parse_balance_def\<close>)
qed (simp add: bittrex_parse_balance_def)

text \<open>
  When both sides are missing, btc38 reads the levels from the third token on, whatever it is: for the
  empty object the answer is decided by what the array held before the call.
\<close>

lemma btc38_book_reads_stale:
  "btc38_parse_book [stale, b, c, d] ''{}'' =
     cbind (json_get_double ''{}'' c dbl_0) (\<lambda>quantity.
     cbind (json_get_double ''{}'' d dbl_0) (\<lambda>rate. Inr []))"
proof -
  let ?o = "\<lparr>tok_type = JSMN_OBJECT, tok_start = 0, tok_end = 2, tok_size = 0\<rparr>"
  have parse: "json_parse ''{}'' [stale, b, c, d] = Inr (1, [?o, b, c, d])"
    by code_simp
  have find: "json_find_token ''{}'' [?o, b, c, d] (Suc 0) 0 tag = Inr (-1)" for tag
    by (simp add: json_find_token.simps)
  show ?thesis
    by (simp add: btc38_parse_book_def parse find btc38_bid_loop.simps [of _ _ "-1"]
        btc38_ask_loop.simps [of _ _ _ 2] token_double_def)
qed

end
