(* ===== verification/BittrexSpec.thy ===== *)
theory BittrexSpec
  imports Bittrex LevelView
begin

section \<open>What the bittrex parsers return\<close>

text \<open>
  The answers of the exchange as JSON values, with arbitrary further members around the ones the parser
  looks for, and the results of the parsers on them. The only conditions on the further members are
  that they do not hold the tags searched for: the parser searches the flat token list, not the object.
\<close>

subsection \<open>Market listings\<close>

record listing =
  gap0 :: "(string option \<times> jval) list"
  l_market :: string
  gap1 :: "(string option \<times> jval) list"
  l_base :: string
  gap2 :: "(string option \<times> jval) list"
  l_min :: string
  gap3 :: "(string option \<times> jval) list"
  l_name :: string
  gap4 :: "(string option \<times> jval) list"
  l_active :: string
  gap5 :: "(string option \<times> jval) list"

definition listing_items :: "listing \<Rightarrow> (string option \<times> jval) list" where
  "listing_items l =
     gap0 l @ (Some ''MarketCurrency'', JStr (l_market l)) # gap1 l @
     (Some ''BaseCurrency'', JStr (l_base l)) # gap2 l @
     (Some ''MinTradeSize'', JPrim (l_min l)) # gap3 l @
     (Some ''MarketName'', JStr (l_name l)) # gap4 l @
     (Some ''IsActive'', JPrim (l_active l)) # gap5 l"

definition listing_val :: "listing \<Rightarrow> jval" where
  "listing_val l = JNode True (listing_items l)"

definition listing_ok :: "listing \<Rightarrow> bool" where
  "listing_ok l \<longleftrightarrow>
     free_of ''MarketCurrency'' (gap0 l) \<and>
     l_market l \<noteq> ''BaseCurrency'' \<and> free_of ''BaseCurrency'' (gap1 l) \<and>
     l_base l \<noteq> ''MinTradeSize'' \<and> free_of ''MinTradeSize'' (gap2 l) \<and>
     free_of ''MarketName'' (gap3 l) \<and>
     l_name l \<noteq> ''IsActive'' \<and> free_of ''IsActive'' (gap4 l) \<and>
     free_of ''MarketCurrency'' (gap5 l) \<and> (\<exists>z. json_int_of (l_active l) = Inr z)"

definition listing_market :: "listing \<Rightarrow> market list" where
  "listing_market l =
     (if json_int_of (l_active l) = Inr 0 then []
      else [\<lparr>market_name = Some (l_name l), market_currency = Some (l_market l),
             base_currency = Some (l_base l), min_trade_size = json_double_of (l_min l),
             fee = dbl_0_7\<rparr>])"

definition markets_answer ::
    "(string option \<times> jval) list \<Rightarrow> string \<Rightarrow> (string option \<times> jval) list \<Rightarrow> listing list \<Rightarrow>
     (string option \<times> jval) list \<Rightarrow> jval" where
  "markets_answer a s b ls c =
     JNode True (a @ (Some ''success'', JPrim s) # b @ (Some ''result'', JArr (map listing_val ls)) # c)"

lemma flat_listing [simp]:
  "flat (listing_val l) = (JSMN_OBJECT, render (listing_val l)) # flat_items (listing_items l)"
  by (simp add: listing_val_def node_type_def)

lemma bittrex_market_step_listing:
  assumes v: "views data ts n ws" and ok: "listing_ok l" and i: "0 < i"
    and d: "drop i ws = us @ flat_items (listing_items l) @ rest"
    and us: "(JSMN_STRING, ''MarketCurrency'') \<notin> set us"
  obtains i' where "0 < i'" "drop i' ws = (JSMN_PRIMITIVE, l_active l) # flat_items (gap5 l) @ rest"
    "bittrex_market_step data ts n (int i) =
       Inr (int i', case listing_market l of [] \<Rightarrow> None | m # _ \<Rightarrow> Some m)"
proof -
  note ok' = ok [unfolded listing_ok_def free_of_def]
  obtain z where z: "json_int_of (l_active l) = Inr z" using ok' by blast
  define t4 where "t4 = flat_items (gap4 l) @ (JSMN_STRING, ''IsActive'') # (JSMN_PRIMITIVE, l_active l)
    # flat_items (gap5 l) @ rest"
  define t3 where "t3 = flat_items (gap3 l) @ (JSMN_STRING, ''MarketName'') # (JSMN_STRING, l_name l) # t4"
  define t2 where "t2 = flat_items (gap2 l) @ (JSMN_STRING, ''MinTradeSize'') # (JSMN_PRIMITIVE, l_min l) # t3"
  define t1 where "t1 = flat_items (gap1 l) @ (JSMN_STRING, ''BaseCurrency'') # (JSMN_STRING, l_base l) # t2"
  note t_defs = t1_def t2_def t3_def t4_def
  obtain i1 where 1: "json_get_string_value data ts n (int i) ''MarketCurrency'' None = Inr (int i1, Some (l_market l))"
      "i < i1" "drop i1 ws = (JSMN_STRING, l_market l) # t1"
    by (rule seek_string [OF v, of i "us @ flat_items (gap0 l)" "''MarketCurrency''" "l_market l" t1 None])
      (use d us ok' in \<open>auto simp: listing_items_def t_defs\<close>)
  obtain i2 where 2: "json_get_string_value data ts n (int i1) ''BaseCurrency'' None = Inr (int i2, Some (l_base l))"
      "i1 < i2" "drop i2 ws = (JSMN_STRING, l_base l) # t2"
    by (rule seek_string [OF v, of i1 "(JSMN_STRING, l_market l) # flat_items (gap1 l)" "''BaseCurrency''"
          "l_base l" t2 None]) (use 1 ok' in \<open>auto simp: t1_def\<close>)
  obtain i3 where 3: "json_get_double_value data ts n (int i2) ''MinTradeSize'' dbl_0 =
        Inr (int i3, json_double_of (l_min l))" "i2 < i3" "drop i3 ws = (JSMN_PRIMITIVE, l_min l) # t3"
    by (rule seek_double [OF v, of i2 "(JSMN_STRING, l_base l) # flat_items (gap2 l)" "''MinTradeSize''"
          "l_min l" t3 dbl_0]) (use 2 ok' in \<open>auto simp: t2_def\<close>)
  obtain i4 where 4: "json_get_string_value data ts n (int i3) ''MarketName'' None = Inr (int i4, Some (l_name l))"
      "i3 < i4" "drop i4 ws = (JSMN_STRING, l_name l) # t4"
    by (rule seek_string [OF v, of i3 "(JSMN_PRIMITIVE, l_min l) # flat_items (gap3 l)" "''MarketName''"
          "l_name l" t4 None]) (use 3 ok' in \<open>auto simp: t3_def\<close>)
  obtain i5 where 5: "json_get_int_value data ts n (int i4) ''IsActive'' 0 = Inr (int i5, z)"
      "i4 < i5" "drop i5 ws = (JSMN_PRIMITIVE, l_active l) # flat_items (gap5 l) @ rest"
    by (rule seek_int [OF v, of i4 "(JSMN_STRING, l_name l) # flat_items (gap4 l)" "''IsActive''"
          "l_active l" "flat_items (gap5 l) @ rest" z 0]) (use 4 ok' z in \<open>auto simp: t4_def\<close>)
  show ?thesis
    by (rule that [of i5])
      (use i 1 2 3 4 5 z in \<open>auto simp: bittrex_market_step_def listing_market_def market_new_def\<close>)
qed

lemma bittrex_market_loop_listings:
  assumes v: "views data ts n ws"
  shows "\<lbrakk>0 < i; drop i ws = us @ concat (map (\<lambda>l. flat (listing_val l)) ls) @ rest; \<forall>l\<in>set ls. listing_ok l;
      (JSMN_STRING, ''MarketCurrency'') \<notin> set us; (JSMN_STRING, ''MarketCurrency'') \<notin> set rest\<rbrakk> \<Longrightarrow>
    bittrex_market_loop data ts n (int i) head = Inr (head @ concat (map listing_market ls))"
proof (induction ls arbitrary: i us head)
  case Nil
  then have "find_str (drop i ws) ''MarketCurrency'' = None"
    by (simp add: find_str_None)
  then have "bittrex_market_step data ts n (int i) = Inr (0, None)"
    using get_value_none_views(3) [OF v, of i "''MarketCurrency''"] by (simp add: bittrex_market_step_def)
  then show ?case
    using Nil.prems(1) by (subst bittrex_market_loop.simps, simp) (subst bittrex_market_loop.simps, simp)
next
  case (Cons l ls)
  let ?rest = "concat (map (\<lambda>l. flat (listing_val l)) ls) @ rest"
  obtain i' where i': "0 < i'" "drop i' ws = (JSMN_PRIMITIVE, l_active l) # flat_items (gap5 l) @ ?rest"
      "bittrex_market_step data ts n (int i) =
         Inr (int i', case listing_market l of [] \<Rightarrow> None | m # _ \<Rightarrow> Some m)"
    by (rule bittrex_market_step_listing [OF v, of l i
          "us @ [(JSMN_OBJECT, render (listing_val l))]" ?rest])
      (use Cons.prems in auto)
  have "bittrex_market_loop data ts n (int i') (head @ listing_market l) =
      Inr ((head @ listing_market l) @ concat (map listing_market ls))"
    by (rule Cons.IH [of i' "(JSMN_PRIMITIVE, l_active l) # flat_items (gap5 l)"])
      (use i' Cons.prems in \<open>auto simp: listing_ok_def free_of_def\<close>)
  then show ?case
    using i' Cons.prems(1)
    by (subst bittrex_market_loop.simps) (auto simp: listing_market_def)
qed

lemma parse_market_answer:
  assumes ok: "val_ok (markets_answer a s b ls c)" and room: "ntoks (markets_answer a s b ls c) \<le> length ts0"
    and a: "free_of ''success'' a" and s: "json_int_of s = Inr z" "z \<noteq> 0"
    and ls: "\<forall>l\<in>set ls. listing_ok l"
    and gaps: "free_of ''MarketCurrency'' b" "free_of ''MarketCurrency'' c"
  shows "book_bittrex_parse_market ts0 (Some (render (markets_answer a s b ls c))) =
    Inr (concat (map listing_market ls))"
proof -
  let ?data = "render (markets_answer a s b ls c)" and ?ws = "flat (markets_answer a s b ls c)"
  let ?n = "ntoks (markets_answer a s b ls c)"
  let ?res = "JArr (map listing_val ls)"
  obtain ts where ts: "json_parse ?data ts0 = Inr (?n, ts)" "views ?data ts ?n ?ws"
    using json_parse_render [OF ok room] by metis
  let ?rest = "flat_items b @ (JSMN_STRING, ''result'') # flat ?res @ flat_items c"
  obtain i where i: "json_get_int_value ?data ts ?n (int 0) ''success'' 0 = Inr (int i, z)" "0 < i"
      "drop i ?ws = (JSMN_PRIMITIVE, s) # ?rest"
    by (rule seek_int [OF ts(2), of 0 "(JSMN_OBJECT, ?data) # flat_items a" "''success''" s ?rest z 0])
      (use a s in \<open>auto simp: markets_answer_def node_type_def free_of_def\<close>)
  have "bittrex_market_loop ?data ts ?n (int i) [] = Inr ([] @ concat (map listing_market ls))"
    by (rule bittrex_market_loop_listings [OF ts(2) i(2), where rest = "flat_items c" and
          us = "(JSMN_PRIMITIVE, s) # flat_items b @ [(JSMN_STRING, ''result''), (JSMN_ARRAY, render ?res)]"])
      (use i ls gaps in \<open>auto simp: free_of_def node_type_def\<close>)
  then show ?thesis
    using ts i s by (simp add: book_bittrex_parse_market_def)
qed

subsection \<open>Order books\<close>

text \<open>A level of the book is the pair of its quantity and its rate, as written in the answer.\<close>

definition level_val :: "string \<times> string \<Rightarrow> jval" where
  "level_val l = JObj [(''Quantity'', JPrim (fst l)), (''Rate'', JPrim (snd l))]"

definition bid_of :: "string \<times> string \<Rightarrow> book \<Rightarrow> book" where
  "bid_of l = set_bid (json_double_of (fst l)) (json_double_of (snd l))"

definition ask_of :: "string \<times> string \<Rightarrow> book \<Rightarrow> book" where
  "ask_of l = set_ask (json_double_of (fst l)) (json_double_of (snd l))"

definition book_answer ::
    "(string option \<times> jval) list \<Rightarrow> string \<Rightarrow> (string option \<times> jval) list \<Rightarrow> (string \<times> string) list \<Rightarrow>
     (string \<times> string) list \<Rightarrow> (string option \<times> jval) list \<Rightarrow> jval" where
  "book_answer a s b buy sell c =
     JNode True (a @ (Some ''success'', JPrim s) # b @
       (Some ''result'', JObj [(''buy'', JArr (map level_val buy)), (''sell'', JArr (map level_val sell))]) # c)"

lemma flat_level [simp]:
  "flat (level_val l) = [(JSMN_OBJECT, render (level_val l)), (JSMN_STRING, ''Quantity''),
     (JSMN_PRIMITIVE, fst l), (JSMN_STRING, ''Rate''), (JSMN_PRIMITIVE, snd l)]"
  by (simp add: level_val_def node_type_def)

lemma seek_level:
  assumes v: "views data ts n ws" and us: "(JSMN_STRING, ''Quantity'') \<notin> set us"
    and d: "drop i ws = us @ (JSMN_STRING, ''Quantity'') # (JSMN_PRIMITIVE, fst l) #
      (JSMN_STRING, ''Rate'') # (JSMN_PRIMITIVE, snd l) # rest"
  obtains i' where
    "json_get_double_value data ts n (int i) ''Quantity'' dbl_0 =
       Inr (int (i + length us + 1), json_double_of (fst l))"
    "json_get_double_value data ts n (int (i + length us + 1)) ''Rate'' dbl_0 =
       Inr (int i', json_double_of (snd l))"
    "i' = i + length us + 3" "drop i' ws = (JSMN_PRIMITIVE, snd l) # rest"
proof -
  let ?i = "i + length us + 1"
  note q = drop_eq_append [OF d]
  have d': "drop ?i ws = [(JSMN_PRIMITIVE, fst l)] @ (JSMN_STRING, ''Rate'') # (JSMN_PRIMITIVE, snd l) # rest"
    using q(3) by simp
  note r = drop_eq_append [OF d']
  have 1: "json_get_double_value data ts n (int i) ''Quantity'' dbl_0 = Inr (int ?i, json_double_of (fst l))"
    using q v find_str_skip [OF us] by (intro get_double_views [OF v]) (auto simp: d views_def)
  have fs: "find_str (drop ?i ws) ''Rate'' = Some 1" by (simp only: d') simp
  have 2: "json_get_double_value data ts n (int ?i) ''Rate'' dbl_0 =
      Inr (int (?i + 1 + 1), json_double_of (snd l))"
    using r v fs by (intro get_double_views [OF v, of ?i _ 1]) (auto simp: views_def)
  show ?thesis
    by (rule that [of "?i + 2"]) (use 1 2 r in \<open>auto simp: add.commute add.left_commute\<close>)
qed

text \<open>The bid loop takes the levels before the token \<^verbatim>\<open>sell\<close>; it looks at one level beyond, if there is one.\<close>

lemma bittrex_bid_loop_levels:
  assumes v: "views data ts n ws"
    and sell: "drop sp ws = (JSMN_STRING, ''sell'') # w # concat (map (\<lambda>l. flat (level_val l)) sell) @ rest"
      "w \<noteq> (JSMN_STRING, ''Quantity'')" "(JSMN_STRING, ''Quantity'') \<notin> set rest"
  shows "\<lbrakk>0 < i; (JSMN_STRING, ''Quantity'') \<notin> set us;
      drop i ws = us @ concat (map (\<lambda>l. flat (level_val l)) buy) @ drop sp ws;
      sp = i + length us + 5 * length buy\<rbrakk> \<Longrightarrow>
    bittrex_bid_loop data ts n (int sp) (int i) bk = Inr (bk @ map (\<lambda>l. bid_of l book_new) buy)"
proof (induction buy arbitrary: i us bk)
  case Nil
  show ?case
  proof (cases sell)
    case Nil': Nil
    have "find_str (drop i ws) ''Quantity'' = None"
      using Nil.prems sell Nil' by (simp add: find_str_None)
    then show ?thesis
      using get_value_none_views(1) [OF v] by (subst bittrex_bid_loop.simps) simp
  next
    case (Cons l ls)
    obtain i' where i': "json_get_double_value data ts n (int i) ''Quantity'' dbl_0 =
          Inr (int (i + length (us @ [(JSMN_STRING, ''sell''), w, (JSMN_OBJECT, render (level_val l))]) + 1),
            json_double_of (fst l))"
        "json_get_double_value data ts n
          (int (i + length (us @ [(JSMN_STRING, ''sell''), w, (JSMN_OBJECT, render (level_val l))]) + 1))
          ''Rate'' dbl_0 = Inr (int i', json_double_of (snd l))"
        "i' = i + length (us @ [(JSMN_STRING, ''sell''), w, (JSMN_OBJECT, render (level_val l))]) + 3"
      by (rule seek_level [OF v, of "us @ [(JSMN_STRING, ''sell''), w, (JSMN_OBJECT, render (level_val l))]" i l
            "concat (map (\<lambda>l. flat (level_val l)) ls) @ rest"])
        (use Nil.prems sell Cons in auto)
    have "bittrex_bid_loop data ts n (int sp) (int i') bk = Inr bk"
      using i'(3) Nil.prems(4) by (subst bittrex_bid_loop.simps) simp
    then show ?thesis
      using i' Nil.prems by (subst bittrex_bid_loop.simps) simp
  qed
next
  case (Cons l buy)
  let ?us = "us @ [(JSMN_OBJECT, render (level_val l))]"
  obtain i' where i': "json_get_double_value data ts n (int i) ''Quantity'' dbl_0 =
        Inr (int (i + length ?us + 1), json_double_of (fst l))"
      "json_get_double_value data ts n (int (i + length ?us + 1)) ''Rate'' dbl_0 =
        Inr (int i', json_double_of (snd l))"
      "i' = i + length ?us + 3"
      "drop i' ws = (JSMN_PRIMITIVE, snd l) # concat (map (\<lambda>l. flat (level_val l)) buy) @ drop sp ws"
    by (rule seek_level [OF v, of ?us i l "concat (map (\<lambda>l. flat (level_val l)) buy) @ drop sp ws"])
      (use Cons.prems in auto)
  have "bittrex_bid_loop data ts n (int sp) (int i') (bk @ [bid_of l book_new]) =
      Inr ((bk @ [bid_of l book_new]) @ map (\<lambda>l. bid_of l book_new) buy)"
    by (rule Cons.IH [of i' "[(JSMN_PRIMITIVE, snd l)]"]) (use i' Cons.prems in auto)
  moreover have "i' < sp" using i'(3) Cons.prems(4) by simp
  ultimately show ?case
    using i' Cons.prems(1,4)
    by (subst bittrex_bid_loop.simps) (simp add: bid_of_def)
qed

lemma bittrex_ask_loop_levels:
  assumes v: "views data ts n ws" and rest: "(JSMN_STRING, ''Quantity'') \<notin> set rest"
  shows "\<lbrakk>0 < i; (JSMN_STRING, ''Quantity'') \<notin> set us;
      drop i ws = us @ concat (map (\<lambda>l. flat (level_val l)) sell) @ rest\<rbrakk> \<Longrightarrow>
    bittrex_ask_loop data ts n (int i) (zip_sides fs gs) (length gs) =
      Inr (zip_sides fs (gs @ map ask_of sell))"
proof (induction sell arbitrary: i us gs)
  case Nil
  then have "find_str (drop i ws) ''Quantity'' = None"
    using rest by (simp add: find_str_None)
  then show ?case
    using get_value_none_views(1) [OF v] by (subst bittrex_ask_loop.simps) simp
next
  case (Cons l sell)
  let ?us = "us @ [(JSMN_OBJECT, render (level_val l))]"
  obtain i' where i': "json_get_double_value data ts n (int i) ''Quantity'' dbl_0 =
        Inr (int (i + length ?us + 1), json_double_of (fst l))"
      "json_get_double_value data ts n (int (i + length ?us + 1)) ''Rate'' dbl_0 =
        Inr (int i', json_double_of (snd l))"
      "i' = i + length ?us + 3"
      "drop i' ws = (JSMN_PRIMITIVE, snd l) # concat (map (\<lambda>l. flat (level_val l)) sell) @ rest"
    by (rule seek_level [OF v, of ?us i l "concat (map (\<lambda>l. flat (level_val l)) sell) @ rest"])
      (use Cons.prems in auto)
  have "bittrex_ask_loop data ts n (int i') (zip_sides fs (gs @ [ask_of l])) (length (gs @ [ask_of l])) =
      Inr (zip_sides fs ((gs @ [ask_of l]) @ map ask_of sell))"
    by (rule Cons.IH [of i' "[(JSMN_PRIMITIVE, snd l)]"]) (use i' Cons.prems in auto)
  then show ?case
    using i' Cons.prems(1)
    by (subst bittrex_ask_loop.simps) (simp add: ask_of_def zip_sides_snoc)
qed

lemma parse_book_answer:
  assumes ok: "val_ok (book_answer a s b buy sell c)"
    and room: "ntoks (book_answer a s b buy sell c) \<le> length ts0"
    and a: "free_of ''success'' a" and s: "json_int_of s = Inr z" "z \<noteq> 0"
    and gaps: "free_of ''sell'' b" "free_of ''Quantity'' b" "free_of ''Quantity'' c"
  shows "book_bittrex_parse_book ts0 (Some (render (book_answer a s b buy sell c))) =
    Inr (zip_sides (map bid_of buy) (map ask_of sell))"
proof -
  let ?data = "render (book_answer a s b buy sell c)" and ?ws = "flat (book_answer a s b buy sell c)"
  let ?n = "ntoks (book_answer a s b buy sell c)"
  let ?buy = "JArr (map level_val buy)" and ?sell = "JArr (map level_val sell)"
  let ?res = "JObj [(''buy'', ?buy), (''sell'', ?sell)]"
  define pre where "pre = flat_items b @ [(JSMN_STRING, ''result''), (JSMN_OBJECT, render ?res),
    (JSMN_STRING, ''buy''), (JSMN_ARRAY, render ?buy)]"
  define post where "post = (JSMN_STRING, ''sell'') # (JSMN_ARRAY, render ?sell) #
    concat (map (\<lambda>l. flat (level_val l)) sell) @ flat_items c"
  obtain ts where ts: "json_parse ?data ts0 = Inr (?n, ts)" "views ?data ts ?n ?ws"
    using json_parse_render [OF ok room] by metis
  let ?us = "(JSMN_PRIMITIVE, s) # pre"
  obtain i where i: "json_get_int_value ?data ts ?n (int 0) ''success'' 0 = Inr (int i, z)" "0 < i"
      "drop i ?ws = ?us @ concat (map (\<lambda>l. flat (level_val l)) buy) @ post"
    by (rule seek_int [OF ts(2), of 0 "(JSMN_OBJECT, ?data) # flat_items a" "''success''" s
          "pre @ concat (map (\<lambda>l. flat (level_val l)) buy) @ post" z 0])
      (use a s in \<open>auto simp: book_answer_def node_type_def free_of_def pre_def post_def\<close>)
  define sp where "sp = i + length ?us + 5 * length buy"
  have len: "length (concat (map (\<lambda>l. flat (level_val l)) ls)) = 5 * length ls" for ls
    by (induction ls) auto
  have sp: "drop sp ?ws = post"
    using arg_cong [OF i(3), of "drop (length ?us + 5 * length buy)"]
    by (simp add: sp_def len add.commute add.left_commute add.assoc del: flat_level)
  have "(JSMN_STRING, ''sell'') \<notin> set (?us @ concat (map (\<lambda>l. flat (level_val l)) buy))"
    using gaps by (auto simp: pre_def free_of_def)
  from find_str_skip [OF this] have "find_str (drop i ?ws) ''sell'' = Some (length ?us + 5 * length buy)"
    using i(3) by (simp add: post_def len del: flat_level)
  then have find: "json_find_token ?data ts ?n (int i) ''sell'' = Inr (int sp)"
    using find_token_views [OF ts(2), of i "''sell''"] by (simp add: as_pos_def sp_def)
  have bids: "bittrex_bid_loop ?data ts ?n (int sp) (int i) [] = Inr ([] @ map (\<lambda>l. bid_of l book_new) buy)"
    by (rule bittrex_bid_loop_levels [OF ts(2) _ _ _ i(2), where us = ?us and sell = sell and
          w = "(JSMN_ARRAY, render ?sell)" and rest = "flat_items c"])
      (use gaps i(3) sp in \<open>auto simp: free_of_def pre_def post_def sp_def\<close>)
  have "bittrex_ask_loop ?data ts ?n (int sp) (zip_sides (map bid_of buy) []) (length ([] :: (book \<Rightarrow> book) list)) =
      Inr (zip_sides (map bid_of buy) ([] @ map ask_of sell))"
    by (rule bittrex_ask_loop_levels [OF ts(2), where rest = "flat_items c" and
          us = "[(JSMN_STRING, ''sell''), (JSMN_ARRAY, render ?sell)]"])
      (use gaps i(2) sp in \<open>auto simp: free_of_def post_def sp_def\<close>)
  then show ?thesis
    using ts i s find bids by (simp add: book_bittrex_parse_book_def comp_def)
qed

subsection \<open>Balances\<close>

lemma bittrex_balance_field_views:
  assumes v: "views data ts n ws" and d: "drop i ws = us @ (JSMN_STRING, tag) # flat x @ rest"
    and us: "(JSMN_STRING, tag) \<notin> set us" and x: "scalar_not x tag'"
  obtains p w where "bittrex_balance_field data ts n (int i) tag old = Inr (Some (int p, num_of x))"
    "drop p ws = w # rest" "w \<noteq> (JSMN_STRING, tag')"
proof -
  obtain w where w: "scalar_view x = Some w" "w \<noteq> (JSMN_STRING, tag')" using x by (rule scalar_notE)
  from seek_number [OF v d us w(1)] obtain p where
    "json_find_token data ts n (int i) tag = Inr (int p)" "i \<le> p"
    "\<And>d. token_double data ts (int p + 1) d = Inr (num_of x)" "drop (p + 1) ws = w # rest" by metis
  then show ?thesis
    by (intro that [of "p + 1"]) (auto simp: bittrex_balance_field_def add.commute w(2))
qed

record wallet =
  w_currency :: string
  w_gap1 :: "(string option \<times> jval) list"
  w_balance :: jval
  w_gap2 :: "(string option \<times> jval) list"
  w_available :: jval
  w_gap3 :: "(string option \<times> jval) list"
  w_pending :: jval
  w_gap4 :: "(string option \<times> jval) list"

definition wallet_items :: "wallet \<Rightarrow> (string option \<times> jval) list" where
  "wallet_items w =
     (Some ''Currency'', JStr (w_currency w)) # w_gap1 w @ (Some ''Balance'', w_balance w) #
     w_gap2 w @ (Some ''Available'', w_available w) # w_gap3 w @ (Some ''Pending'', w_pending w) # w_gap4 w"

definition wallet_ok :: "wallet \<Rightarrow> bool" where
  "wallet_ok w \<longleftrightarrow> w_currency w \<noteq> ''Balance'' \<and> free_of ''Balance'' (w_gap1 w) \<and>
     scalar_not (w_balance w) ''Available'' \<and> free_of ''Available'' (w_gap2 w) \<and>
     scalar_not (w_available w) ''Pending'' \<and> free_of ''Pending'' (w_gap3 w) \<and>
     scalar_not (w_pending w) []"

definition balance_answer ::
    "(string option \<times> jval) list \<Rightarrow> wallet \<Rightarrow> (string option \<times> jval) list \<Rightarrow> jval" where
  "balance_answer a w c = JNode True (a @ (Some ''result'', JNode True (wallet_items w)) # c)"

lemma bittrex_parse_wallet:
  assumes ok: "val_ok (balance_answer a w c)" and room: "ntoks (balance_answer a w c) \<le> length ts0"
    and a: "free_of ''Currency'' a" and w: "wallet_ok w"
  shows "bittrex_parse_balance ts0 (render (balance_answer a w c)) =
    Inr (Some \<lparr>currency = Some (w_currency w), total = num_of (w_balance w),
      pending = num_of (w_pending w), available = num_of (w_available w)\<rparr>)"
proof -
  let ?v = "balance_answer a w c"
  let ?data = "render ?v" and ?n = "ntoks ?v" and ?ws = "flat ?v"
  note w' = w [unfolded wallet_ok_def free_of_def]
  obtain ts where ts: "json_parse ?data ts0 = Inr (?n, ts)" "views ?data ts ?n ?ws"
    using json_parse_render [OF ok room] by metis
  define pre where
    "pre = (JSMN_OBJECT, ?data) # flat_items a @ [(JSMN_STRING, ''result''), (JSMN_OBJECT, render (JNode True (wallet_items w)))]"
  define r3 where "r3 = flat_items (w_gap4 w) @ flat_items c"
  define r2 where "r2 = flat_items (w_gap3 w) @ (JSMN_STRING, ''Pending'') # flat (w_pending w) @ r3"
  define r1 where "r1 = flat_items (w_gap2 w) @ (JSMN_STRING, ''Available'') # flat (w_available w) @ r2"
  define r0 where "r0 = flat_items (w_gap1 w) @ (JSMN_STRING, ''Balance'') # flat (w_balance w) @ r1"
  have ws: "?ws = pre @ (JSMN_STRING, ''Currency'') # (JSMN_STRING, w_currency w) # r0"
    by (simp add: balance_answer_def wallet_items_def pre_def r0_def r1_def r2_def r3_def node_type_def)
  have "(JSMN_STRING, ''Currency'') \<notin> set pre" using a by (auto simp: pre_def free_of_def)
  note cur = find_tag_views [OF ts(2) ws this]
  let ?p = "length pre + 1"
  have t: "\<exists>t. arr_get ts (int (length pre) + 1) = Inr t \<and> json_get_string ?data t None = Inr (Some (w_currency w))"
    using views_arr_get [OF ts(2), of "int ?p"] ws ts(2)
    by (auto simp: json_get_string_def views_def nth_append nat_int_add add.commute)
  obtain p1 x where p1: "bittrex_balance_field ?data ts ?n (int ?p) ''Balance'' dbl_0 =
        Inr (Some (int p1, num_of (w_balance w)))" "drop p1 ?ws = x # r1" "x \<noteq> (JSMN_STRING, ''Available'')"
    by (rule bittrex_balance_field_views [OF ts(2), of ?p "(JSMN_STRING, w_currency w) # flat_items (w_gap1 w)"
        "''Balance''" "w_balance w" r1 "''Available''" dbl_0]) (use cur(2) w' in \<open>auto simp: r0_def\<close>)
  obtain p2 y where p2: "bittrex_balance_field ?data ts ?n (int p1) ''Available'' dbl_0 =
        Inr (Some (int p2, num_of (w_available w)))" "drop p2 ?ws = y # r2" "y \<noteq> (JSMN_STRING, ''Pending'')"
    by (rule bittrex_balance_field_views [OF ts(2), of p1 "x # flat_items (w_gap2 w)"
        "''Available''" "w_available w" r2 "''Pending''" dbl_0]) (use p1 w' in \<open>auto simp: r1_def\<close>)
  obtain p3 where p3: "bittrex_balance_field ?data ts ?n (int p2) ''Pending'' dbl_0 =
        Inr (Some (int p3, num_of (w_pending w)))"
    by (rule bittrex_balance_field_views [OF ts(2), of p2 "y # flat_items (w_gap3 w)"
        "''Pending''" "w_pending w" r3 "[]" dbl_0]) (use p2 w' in \<open>auto simp: r2_def\<close>)
  show ?thesis
    using ts(1) cur(1) t p1(1) p2(1) p3
    by (auto simp: bittrex_parse_balance_def balance_new_def add.commute)
qed

subsection \<open>The calls of the exchange\<close>

lemma bittrex_markets_listed:
  assumes "serves perform ''https://bittrex.com/api/v1.1/public/getmarkets'' (render (markets_answer a s b ls c))"
    and "val_ok (markets_answer a s b ls c)" "ntoks (markets_answer a s b ls c) \<le> length ts0"
    and "free_of ''success'' a" "json_int_of s = Inr z" "z \<noteq> 0" "\<forall>l\<in>set ls. listing_ok l"
    and "free_of ''MarketCurrency'' b" "free_of ''MarketCurrency'' c"
  shows "bittrex_get_markets perform True ts0 = Inr (concat (map listing_market ls))"
  using https_get_serves(2) [OF assms(1)] render_no_NUL(1) [OF assms(2)]
    parse_market_answer [OF assms(2-)]
  by (simp add: bittrex_get_markets_def bittrex_build_url_def bittrex_url_def Let_def)

text \<open>
  C15. When bittrex answers the market query with a JSON object whose member \<^verbatim>\<open>success\<close> is not zero and whose
  array \<^verbatim>\<open>result\<close> holds market listings, with any further members around the ones the parser needs,
  \<^verbatim>\<open>bittrex_get_markets\<close> returns one market for each active listing, in order, with its names, its
  smallest trade and the fee of the exchange, whatever the stack held before.
\<close>

theorem bittrex_get_markets_listings:
  assumes "serves perform ''https://bittrex.com/api/v1.1/public/getmarkets'' (render (markets_answer a s b ls c))"
    and "val_ok (markets_answer a s b ls c)" "ntoks (markets_answer a s b ls c) \<le> length ts0"
    and "free_of ''success'' a" "json_int_of s = Inr z" "z \<noteq> 0" "\<forall>l\<in>set ls. listing_ok l"
    and "free_of ''MarketCurrency'' b" "free_of ''MarketCurrency'' c"
  shows "bittrex_get_markets perform True ts0 = Inr (concat (map listing_market ls))"
  by (rule bittrex_markets_listed [OF assms])

theorem bittrex_get_markets_listings_witness:
  "bittrex_get_markets (one_page ''https://bittrex.com/api/v1.1/public/getmarkets''
     (render (markets_answer [] ''true'' [] [\<lparr>gap0 = [], l_market = ''LTC'', gap1 = [], l_base = ''BTC'',
        gap2 = [], l_min = ''0.5'', gap3 = [], l_name = ''BTC-LTC'', gap4 = [], l_active = ''true'', gap5 = []\<rparr>] [])))
     True (replicate 20 stale) =
   Inr [\<lparr>market_name = Some ''BTC-LTC'', market_currency = Some ''LTC'', base_currency = Some ''BTC'',
     min_trade_size = Fin 1 (-1), fee = dbl_0_7\<rparr>]"
proof -
  let ?l = "\<lparr>gap0 = [], l_market = ''LTC'', gap1 = [], l_base = ''BTC'',
        gap2 = [], l_min = ''0.5'', gap3 = [], l_name = ''BTC-LTC'', gap4 = [], l_active = ''true'', gap5 = []\<rparr>"
  have 1: "val_ok (markets_answer [] ''true'' [] [?l] [])"
    "ntoks (markets_answer [] ''true'' [] [?l] []) \<le> length (replicate 20 stale)"
    "json_int_of ''true'' = Inr 1"
    by code_simp+
  have 2: "\<forall>l\<in>set [?l]. listing_ok l"
    by (simp add: listing_ok_def free_of_def json_int_of_def)
  have 3: "json_double_of ''0.5'' = Fin 1 (-1)" by code_simp
  have "concat (map listing_market [?l]) = [\<lparr>market_name = Some ''BTC-LTC'', market_currency = Some ''LTC'',
      base_currency = Some ''BTC'', min_trade_size = Fin 1 (-1), fee = dbl_0_7\<rparr>]"
    by (simp add: listing_market_def json_int_of_def 3)
  then show ?thesis
    using bittrex_get_markets_listings [OF one_page_serves 1(1,2) free_of_Nil 1(3) _ 2 free_of_Nil free_of_Nil] by simp
qed

lemma bittrex_books_read:
  assumes "base_currency m = Some base" "market_currency m = Some mkt" "length base + length mkt \<le> 9"
    and "serves perform (''https://bittrex.com/api/v1.1/public/getorderbook?market='' @ base @ ''-'' @ mkt @
      ''&type=both&depth=50'') (render (book_answer a s b buy sell c))"
    and "val_ok (book_answer a s b buy sell c)" "ntoks (book_answer a s b buy sell c) \<le> length ts0"
    and "free_of ''success'' a" "json_int_of s = Inr z" "z \<noteq> 0"
    and "free_of ''sell'' b" "free_of ''Quantity'' b" "free_of ''Quantity'' c"
  shows "bittrex_get_books perform True ts0 m = Inr (zip_sides (map bid_of buy) (map ask_of sell))"
  using https_get_serves(2) [OF assms(4)] render_no_NUL(1) [OF assms(5)] parse_book_answer [OF assms(5-)] assms(1-3)
  by (simp add: bittrex_get_books_def print_str_def bittrex_build_url_def bittrex_url_def Let_def)

text \<open>
  C16. For a market whose two currency names have at most nine characters together, \<^verbatim>\<open>bittrex_get_books\<close>
  asks for the order book of exactly that market, and when the exchange answers with the levels to buy
  and to sell, it returns a book whose \<open>i\<close>-th entry holds the \<open>i\<close>-th bid and the \<open>i\<close>-th ask, the
  shorter side padded with zeros.
\<close>

theorem bittrex_get_books_levels:
  assumes "base_currency m = Some base" "market_currency m = Some mkt" "length base + length mkt \<le> 9"
    and "serves perform (''https://bittrex.com/api/v1.1/public/getorderbook?market='' @ base @ ''-'' @ mkt @
      ''&type=both&depth=50'') (render (book_answer a s b buy sell c))"
    and "val_ok (book_answer a s b buy sell c)" "ntoks (book_answer a s b buy sell c) \<le> length ts0"
    and "free_of ''success'' a" "json_int_of s = Inr z" "z \<noteq> 0"
    and "free_of ''sell'' b" "free_of ''Quantity'' b" "free_of ''Quantity'' c"
  shows "bittrex_get_books perform True ts0 m = Inr (zip_sides (map bid_of buy) (map ask_of sell))"
  by (rule bittrex_books_read [OF assms])

theorem bittrex_get_books_levels_witness:
  "bittrex_get_books (one_page
     ''https://bittrex.com/api/v1.1/public/getorderbook?market=BTC-LTC&type=both&depth=50''
     (render (book_answer [] ''true'' [] [(''1'', ''2'')] [(''3'', ''4''), (''5'', ''6'')] []))) True (replicate 30 stale)
     (market_new\<lparr>base_currency := Some ''BTC'', market_currency := Some ''LTC''\<rparr>) =
   Inr [\<lparr>bid_qty = Fin 1 0, bid_price = Fin 1 1, ask_qty = Fin 3 0, ask_price = Fin 1 2\<rparr>,
        \<lparr>bid_qty = Fin 0 0, bid_price = Fin 0 0, ask_qty = Fin 5 0, ask_price = Fin 3 1\<rparr>]"
proof -
  let ?v = "book_answer [] ''true'' [] [(''1'', ''2'')] [(''3'', ''4''), (''5'', ''6'')] []"
  let ?m = "market_new\<lparr>base_currency := Some ''BTC'', market_currency := Some ''LTC''\<rparr>"
  let ?u = "''https://bittrex.com/api/v1.1/public/getorderbook?market='' @ ''BTC'' @ ''-'' @ ''LTC'' @
    ''&type=both&depth=50''"
  have 1: "val_ok ?v" "ntoks ?v \<le> length (replicate 30 stale)" "json_int_of ''true'' = Inr 1"
    by code_simp+
  have 2: "zip_sides (map bid_of [(''1'', ''2'')]) (map ask_of [(''3'', ''4''), (''5'', ''6'')]) =
    [\<lparr>bid_qty = Fin 1 0, bid_price = Fin 1 1, ask_qty = Fin 3 0, ask_price = Fin 1 2\<rparr>,
     \<lparr>bid_qty = Fin 0 0, bid_price = Fin 0 0, ask_qty = Fin 5 0, ask_price = Fin 3 1\<rparr>]"
    by code_simp
  have 3: "serves (one_page ?u (render ?v)) ?u (render ?v)" by (rule one_page_serves)
  show ?thesis
    using bittrex_get_books_levels [OF _ _ _ 3 1(1,2) free_of_Nil 1(3) _ free_of_Nil free_of_Nil free_of_Nil, of ?m] 2
    by simp
qed

text \<open>The URL of a balance query.\<close>

definition balance_url :: "nat \<times> nat \<Rightarrow> string \<Rightarrow> string" where
  "balance_url tval cur =
     ''https://bittrex.com/api/v1.1/account/getbalance?apikey='' @ bittrex_apikey @ ''&nonce='' @
     utils_https_get_nonce tval @ ''&currency='' @ cur"

text \<open>
  C26. \<^verbatim>\<open>bittrex_balance\<close> sends a query whose header is the hexadecimal HMAC of exactly the URL it asks
  for. When the exchange answers that request with an object that holds the currency, the balance, the
  available and the pending amount in this order, with other members around them, the call returns
  these four values, whether the numbers are written as JSON numbers or as strings.
\<close>

theorem bittrex_balance_signed:
  assumes "hmac bittrex_apisecret (balance_url tval cur) = Some mac" "length mac = 64"
    and "perform (get_request [''apisign: '' @ concat (map byte_hex mac)] (balance_url tval cur)) = (True, pieces)"
    and "pieces \<noteq> []" "concat pieces = render (balance_answer a w c)"
    and "val_ok (balance_answer a w c)" "ntoks (balance_answer a w c) \<le> length ts0"
    and "free_of ''Currency'' a" "wallet_ok w"
  shows "bittrex_balance perform True hmac tval ts0 cur =
    Inr (Some \<lparr>currency = Some (w_currency w), total = num_of (w_balance w),
      pending = num_of (w_pending w), available = num_of (w_available w)\<rparr>)"
proof -
  let ?c = "utils_https_add_header (utils_https_new True) ''apisign'' (Some (concat (map byte_hex mac)))"
  have "headers ?c = [''apisign: '' @ concat (map byte_hex mac)]" "conn_curl ?c"
    by (simp_all add: utils_https_add_header_def utils_https_new_def)
  then have "answer_text (snd (utils_https_get perform ?c (balance_url tval cur))) = Inr (render (balance_answer a w c))"
    using assms(3-5) render_no_NUL(1) [OF assms(6)] by (intro https_get_headers) auto
  then show ?thesis
    using sign_hex [of hmac, OF assms(1,2)] bittrex_parse_wallet [OF assms(6-)]
    by (simp add: bittrex_balance_def balance_url_def bittrex_url_def Let_def)
qed

theorem bittrex_balance_signed_witness:
  "bittrex_balance (\<lambda>req. (True, [render (balance_answer [(Some ''success'', JPrim ''true'')]
     \<lparr>w_currency = ''BTC'', w_gap1 = [], w_balance = JPrim ''1.5'', w_gap2 = [], w_available = JStr ''1'',
      w_gap3 = [], w_pending = JPrim ''0.5'', w_gap4 = []\<rparr> [])])) True (\<lambda>k m. Some (replicate 64 7)) (1500000000, 12)
     (replicate 20 stale) ''BTC'' =
   Inr (Some \<lparr>currency = Some ''BTC'', total = Fin 3 (-1), pending = Fin 1 (-1), available = Fin 1 0\<rparr>)"
proof -
  let ?w = "\<lparr>w_currency = ''BTC'', w_gap1 = [], w_balance = JPrim ''1.5'', w_gap2 = [], w_available = JStr ''1'',
      w_gap3 = [], w_pending = JPrim ''0.5'', w_gap4 = []\<rparr>"
  let ?v = "balance_answer [(Some ''success'', JPrim ''true'')] ?w []"
  have 1: "val_ok ?v" "ntoks ?v \<le> length (replicate 20 stale)" "free_of ''Currency'' [(Some ''success'', JPrim ''true'')]"
    by code_simp+
  have 2: "wallet_ok ?w" by (simp add: wallet_ok_def scalar_not_def)
  have 3: "num_of (JPrim ''1.5'') = Fin 3 (-1)" "num_of (JStr ''1'') = Fin 1 0" "num_of (JPrim ''0.5'') = Fin 1 (-1)"
    by code_simp+
  show ?thesis
    using bittrex_balance_signed [of "\<lambda>k m. Some (replicate 64 7)" _ _ _ "\<lambda>req. (True, [render ?v])",
        OF refl _ refl _ _ 1 2] by (simp add: 3)
qed

end
