(* ===== verification/Btc38Spec.thy ===== *)
theory Btc38Spec
  imports Btc38 LevelView
begin

section \<open>What the btc38 parsers return\<close>

text \<open>
  As \<open>BittrexSpec\<close>: the answers as JSON values, the results of the parsers on their texts.
\<close>

subsection \<open>Tickers\<close>

text \<open>A ticker: its name, the tag's value and the members behind it.\<close>

type_synonym ticker = "string \<times> jval \<times> (string option \<times> jval) list"

definition ticker_item :: "string \<Rightarrow> ticker \<Rightarrow> string option \<times> jval" where
  "ticker_item tag t = (Some (fst t), JNode True ((Some tag, fst (snd t)) # snd (snd t)))"

definition ticker_ok :: "string \<Rightarrow> ticker \<Rightarrow> bool" where
  "ticker_ok tag t \<longleftrightarrow> fst t \<noteq> tag \<and> (JSMN_STRING, tag) \<notin> set (flat (fst (snd t))) \<and> free_of tag (snd (snd t))"

definition tickers_answer :: "string \<Rightarrow> ticker list \<Rightarrow> jval" where
  "tickers_answer tag tks = JNode True (map (ticker_item tag) tks)"

lemma flat_ticker:
  "flat_item (ticker_item tag t) =
     (JSMN_STRING, fst t) # (JSMN_OBJECT, render (snd (ticker_item tag t))) # (JSMN_STRING, tag) #
     flat (fst (snd t)) @ flat_items (snd (snd t))"
  by (simp add: ticker_item_def node_type_def)

lemma market_before_views:
  assumes v: "views data ts n ws"
    and d: "drop i ws = us @ (JSMN_STRING, name) # o' # (JSMN_STRING, tag) # rest"
    and "(JSMN_STRING, tag) \<notin> set us" "name \<noteq> tag" "fst o' \<noteq> JSMN_STRING"
  shows "market_before tag data ts n (int i) = Inr (int (i + length us + 2), name)"
    and "drop (i + length us + 3) ws = rest"
proof -
  let ?us = "us @ [(JSMN_STRING, name), o']"
  have d': "drop i ws = ?us @ (JSMN_STRING, tag) # rest" using d by simp
  have free: "(JSMN_STRING, tag) \<notin> set ?us" using assms(3-5) by (auto intro: ccontr)
  have len: "i + length us < length ws" using arg_cong [OF d, of length] by simp
  have at: "ws ! (i + length us) = (JSMN_STRING, name)"
    using arg_cong [OF d, of "\<lambda>xs. xs ! length us"] len by (simp add: nth_append)
  have "json_find_token data ts n (int i) tag = Inr (int (i + length us + 2))"
    unfolding find_token_views [OF v] d' find_str_skip [OF free] by (simp add: as_pos_def)
  then show "market_before tag data ts n (int i) = Inr (int (i + length us + 2), name)"
    using views_arr_get [OF v, of "int (i + length us)"] at len v
    by (auto simp: market_before_def views_def nat_int_add)
  show "drop (i + length us + 3) ws = rest"
    using arg_cong [OF d, of "drop (length us + 3)"] by (simp add: add.commute add.left_commute)
qed

lemma market_before_none:
  assumes "views data ts n ws" "(JSMN_STRING, tag) \<notin> set (drop i ws)"
  shows "market_before tag data ts n (int i) = Inr (0, [])"
  using find_token_views [OF assms(1), of i tag] assms(2)
  by (simp add: find_str_None [THEN iffD2] market_before_def as_pos_def)

lemma btc38_market_loop_tickers:
  assumes v: "views data ts n ws"
  shows "\<lbrakk>0 < i; drop i ws = us @ flat_items (map (ticker_item ''ticker'') tks);
      (JSMN_STRING, ''ticker'') \<notin> set us; \<forall>t\<in>set tks. ticker_ok ''ticker'' t\<rbrakk> \<Longrightarrow>
    btc38_market_loop data ts n base (int i) head = Inr (head @ map (\<lambda>t. btc38_market base (fst t)) tks)"
proof (induction tks arbitrary: i us head)
  case Nil
  then show ?case
    using market_before_none [OF v, of "''ticker''" i]
    by (subst btc38_market_loop.simps) (simp add: find_next_market_type_def)
next
  case (Cons t tks)
  let ?rest = "flat (fst (snd t)) @ flat_items (snd (snd t)) @ flat_items (map (ticker_item ''ticker'') tks)"
  have t: "ticker_ok ''ticker'' t" using Cons.prems(4) by simp
  have d: "drop i ws = us @ (JSMN_STRING, fst t) # (JSMN_OBJECT, render (snd (ticker_item ''ticker'' t))) #
      (JSMN_STRING, ''ticker'') # ?rest"
    using Cons.prems(2) by (simp add: flat_ticker)
  note step = market_before_views [OF v d Cons.prems(3)]
  have "btc38_market_loop data ts n base (int (i + length us + 3)) (head @ [btc38_market base (fst t)]) =
      Inr ((head @ [btc38_market base (fst t)]) @ map (\<lambda>t. btc38_market base (fst t)) tks)"
    by (rule Cons.IH [of _ "flat (fst (snd t)) @ flat_items (snd (snd t))"])
      (use step t Cons.prems(4) in \<open>auto simp: ticker_ok_def free_of_def\<close>)
  then show ?case
    using step t Cons.prems(1)
    by (subst btc38_market_loop.simps) (simp add: find_next_market_type_def ticker_ok_def add.commute)
qed

lemma btc38_parse_tickers:
  assumes ok: "val_ok (tickers_answer ''ticker'' tks)"
    and room: "ntoks (tickers_answer ''ticker'' tks) \<le> length ts0"
    and tks: "\<forall>t\<in>set tks. ticker_ok ''ticker'' t"
  shows "btc38_parse_market ts0 (render (tickers_answer ''ticker'' tks)) base =
    Inr (map (\<lambda>t. btc38_market base (fst t)) tks)"
proof -
  let ?v = "tickers_answer ''ticker'' tks"
  obtain ts where ts: "json_parse (render ?v) ts0 = Inr (ntoks ?v, ts)" "views (render ?v) ts (ntoks ?v) (flat ?v)"
    using json_parse_render [OF ok room] by metis
  have "btc38_market_loop (render ?v) ts (ntoks ?v) base (int 1) [] = Inr ([] @ map (\<lambda>t. btc38_market base (fst t)) tks)"
    by (rule btc38_market_loop_tickers [OF ts(2), where us = "[]"])
      (use tks in \<open>auto simp: tickers_answer_def\<close>)
  then show ?thesis
    using ts by (simp add: btc38_parse_market_def)
qed

subsection \<open>Order books\<close>

definition bid_level :: "level \<Rightarrow> book \<Rightarrow> book" where
  "bid_level l = set_bid (num_of (fst l)) (num_of (snd l))"

definition ask_level :: "level \<Rightarrow> book \<Rightarrow> book" where
  "ask_level l = set_ask (num_of (fst l)) (num_of (snd l))"

definition depth_answer :: "(string option \<times> jval) list \<Rightarrow> level list \<Rightarrow> level list \<Rightarrow> jval" where
  "depth_answer a bids asks =
     JNode True (a @ [(Some ''bids'', JArr (map level_arr bids)), (Some ''asks'', JArr (map level_arr asks))])"

lemma flat_items_levels: "concat (map flat (map level_arr ls)) = flat_levels ls"
  by (induction ls) auto

text \<open>The bid loop stops when the level it has just read is the last one before the end.\<close>

lemma btc38_bid_loop_levels:
  assumes v: "views data ts n ws"
  shows "\<lbrakk>drop i ws = flat_levels ls @ rest; \<forall>l\<in>set ls. level_ok l; sell_pos = int i + 3 * int (length ls)\<rbrakk> \<Longrightarrow>
    btc38_bid_loop data ts sell_pos (int i + 1) bk =
      Inr (bk @ map (\<lambda>l. bid_level l book_new) (butlast ls))"
proof (induction ls arbitrary: i bk)
  case Nil
  then show ?case by (subst btc38_bid_loop.simps) simp
next
  case (Cons l ls)
  have ok: "level_ok l" using Cons.prems by simp
  have d: "drop i ws = flat (level_arr l) @ flat_levels ls @ rest" using Cons.prems by simp
  note r = read_level [OF v d ok]
  show ?case
  proof (cases ls)
    case Nil
    then show ?thesis
      using r Cons.prems by (subst btc38_bid_loop.simps) (simp add: add.commute)
  next
    case (Cons l' ls')
    have "btc38_bid_loop data ts sell_pos (int (i + 3) + 1) (bk @ [bid_level l book_new]) =
        Inr ((bk @ [bid_level l book_new]) @ map (\<lambda>l. bid_level l book_new) (butlast ls))"
      by (rule Cons.IH) (use r Cons.prems in auto)
    then show ?thesis
      using r Cons.prems Cons by (subst btc38_bid_loop.simps) (simp add: bid_level_def add.commute)
  qed
qed

lemma btc38_ask_loop_levels:
  assumes v: "views data ts n ws"
  shows "\<lbrakk>drop i ws = flat_levels ls @ rest; \<forall>l\<in>set ls. level_ok l; tok_no = i + 3 * length ls; ls \<noteq> []\<rbrakk> \<Longrightarrow>
    btc38_ask_loop data ts tok_no (int i + 1) (zip_sides fs gs) (length gs) =
      Inr (zip_sides fs (gs @ map ask_level (butlast ls)))"
proof (induction ls arbitrary: i gs)
  case (Cons l ls)
  have ok: "level_ok l" using Cons.prems by simp
  have d: "drop i ws = flat (level_arr l) @ flat_levels ls @ rest" using Cons.prems by simp
  note r = read_level [OF v d ok]
  show ?case
  proof (cases "ls = []")
    case True
    then show ?thesis
      using r Cons.prems by (subst btc38_ask_loop.simps) (simp add: add.commute)
  next
    case False
    have "btc38_ask_loop data ts tok_no (int (i + 3) + 1) (zip_sides fs (gs @ [ask_level l]))
        (length (gs @ [ask_level l])) = Inr (zip_sides fs ((gs @ [ask_level l]) @ map ask_level (butlast ls)))"
      by (rule Cons.IH) (use r Cons.prems False in auto)
    moreover have "1 \<le> int (length ls)" using False by (cases ls) auto
    ultimately show ?thesis
      using r Cons.prems False
      by (subst btc38_ask_loop.simps) (simp add: ask_level_def zip_sides_snoc add.commute)
  qed
qed simp

lemma btc38_parse_book_steps:
  "\<lbrakk>json_parse data ts0 = Inr (n, ts); json_find_token data ts n 0 ''asks'' = Inr s; s \<noteq> 0;
    json_find_token data ts n 0 ''bids'' = Inr b; btc38_bid_loop data ts s (b + 3) [] = Inr bk;
    btc38_ask_loop data ts n (s + 3) bk 0 = Inr r\<rbrakk> \<Longrightarrow> btc38_parse_book ts0 data = Inr r"
  by (simp add: btc38_parse_book_def)

lemma btc38_parse_depth:
  assumes ok: "val_ok (depth_answer a bids asks)"
    and room: "ntoks (depth_answer a bids asks) \<le> length ts0"
    and a: "free_of ''bids'' a" "free_of ''asks'' a"
    and levels: "\<forall>l\<in>set (bids @ asks). level_ok l" and asks: "asks \<noteq> []"
  shows "btc38_parse_book ts0 (render (depth_answer a bids asks)) =
    Inr (zip_sides (map bid_level (butlast bids)) (map ask_level (butlast asks)))"
proof -
  let ?v = "depth_answer a bids asks" and ?A = "JArr (map level_arr asks)" and ?B = "JArr (map level_arr bids)"
  let ?data = "render ?v" and ?n = "ntoks ?v" and ?ws = "flat ?v"
  obtain ts where ts: "json_parse ?data ts0 = Inr (?n, ts)" "views ?data ts ?n ?ws"
    using json_parse_render [OF ok room] by metis
  define pre where "pre = (JSMN_OBJECT, ?data) # flat_items a"
  have lens: "length (flat_levels bids) = 3 * length bids" "length (flat_levels asks) = 3 * length asks"
    using levels by (auto intro: length_flat_levels)
  have ws: "?ws = pre @ (JSMN_STRING, ''bids'') # (JSMN_ARRAY, render ?B) # flat_levels bids @
      (JSMN_STRING, ''asks'') # (JSMN_ARRAY, render ?A) # flat_levels asks"
    by (simp add: depth_answer_def pre_def node_type_def flat_items_levels del: map_map)
  have n: "?n = length ?ws" using ts(2) by (simp add: views_def)
  have b: "json_find_token ?data ts ?n 0 ''bids'' = Inr (int (length pre))"
      "drop (length pre + 1) ?ws = (JSMN_ARRAY, render ?B) # flat_levels bids @
         (JSMN_STRING, ''asks'') # (JSMN_ARRAY, render ?A) # flat_levels asks"
    using a by (intro find_tag_views [OF ts(2) ws]; auto simp: pre_def free_of_def)+
  let ?us = "pre @ (JSMN_STRING, ''bids'') # (JSMN_ARRAY, render ?B) # flat_levels bids"
  have ws': "?ws = ?us @ (JSMN_STRING, ''asks'') # (JSMN_ARRAY, render ?A) # flat_levels asks"
    using ws by simp
  have s: "json_find_token ?data ts ?n 0 ''asks'' = Inr (int (length ?us))"
      "drop (length ?us + 1) ?ws = (JSMN_ARRAY, render ?A) # flat_levels asks"
    using a levels flat_levels_tags [of bids "''asks''"]
    by (intro find_tag_views [OF ts(2) ws']; auto simp: pre_def free_of_def)+
  define sp where "sp = length ?us"
  note s = s [folded sp_def]
  have sp: "0 < sp" by (simp add: sp_def pre_def)
  have db: "drop (length pre + 2) ?ws = flat_levels bids @ drop sp ?ws"
    using drop_step [OF b(2)] ws' by (simp add: sp_def)
  have da: "drop (sp + 2) ?ws = flat_levels asks @ []"
    using drop_step [OF s(2)] by (simp only: append_Nil2 add.assoc one_add_one)
  have bids: "btc38_bid_loop ?data ts (int sp) (int (length pre + 2) + 1) [] =
      Inr ([] @ map (\<lambda>l. bid_level l book_new) (butlast bids))"
    by (rule btc38_bid_loop_levels [OF ts(2) db]) (use levels lens in \<open>auto simp: sp_def\<close>)
  have asks: "btc38_ask_loop ?data ts ?n (int (sp + 2) + 1)
      (zip_sides (map bid_level (butlast bids)) []) (length ([] :: (book \<Rightarrow> book) list)) =
      Inr (zip_sides (map bid_level (butlast bids)) ([] @ map ask_level (butlast asks)))"
    by (rule btc38_ask_loop_levels [OF ts(2) da]) (use levels lens asks n ws' in \<open>auto simp: sp_def\<close>)
  show ?thesis
    by (rule btc38_parse_book_steps [OF ts(1) s(1) _ b(1)])
      (use bids asks sp in \<open>simp_all add: add.commute\<close>)
qed

subsection \<open>Balances\<close>

definition currency_code :: "string \<Rightarrow> string" where
  "currency_code cur = map to_lower (take 3 cur)"

definition funds_answer ::
    "string \<Rightarrow> (string option \<times> jval) list \<Rightarrow> jval \<Rightarrow> (string option \<times> jval) list \<Rightarrow> jval \<Rightarrow>
     (string option \<times> jval) list \<Rightarrow> jval" where
  "funds_answer cur a bal b lock c =
     JNode True (a @ (Some (currency_code cur @ ''_balance''), bal) # b @
       (Some (currency_code cur @ ''_balance_lock''), lock) # c)"

lemma to_lower_NUL: "to_lower c = NUL \<longleftrightarrow> c = NUL"
proof -
  have "c = NUL" if "is_upper c" "char_of (char_code c + 32) = NUL"
  proof -
    have "of_char (char_of (char_code c + 32) :: char) = (0 :: nat)" using that(2) by (simp add: NUL_def)
    moreover have "char_code c + 32 < 256" using that(1) by (simp add: is_upper_def)
    ultimately show ?thesis by simp
  qed
  moreover have "\<not> is_upper NUL" by (simp add: is_upper_def char_code_def NUL_def)
  ultimately show ?thesis by (auto simp: to_lower_def)
qed

lemma currency_tag_code:
  assumes "3 \<le> length cur" "NUL \<notin> set cur" "NUL \<notin> set suffix"
  shows "currency_tag cur suffix = Inr (currency_code cur @ suffix)"
proof -
  obtain a b c rest where cur: "cur = a # b # c # rest"
    using assms(1) by (auto simp: numeral_3_eq_3 Suc_le_length_iff)
  have "takeWhile (\<lambda>x. x \<noteq> NUL) suffix = suffix"
    using assms(3) by (auto simp: takeWhile_eq_all_conv)
  then show ?thesis
    using assms(2) by (auto simp: cur currency_tag_def str_read_def js_at_def to_lower_NUL currency_code_def)
qed

lemma btc38_parse_funds:
  assumes ok: "val_ok (funds_answer cur a bal b lock c)"
    and room: "4 * ntoks (funds_answer cur a bal b lock c) \<le> length (render (funds_answer cur a bal b lock c))"
    and cur: "3 \<le> length cur" "NUL \<notin> set cur"
    and nums: "scalar_view bal = Some v" "scalar_view lock = Some w"
      "v \<noteq> (JSMN_STRING, currency_code cur @ ''_balance_lock'')"
    and gaps: "free_of (currency_code cur @ ''_balance'') a" "free_of (currency_code cur @ ''_balance_lock'') b"
  shows "btc38_parse_balance stack cur (render (funds_answer cur a bal b lock c)) =
    Inr (Some \<lparr>currency = Some cur, total = num_of bal, pending = num_of lock,
      available = dbl_sub (num_of bal) (num_of lock)\<rparr>)"
proof -
  let ?v = "funds_answer cur a bal b lock c" and ?t1 = "currency_code cur @ ''_balance''"
  let ?t2 = "currency_code cur @ ''_balance_lock''"
  let ?data = "render ?v" and ?n = "ntoks ?v" and ?ws = "flat ?v"
  define ts0 where "ts0 = map stack [0..<length ?data div 4]"
  have n: "?n \<noteq> 0" by (simp add: funds_answer_def)
  have room': "?n \<le> length ts0" using room by (simp add: ts0_def)
  then have arr: "quarter_array stack ?data = Inr ts0"
    using n unfolding quarter_array_def ts0_def by (simp only: Let_def length_map length_upt) auto
  obtain ts where ts: "json_parse ?data ts0 = Inr (?n, ts)" "views ?data ts ?n ?ws"
    using json_parse_render [OF ok room'] by metis
  let ?rest = "flat_items b @ (JSMN_STRING, ?t2) # flat lock @ flat_items c"
  obtain p where p: "json_find_token ?data ts ?n (int 0) ?t1 = Inr (int p)"
      "\<And>d. token_double ?data ts (int p + 1) d = Inr (num_of bal)" "drop (p + 1) ?ws = v # ?rest"
    by (rule seek_number [OF ts(2) _ _ nums(1), of 0 "(JSMN_OBJECT, ?data) # flat_items a" ?t1 ?rest])
      (use gaps in \<open>auto simp: funds_answer_def free_of_def node_type_def\<close>)
  obtain q where q: "json_find_token ?data ts ?n (int (p + 1)) ?t2 = Inr (int q)"
      "\<And>d. token_double ?data ts (int q + 1) d = Inr (num_of lock)"
    by (rule seek_number [OF ts(2) _ _ nums(2), of "p + 1" "v # flat_items b" ?t2 "flat_items c"])
      (use gaps nums p(3) in \<open>auto simp: free_of_def\<close>)
  have "NUL \<notin> set ''_balance''" "NUL \<notin> set ''_balance_lock''" by (simp_all add: NUL_def)
  note tags = currency_tag_code [OF cur this(1)] currency_tag_code [OF cur this(2)]
  show ?thesis
    using arr ts(1) p(1,2) q
    by (simp add: btc38_parse_balance_def tags balance_new_def add.commute)
qed

subsection \<open>The calls of the exchange\<close>

lemma btc38_markets_listed:
  assumes "serves perform ''http://api.btc38.com/v1/ticker.php?c=all&mk_type=btc'' (render (tickers_answer ''ticker'' btc))"
    and "serves perform ''http://api.btc38.com/v1/ticker.php?c=all&mk_type=cny'' (render (tickers_answer ''ticker'' cny))"
    and "val_ok (tickers_answer ''ticker'' btc)" "ntoks (tickers_answer ''ticker'' btc) \<le> length ts0"
    and "val_ok (tickers_answer ''ticker'' cny)" "ntoks (tickers_answer ''ticker'' cny) \<le> length ts0"
    and "\<forall>t\<in>set (btc @ cny). ticker_ok ''ticker'' t"
  shows "btc38_get_markets perform True ts0 =
    (if btc = [] then Inl BadPointer
     else Inr (map (\<lambda>t. btc38_market ''btc'' (fst t)) btc @ map (\<lambda>t. btc38_market ''cny'' (fst t)) cny))"
  using https_get_serves [OF assms(1)] https_get_serves [OF assms(2)] render_no_NUL(1) [OF assms(3)]
    render_no_NUL(1) [OF assms(5)] btc38_parse_tickers [OF assms(3,4)] btc38_parse_tickers [OF assms(5,6)] assms(7)
  by (simp add: btc38_get_markets_def btc38_build_url_def btc38_url_def Let_def)

text \<open>
  C18. When btc38 answers its two ticker queries, \<^verbatim>\<open>btc38_get_markets\<close> returns the markets against BTC in
  the order of the first answer followed by the markets against CNY in the order of the second, each
  with both names in upper case. If the first answer names no market, the call follows a null pointer.
\<close>

theorem btc38_get_markets_tickers:
  assumes "serves perform ''http://api.btc38.com/v1/ticker.php?c=all&mk_type=btc'' (render (tickers_answer ''ticker'' btc))"
    and "serves perform ''http://api.btc38.com/v1/ticker.php?c=all&mk_type=cny'' (render (tickers_answer ''ticker'' cny))"
    and "val_ok (tickers_answer ''ticker'' btc)" "ntoks (tickers_answer ''ticker'' btc) \<le> length ts0"
    and "val_ok (tickers_answer ''ticker'' cny)" "ntoks (tickers_answer ''ticker'' cny) \<le> length ts0"
    and "\<forall>t\<in>set (btc @ cny). ticker_ok ''ticker'' t"
  shows "btc38_get_markets perform True ts0 =
    (if btc = [] then Inl BadPointer
     else Inr (map (\<lambda>t. btc38_market ''btc'' (fst t)) btc @ map (\<lambda>t. btc38_market ''cny'' (fst t)) cny))"
  by (rule btc38_markets_listed [OF assms])

theorem btc38_get_markets_tickers_witness:
  "btc38_get_markets (\<lambda>req. (True, [render (if req_url req = ''http://api.btc38.com/v1/ticker.php?c=all&mk_type=btc''
       then tickers_answer ''ticker'' [(''ltc'', JPrim ''1'', [])]
       else tickers_answer ''ticker'' [(''btc'', JPrim ''2'', [])])])) True (replicate 9 stale) =
   Inr [\<lparr>market_name = Some ''?c=btc&mk_type=ltc'', market_currency = Some ''LTC'', base_currency = Some ''BTC'',
          min_trade_size = dbl_0, fee = dbl_0_7\<rparr>,
        \<lparr>market_name = Some ''?c=cny&mk_type=btc'', market_currency = Some ''BTC'', base_currency = Some ''CNY'',
          min_trade_size = dbl_0, fee = dbl_0_7\<rparr>]"
proof -
  let ?b = "[(''ltc'', JPrim ''1'', [])] :: ticker list" and ?c = "[(''btc'', JPrim ''2'', [])] :: ticker list"
  let ?p = "\<lambda>req. (True, [render (if req_url req = ''http://api.btc38.com/v1/ticker.php?c=all&mk_type=btc''
       then tickers_answer ''ticker'' ?b else tickers_answer ''ticker'' ?c)])"
  have 1: "val_ok (tickers_answer ''ticker'' ?b)" "ntoks (tickers_answer ''ticker'' ?b) \<le> length (replicate 9 stale)"
      "val_ok (tickers_answer ''ticker'' ?c)" "ntoks (tickers_answer ''ticker'' ?c) \<le> length (replicate 9 stale)"
    by code_simp+
  have 2: "\<forall>t\<in>set (?b @ ?c). ticker_ok ''ticker'' t" by (simp add: ticker_ok_def)
  have 3: "serves ?p ''http://api.btc38.com/v1/ticker.php?c=all&mk_type=btc'' (render (tickers_answer ''ticker'' ?b))"
      "serves ?p ''http://api.btc38.com/v1/ticker.php?c=all&mk_type=cny'' (render (tickers_answer ''ticker'' ?c))"
    by (simp_all add: serves_def get_request_def)
  have 4: "btc38_market ''btc'' ''ltc'' = \<lparr>market_name = Some ''?c=btc&mk_type=ltc'', market_currency = Some ''LTC'',
        base_currency = Some ''BTC'', min_trade_size = dbl_0, fee = dbl_0_7\<rparr>"
      "btc38_market ''cny'' ''btc'' = \<lparr>market_name = Some ''?c=cny&mk_type=btc'', market_currency = Some ''BTC'',
        base_currency = Some ''CNY'', min_trade_size = dbl_0, fee = dbl_0_7\<rparr>"
    by code_simp+
  show ?thesis
    using btc38_get_markets_tickers [OF 3 1 2] by (simp add: 4)
qed

lemma btc38_books_read:
  assumes "market_name m = Some name"
    and "serves perform (''http://api.btc38.com/v1/depth.php'' @ name) (render (depth_answer a bids asks))"
    and "val_ok (depth_answer a bids asks)" "ntoks (depth_answer a bids asks) \<le> length ts0"
    and "free_of ''bids'' a" "free_of ''asks'' a" "\<forall>l\<in>set (bids @ asks). level_ok l" "asks \<noteq> []"
  shows "btc38_get_books perform True ts0 m =
    Inr (zip_sides (map bid_level (butlast bids)) (map ask_level (butlast asks)))"
  using https_get_serves(2) [OF assms(2)] render_no_NUL(1) [OF assms(3)] btc38_parse_depth [OF assms(3-)] assms(1)
  by (simp add: btc38_get_books_def print_str_def btc38_build_url_def btc38_url_def Let_def)

text \<open>
  C30. When btc38 answers the depth query of a market with the bids and the asks as its last two members,
  \<^verbatim>\<open>btc38_get_books\<close> pairs the levels of the two sides in order, the shorter side padded with zeros;
  the last level of each side is left out.
\<close>

theorem btc38_get_books_depth:
  assumes "market_name m = Some name"
    and "serves perform (''http://api.btc38.com/v1/depth.php'' @ name) (render (depth_answer a bids asks))"
    and "val_ok (depth_answer a bids asks)" "ntoks (depth_answer a bids asks) \<le> length ts0"
    and "free_of ''bids'' a" "free_of ''asks'' a" "\<forall>l\<in>set (bids @ asks). level_ok l" "asks \<noteq> []"
  shows "btc38_get_books perform True ts0 m =
    Inr (zip_sides (map bid_level (butlast bids)) (map ask_level (butlast asks)))"
  by (rule btc38_books_read [OF assms])

theorem btc38_get_books_depth_witness:
  "btc38_get_books (one_page ''http://api.btc38.com/v1/depth.php?c=btc&mk_type=ltc''
     (render (depth_answer [] [(JPrim ''1'', JPrim ''2''), (JPrim ''7'', JPrim ''8'')]
        [(JStr ''3'', JPrim ''4''), (JPrim ''5'', JPrim ''6''), (JPrim ''7'', JPrim ''8'')]))) True (replicate 30 stale)
     (btc38_market ''btc'' ''ltc'') =
   Inr [\<lparr>bid_qty = Fin 1 0, bid_price = Fin 1 1, ask_qty = Fin 3 0, ask_price = Fin 1 2\<rparr>,
        \<lparr>bid_qty = Fin 0 0, bid_price = Fin 0 0, ask_qty = Fin 5 0, ask_price = Fin 3 1\<rparr>]"
proof -
  let ?b = "[(JPrim ''1'', JPrim ''2''), (JPrim ''7'', JPrim ''8'')]"
  let ?a = "[(JStr ''3'', JPrim ''4''), (JPrim ''5'', JPrim ''6''), (JPrim ''7'', JPrim ''8'')]"
  let ?v = "depth_answer [] ?b ?a" and ?u = "''http://api.btc38.com/v1/depth.php'' @ ''?c=btc&mk_type=ltc''"
  have 1: "val_ok ?v" "ntoks ?v \<le> length (replicate 30 stale)" "market_name (btc38_market ''btc'' ''ltc'') = Some ''?c=btc&mk_type=ltc''"
    by code_simp+
  have 2: "\<forall>l\<in>set (?b @ ?a). level_ok l" by (simp add: level_ok_def num_ok_def)
  have 3: "zip_sides (map bid_level (butlast ?b)) (map ask_level (butlast ?a)) =
    [\<lparr>bid_qty = Fin 1 0, bid_price = Fin 1 1, ask_qty = Fin 3 0, ask_price = Fin 1 2\<rparr>,
     \<lparr>bid_qty = Fin 0 0, bid_price = Fin 0 0, ask_qty = Fin 5 0, ask_price = Fin 3 1\<rparr>]"
    by code_simp
  have 4: "serves (one_page ?u (render ?v)) ?u (render ?v)" by (rule one_page_serves)
  show ?thesis
    using btc38_get_books_depth [OF 1(3) 4 1(1,2) free_of_Nil free_of_Nil 2] 3 by simp
qed

text \<open>The body of a balance query: key, time and the MD5 of the four parts of the account.\<close>

definition account_line :: "nat \<times> nat \<Rightarrow> string" where
  "account_line tval = btc38_apikey @ ''_'' @ btc38_userid @ ''_'' @ btc38_apisecret @ ''_'' @ utils_https_get_nonce tval"

definition account_body :: "(string \<Rightarrow> 8 word list) \<Rightarrow> nat \<times> nat \<Rightarrow> string" where
  "account_body md5 tval =
     ''key='' @ btc38_apikey @ ''&time='' @ utils_https_get_nonce tval @ ''&md5='' @
     concat (map byte_hex (md5 (account_line tval)))"

text \<open>
  C31. \<^verbatim>\<open>btc38_balance\<close> posts the key, the time and the hexadecimal MD5 of the account line. When the answer
  holds the balance of the currency and after it its locked part, it returns both and their difference
  as the available amount, provided the answer is long enough for the token array the parser sizes by
  the length of the text.
\<close>

theorem btc38_balance_funds:
  assumes "length (md5 (account_line tval)) = 16"
    and "perform (post_request (utils_https_new True\<lparr>post_parameters := Some (account_body md5 tval)\<rparr>)
      ''http://api.btc38.com/v1/getMyBalance.php'') = (True, pieces)"
    and "pieces \<noteq> []" "concat pieces = render (funds_answer cur a bal b lock c)"
    and "val_ok (funds_answer cur a bal b lock c)"
    and "4 * ntoks (funds_answer cur a bal b lock c) \<le> length (render (funds_answer cur a bal b lock c))"
    and "3 \<le> length cur" "NUL \<notin> set cur"
    and "scalar_view bal = Some v" "scalar_view lock = Some w"
      "v \<noteq> (JSMN_STRING, currency_code cur @ ''_balance_lock'')"
    and "free_of (currency_code cur @ ''_balance'') a" "free_of (currency_code cur @ ''_balance_lock'') b"
  shows "btc38_balance perform True md5 tval stack cur =
    Inr (Some \<lparr>currency = Some cur, total = num_of bal, pending = num_of lock,
      available = dbl_sub (num_of bal) (num_of lock)\<rparr>)"
proof -
  let ?c = "utils_https_new True\<lparr>post_parameters := Some (account_body md5 tval)\<rparr>"
  let ?hex = "concat (map byte_hex (md5 (account_line tval)))"
  let ?k = "utils_https_add_post_parameter (utils_https_add_post_parameter (utils_https_new True) ''key'' btc38_apikey)
    ''time'' (utils_https_get_nonce tval)"
  have body: "utils_https_add_post_parameter ?k ''md5'' ?hex = ?c"
    by (simp add: utils_https_add_post_parameter_def utils_https_new_def account_body_def Let_def)
  have line: "snprintf (length btc38_apikey + length btc38_userid + length btc38_apisecret +
      length (utils_https_get_nonce tval) + 4) (account_line tval) = account_line tval"
    by (simp add: account_line_def)
  have hex: "utils_https_bytes_to_hex_string (md5 (account_line tval)) 16 = Inr (32, ?hex @ [NUL])" "length ?hex = 32"
    using bytes_to_hex_eq [of "md5 (account_line tval)"] assms(1) by (simp_all add: length_hex)
  have "conn_curl ?c" by (simp add: utils_https_new_def)
  with https_post_answer [of perform ?c, OF assms(2-4) render_no_NUL(1) [OF assms(5)]]
  have post: "answer_text (snd (utils_https_post perform ?c ''http://api.btc38.com/v1/getMyBalance.php'')) =
      Inr (render (funds_answer cur a bal b lock c))" .
  show ?thesis
    using post btc38_parse_funds [OF assms(5-)] hex [unfolded account_line_def] line [unfolded account_line_def]
      body [unfolded account_line_def]
    by (simp add: btc38_balance_def btc38_url_def Let_def)
qed

theorem btc38_balance_funds_witness:
  "btc38_balance (\<lambda>req. (True, [render (funds_answer ''BTC'' [] (JPrim ''1.5'') [] (JStr ''0.5'') [])])) True
     (\<lambda>s. replicate 16 9) (1500000000, 12) (\<lambda>i. stale) ''BTC'' =
   Inr (Some \<lparr>currency = Some ''BTC'', total = Fin 3 (-1), pending = Fin 1 (-1), available = Fin 1 0\<rparr>)"
proof -
  let ?v = "funds_answer ''BTC'' [] (JPrim ''1.5'') [] (JStr ''0.5'') []"
  have 1: "val_ok ?v" "4 * ntoks ?v \<le> length (render ?v)" "3 \<le> length ''BTC''" "NUL \<notin> set ''BTC''"
    by code_simp+
  have 2: "num_of (JPrim ''1.5'') = Fin 3 (-1)" "num_of (JStr ''0.5'') = Fin 1 (-1)" "dbl_sub (Fin 3 (-1)) (Fin 1 (-1)) = Fin 1 0"
    by code_simp+
  show ?thesis
    using btc38_balance_funds [of "\<lambda>s. replicate 16 9" _ "\<lambda>req. (True, [render ?v])", OF _ refl _ _ 1]
    by (simp add: 2 del: dbl_sub.simps)
qed

end
