(* ===== verification/PoloniexSpec.thy ===== *)
theory PoloniexSpec
  imports Poloniex Btc38Spec BittrexSpec
begin

section \<open>What the poloniex parsers return\<close>

subsection \<open>Tickers\<close>

lemma flat_items_Cons_ticker:
  "flat_items (map (ticker_item tag) (t # tks)) =
     (JSMN_STRING, fst t) # (JSMN_OBJECT, render (snd (ticker_item tag t))) # (JSMN_STRING, tag) #
     flat (fst (snd t)) @ flat_items (snd (snd t)) @ flat_items (map (ticker_item tag) tks)"
  by (simp add: flat_ticker)

lemma poloniex_market_loop_step:
  assumes v: "views data ts n ws"
    and d: "drop i ws = us @ flat_items (map (ticker_item ''id'') (t # tks))"
    and us: "(JSMN_STRING, ''id'') \<notin> set us" and t: "ticker_ok ''id'' t" and m: "poloniex_market (fst t) = Some m"
    and i: "0 < i"
  obtains i' us' where "i < i'" "drop i' ws = us' @ flat_items (map (ticker_item ''id'') tks)"
    "(JSMN_STRING, ''id'') \<notin> set us'"
    "\<And>fuel head. poloniex_market_loop (Suc fuel) data ts n (int i) head =
       poloniex_market_loop fuel data ts n (int i') (head @ [m])"
proof -
  let ?us = "flat (fst (snd t)) @ flat_items (snd (snd t))"
  have d': "drop i ws = us @ (JSMN_STRING, fst t) # (JSMN_OBJECT, render (snd (ticker_item ''id'' t))) #
      (JSMN_STRING, ''id'') # ?us @ flat_items (map (ticker_item ''id'') tks)"
    using d unfolding flat_items_Cons_ticker by simp
  have ok: "fst t \<noteq> ''id''" "fst (JSMN_OBJECT, render (snd (ticker_item ''id'' t))) \<noteq> JSMN_STRING"
    using t by (auto simp: ticker_ok_def)
  note step = market_before_views [OF v d' us ok]
  show ?thesis
    by (rule that [of "i + length us + 3" ?us])
      (use step t i m in \<open>auto simp: ticker_ok_def free_of_def poloniex_find_next_market_type_def add.commute\<close>)
qed

lemma poloniex_market_loop_tickers:
  assumes v: "views data ts n ws"
  shows "\<lbrakk>0 < i; drop i ws = us @ flat_items (map (ticker_item ''id'') tks);
      (JSMN_STRING, ''id'') \<notin> set us; \<forall>t\<in>set tks. ticker_ok ''id'' t;
      map (\<lambda>t. poloniex_market (fst t)) tks = map Some ms; length tks + 2 \<le> fuel\<rbrakk> \<Longrightarrow>
    poloniex_market_loop fuel data ts n (int i) head = Inr (head @ ms)"
proof (induction tks arbitrary: i us head ms fuel)
  case Nil
  then obtain k where "fuel = Suc (Suc k)"
    by (metis add_2_eq_Suc' le_Suc_ex list.size(3) plus_nat.simps(2) add_0)
  then show ?case
    using Nil market_before_none [OF v, of "''id''" i]
    by (simp add: poloniex_find_next_market_type_def)
next
  case (Cons t tks)
  obtain m ms' where ms: "ms = m # ms'" "poloniex_market (fst t) = Some m"
      "map (\<lambda>t. poloniex_market (fst t)) tks = map Some ms'"
    using Cons.prems(5) by (cases ms) auto
  obtain k where k: "fuel = Suc k" "length tks + 2 \<le> k"
    using Cons.prems(6) by (cases fuel) auto
  have t: "ticker_ok ''id'' t" using Cons.prems(4) by simp
  obtain i' us' where s: "i < i'" "drop i' ws = us' @ flat_items (map (ticker_item ''id'') tks)"
      "(JSMN_STRING, ''id'') \<notin> set us'"
      "\<And>fuel head. poloniex_market_loop (Suc fuel) data ts n (int i) head =
         poloniex_market_loop fuel data ts n (int i') (head @ [m])"
    using poloniex_market_loop_step [OF v Cons.prems(2,3) t ms(2) Cons.prems(1)] by metis
  have "poloniex_market_loop k data ts n (int i') (head @ [m]) = Inr ((head @ [m]) @ ms')"
    by (rule Cons.IH [OF _ s(2,3) _ ms(3) k(2)]) (use s(1) Cons.prems(4) in auto)
  then show ?case
    using s(4) k(1) ms(1) by simp
qed

text \<open>A ticker without an underscore is found again in every further pass.\<close>

lemma poloniex_market_loop_stuck:
  assumes v: "views data ts n ws"
    and d: "drop i ws = us @ (JSMN_STRING, fst t) # (JSMN_OBJECT, x) # (JSMN_STRING, ''id'') # rest"
    and us: "(JSMN_STRING, ''id'') \<notin> set us" and t: "ticker_ok ''id'' t" and m: "poloniex_market (fst t) = None"
    and i: "0 < i"
  shows "poloniex_market_loop fuel data ts n (int i) head = Inl Diverges"
proof -
  have ok: "fst t \<noteq> ''id''" "fst (JSMN_OBJECT, x) \<noteq> JSMN_STRING" using t by (auto simp: ticker_ok_def)
  note step = market_before_views [OF v d us ok]
  let ?p = "i + length us + 2"
  have len: "i + length us + 2 < length ws" using arg_cong [OF d, of length] by simp
  have at: "ws ! (i + length us) = (JSMN_STRING, fst t)" "ws ! ?p = (JSMN_STRING, ''id'')"
    using arg_cong [OF d, of "\<lambda>xs. xs ! length us"] arg_cong [OF d, of "\<lambda>xs. xs ! (length us + 2)"] len
    by (simp_all add: nth_append add.assoc)
  have "drop ?p ws = (JSMN_STRING, ''id'') # drop (?p + 1) ws"
    using len at(2) by (metis Cons_nth_drop_Suc Suc_eq_plus1)
  then have "json_find_token data ts n (int ?p) ''id'' = Inr (int ?p)"
    unfolding find_token_views [OF v] by (simp add: as_pos_def)
  then have again: "market_before ''id'' data ts n (int ?p) = Inr (int ?p, fst t)"
    using views_arr_get [OF v, of "int (i + length us)"] at(1) len v
    by (auto simp: market_before_def views_def nat_int_add)
  have "poloniex_market_loop fuel data ts n (int ?p) head = Inl Diverges" for fuel head
    by (induction fuel) (use again m in \<open>auto simp: poloniex_find_next_market_type_def\<close>)
  then show ?thesis
    using step m i by (cases fuel) (auto simp: poloniex_find_next_market_type_def)
qed

lemma poloniex_market_loop_hangs:
  assumes v: "views data ts n ws"
  shows "\<lbrakk>0 < i; drop i ws = us @ flat_items (map (ticker_item ''id'') tks);
      (JSMN_STRING, ''id'') \<notin> set us; \<forall>t\<in>set tks. ticker_ok ''id'' t;
      \<exists>t\<in>set tks. poloniex_market (fst t) = None\<rbrakk> \<Longrightarrow>
    poloniex_market_loop fuel data ts n (int i) head = Inl Diverges"
proof (induction tks arbitrary: i us head fuel)
  case (Cons t tks)
  have t: "ticker_ok ''id'' t" using Cons.prems(4) by simp
  show ?case
  proof (cases "poloniex_market (fst t)")
    case None
    show ?thesis
      by (rule poloniex_market_loop_stuck [OF v Cons.prems(2) [unfolded flat_items_Cons_ticker]
            Cons.prems(3) t None Cons.prems(1)])
  next
    case (Some m)
    obtain i' us' where s: "i < i'" "drop i' ws = us' @ flat_items (map (ticker_item ''id'') tks)"
        "(JSMN_STRING, ''id'') \<notin> set us'"
        "\<And>fuel head. poloniex_market_loop (Suc fuel) data ts n (int i) head =
           poloniex_market_loop fuel data ts n (int i') (head @ [m])"
      using poloniex_market_loop_step [OF v Cons.prems(2,3) t Some Cons.prems(1)] by metis
    show ?thesis
    proof (cases fuel)
      case (Suc k)
      have "poloniex_market_loop k data ts n (int i') (head @ [m]) = Inl Diverges"
        by (rule Cons.IH [OF _ s(2,3)]) (use s(1) Cons.prems(4,5) Some in auto)
      then show ?thesis using s(4) Suc by simp
    qed simp
  qed
qed simp

lemma ntoks_tickers: "length tks \<le> ntoks_items (map (ticker_item tag) tks)"
  by (induction tks) (auto simp: ticker_item_def)

lemma poloniex_parse_tickers:
  assumes ok: "val_ok (tickers_answer ''id'' tks)" and room: "ntoks (tickers_answer ''id'' tks) \<le> length ts0"
    and tks: "\<forall>t\<in>set tks. ticker_ok ''id'' t"
  shows "map (\<lambda>t. poloniex_market (fst t)) tks = map Some ms \<Longrightarrow>
      poloniex_parse_market ts0 (render (tickers_answer ''id'' tks)) = Inr ms"
    and "\<exists>t\<in>set tks. poloniex_market (fst t) = None \<Longrightarrow>
      poloniex_parse_market ts0 (render (tickers_answer ''id'' tks)) = Inl Diverges"
proof -
  let ?v = "tickers_answer ''id'' tks"
  obtain ts where ts: "json_parse (render ?v) ts0 = Inr (ntoks ?v, ts)" "views (render ?v) ts (ntoks ?v) (flat ?v)"
    using json_parse_render [OF ok room] by metis
  have d: "drop 1 (flat ?v) = [] @ flat_items (map (ticker_item ''id'') tks)"
    by (simp add: tickers_answer_def)
  have fuel: "length tks + 2 \<le> ntoks ?v + 3"
    using ntoks_tickers [of tks "''id''"] by (simp add: tickers_answer_def)
  show "poloniex_parse_market ts0 (render ?v) = Inr ms"
    if "map (\<lambda>t. poloniex_market (fst t)) tks = map Some ms"
    using poloniex_market_loop_tickers [OF ts(2) zero_less_one d _ tks that fuel, of "[]"] ts(1)
    by (simp add: poloniex_parse_market_def)
  show "poloniex_parse_market ts0 (render ?v) = Inl Diverges"
    if "\<exists>t\<in>set tks. poloniex_market (fst t) = None"
    using poloniex_market_loop_hangs [OF ts(2) zero_less_one d _ tks that, of "ntoks ?v + 3" "[]"] ts(1)
    by (simp only: poloniex_parse_market_def) simp
qed

subsection \<open>Order books\<close>

text \<open>Two members follow the bids: whether the market is frozen, and a sequence number.\<close>

definition orders_answer ::
    "(string option \<times> jval) list \<Rightarrow> level list \<Rightarrow> level list \<Rightarrow> string \<Rightarrow> string \<Rightarrow> jval" where
  "orders_answer a asks bids frozen seq =
     JNode True (a @ [(Some ''asks'', JArr (map level_arr asks)), (Some ''bids'', JArr (map level_arr bids)),
       (Some ''isFrozen'', JStr frozen), (Some ''seq'', JPrim seq)])"

lemma poloniex_ask_loop_levels:
  assumes v: "views data ts n ws"
  shows "\<lbrakk>drop i ws = flat_levels ls @ rest; \<forall>l\<in>set ls. level_ok l; bid_pos = int i + 3 * int (length ls)\<rbrakk> \<Longrightarrow>
    poloniex_ask_loop data ts bid_pos (int i + 1) bk =
      Inr (bk @ map (\<lambda>l. ask_level l book_new) (butlast ls))"
proof (induction ls arbitrary: i bk)
  case Nil
  then show ?case by (subst poloniex_ask_loop.simps) simp
next
  case (Cons l ls)
  have ok: "level_ok l" using Cons.prems by simp
  have d: "drop i ws = flat (level_arr l) @ flat_levels ls @ rest" using Cons.prems by simp
  note r = read_level [OF v d ok]
  show ?case
  proof (cases "ls = []")
    case True
    then show ?thesis
      using r Cons.prems by (subst poloniex_ask_loop.simps) (simp add: add.commute)
  next
    case False
    have "poloniex_ask_loop data ts bid_pos (int (i + 3) + 1) (bk @ [ask_level l book_new]) =
        Inr ((bk @ [ask_level l book_new]) @ map (\<lambda>l. ask_level l book_new) (butlast ls))"
      by (rule Cons.IH) (use r Cons.prems in auto)
    moreover have "1 \<le> int (length ls)" using False by (cases ls) auto
    ultimately show ?thesis
      using r Cons.prems False by (subst poloniex_ask_loop.simps) (simp add: ask_level_def add.commute)
  qed
qed

lemma poloniex_bid_loop_levels:
  assumes v: "views data ts n ws" and n: "n = j + 4"
    and rest: "drop j ws = [r0, r1, r2, r3]" "{fst r1, fst r2} \<subseteq> {JSMN_PRIMITIVE, JSMN_STRING}"
  shows "\<lbrakk>drop i ws = flat_levels ls @ drop j ws; \<forall>l\<in>set ls. level_ok l; j = i + 3 * length ls\<rbrakk> \<Longrightarrow>
    poloniex_bid_loop data ts n (int i + 1) (zip_sides fs gs) (length gs) =
      Inr (zip_sides fs (gs @ map bid_level ls))"
proof (induction ls arbitrary: i gs)
  case Nil
  have at: "ws ! (j + k) = [r0, r1, r2, r3] ! k" if "k < 4" for k
    using that arg_cong [OF rest(1), of "\<lambda>xs. xs ! k"] n v by (simp add: views_def)
  have "token_double data ts (int j + 1) x = Inr (json_double_of (snd r1))"
      "token_double data ts (int j + 2) x = Inr (json_double_of (snd r2))" for x
    using token_double_views [OF v, of "j + 1" x] token_double_views [OF v, of "j + 2" x]
      at [of 1] at [of 2] rest(2) n by (simp_all add: add.commute)
  then show ?case
    using Nil.prems(3) n by (subst poloniex_bid_loop.simps) (simp add: add.commute)
next
  case (Cons l ls)
  have ok: "level_ok l" using Cons.prems by simp
  have d: "drop i ws = flat (level_arr l) @ flat_levels ls @ drop j ws" using Cons.prems by simp
  note r = read_level [OF v d ok]
  have "poloniex_bid_loop data ts n (int (i + 3) + 1) (zip_sides fs (gs @ [bid_level l]))
      (length (gs @ [bid_level l])) = Inr (zip_sides fs ((gs @ [bid_level l]) @ map bid_level ls))"
    by (rule Cons.IH) (use r Cons.prems in auto)
  moreover have "int n = int i + 3 * int (length ls) + 7" using n Cons.prems(3) by simp
  ultimately show ?case
    using r
    by (subst poloniex_bid_loop.simps) (simp add: bid_level_def zip_sides_snoc add.commute)
qed

lemma poloniex_parse_book_steps:
  "\<lbrakk>json_parse data ts0 = Inr (n, ts); json_find_token data ts n 0 ''asks'' = Inr s; s \<noteq> 0;
    json_find_token data ts n 0 ''bids'' = Inr b; b \<noteq> 0; poloniex_ask_loop data ts b (s + 3) [] = Inr bk;
    poloniex_bid_loop data ts n (b + 3) bk 0 = Inr r\<rbrakk> \<Longrightarrow> poloniex_parse_book ts0 data = Inr r"
  by (simp add: poloniex_parse_book_def)

lemma poloniex_parse_orders:
  assumes ok: "val_ok (orders_answer a asks bids frozen seq)"
    and room: "ntoks (orders_answer a asks bids frozen seq) \<le> length ts0"
    and a: "free_of ''bids'' a" "free_of ''asks'' a" and levels: "\<forall>l\<in>set (asks @ bids). level_ok l"
  shows "poloniex_parse_book ts0 (render (orders_answer a asks bids frozen seq)) =
    Inr (zip_sides (map ask_level (butlast asks)) (map bid_level bids))"
proof -
  let ?v = "orders_answer a asks bids frozen seq"
  let ?A = "JArr (map level_arr asks)" and ?B = "JArr (map level_arr bids)"
  let ?data = "render ?v" and ?n = "ntoks ?v" and ?ws = "flat ?v"
  let ?tail = "[(JSMN_STRING, ''isFrozen''), (JSMN_STRING, frozen), (JSMN_STRING, ''seq''), (JSMN_PRIMITIVE, seq)]"
  obtain ts where ts: "json_parse ?data ts0 = Inr (?n, ts)" "views ?data ts ?n ?ws"
    using json_parse_render [OF ok room] by metis
  define pre where "pre = (JSMN_OBJECT, ?data) # flat_items a"
  define us where "us = pre @ (JSMN_STRING, ''asks'') # (JSMN_ARRAY, render ?A) # flat_levels asks"
  have lens: "length (flat_levels bids) = 3 * length bids" "length (flat_levels asks) = 3 * length asks"
    using levels by (auto intro: length_flat_levels)
  have ws: "?ws = pre @ (JSMN_STRING, ''asks'') # (JSMN_ARRAY, render ?A) # flat_levels asks @
      (JSMN_STRING, ''bids'') # (JSMN_ARRAY, render ?B) # flat_levels bids @ ?tail"
    by (simp add: orders_answer_def pre_def node_type_def flat_items_levels del: map_map)
  have ws': "?ws = us @ (JSMN_STRING, ''bids'') # (JSMN_ARRAY, render ?B) # flat_levels bids @ ?tail"
    using ws by (simp add: us_def)
  have n: "?n = length ?ws" using ts(2) by (simp add: views_def)
  have s: "json_find_token ?data ts ?n 0 ''asks'' = Inr (int (length pre))"
      "drop (length pre + 1) ?ws = (JSMN_ARRAY, render ?A) # flat_levels asks @
         (JSMN_STRING, ''bids'') # (JSMN_ARRAY, render ?B) # flat_levels bids @ ?tail"
    using a by (intro find_tag_views [OF ts(2) ws]; auto simp: pre_def free_of_def)+
  have b: "json_find_token ?data ts ?n 0 ''bids'' = Inr (int (length us))"
      "drop (length us + 1) ?ws = (JSMN_ARRAY, render ?B) # flat_levels bids @ ?tail"
    using a levels flat_levels_tags [of asks "''bids''"]
    by (intro find_tag_views [OF ts(2) ws']; auto simp: us_def pre_def free_of_def)+
  define j where "j = length us + 2 + 3 * length bids"
  have da: "drop (length pre + 2) ?ws = flat_levels asks @ drop (length us) ?ws"
    using drop_step [OF s(2)] ws' by simp
  have dj: "drop j ?ws = ?tail"
    using ws' lens by (simp add: j_def)
  have db: "drop (length us + 2) ?ws = flat_levels bids @ drop j ?ws"
    using drop_step [OF b(2)] dj by (simp only: add.assoc one_add_one)
  have asks: "poloniex_ask_loop ?data ts (int (length us)) (int (length pre + 2) + 1) [] =
      Inr ([] @ map (\<lambda>l. ask_level l book_new) (butlast asks))"
    by (rule poloniex_ask_loop_levels [OF ts(2) da]) (use levels lens in \<open>auto simp: us_def\<close>)
  have nj: "?n = j + 4" using n ws' lens by (simp add: j_def)
  have bids: "poloniex_bid_loop ?data ts ?n (int (length us + 2) + 1)
      (zip_sides (map ask_level (butlast asks)) []) (length ([] :: (book \<Rightarrow> book) list)) =
      Inr (zip_sides (map ask_level (butlast asks)) ([] @ map bid_level bids))"
    by (rule poloniex_bid_loop_levels [OF ts(2) nj dj _ db]) (use levels in \<open>auto simp: j_def\<close>)
  show ?thesis
    by (rule poloniex_parse_book_steps [OF ts(1) s(1) _ b(1)])
      (use asks bids in \<open>simp_all add: add.commute pre_def us_def\<close>)
qed

subsection \<open>Balances\<close>

record funds =
  f_gap1 :: "(string option \<times> jval) list"
  f_available :: jval
  f_gap2 :: "(string option \<times> jval) list"
  f_orders :: jval
  f_gap3 :: "(string option \<times> jval) list"
  f_value :: jval
  f_gap4 :: "(string option \<times> jval) list"

definition funds_items :: "funds \<Rightarrow> (string option \<times> jval) list" where
  "funds_items f =
     f_gap1 f @ (Some ''available'', f_available f) # f_gap2 f @ (Some ''onOrders'', f_orders f) #
     f_gap3 f @ (Some ''btcValue'', f_value f) # f_gap4 f"

definition funds_ok :: "funds \<Rightarrow> bool" where
  "funds_ok f \<longleftrightarrow> free_of ''available'' (f_gap1 f) \<and>
     scalar_not (f_available f) ''onOrders'' \<and> free_of ''onOrders'' (f_gap2 f) \<and>
     scalar_not (f_orders f) ''btcValue'' \<and> free_of ''btcValue'' (f_gap3 f) \<and> scalar_not (f_value f) []"

definition complete_answer ::
    "(string option \<times> jval) list \<Rightarrow> string \<Rightarrow> funds \<Rightarrow> (string option \<times> jval) list \<Rightarrow> jval" where
  "complete_answer a cur f c = JNode True (a @ (Some cur, JNode True (funds_items f)) # c)"

lemma poloniex_balance_field_eq:
  "poloniex_balance_field data ts n p tag = bittrex_balance_field data ts n p tag dbl_0"
  by (simp add: poloniex_balance_field_def bittrex_balance_field_def)

lemma poloniex_parse_complete:
  assumes ok: "val_ok (complete_answer a cur f c)"
    and room: "4 * ntoks (complete_answer a cur f c) \<le> length (render (complete_answer a cur f c))"
    and a: "free_of cur a" "cur \<noteq> ''available''" and f: "funds_ok f"
  shows "poloniex_parse_balance stack (render (complete_answer a cur f c)) cur =
    Inr (Some \<lparr>currency = Some cur, total = num_of (f_value f), pending = num_of (f_orders f),
      available = num_of (f_available f)\<rparr>)"
proof -
  let ?v = "complete_answer a cur f c"
  let ?data = "render ?v" and ?n = "ntoks ?v" and ?ws = "flat ?v"
  note f' = f [unfolded funds_ok_def free_of_def]
  define ts0 where "ts0 = map stack [0..<length ?data div 4]"
  have n: "?n \<noteq> 0" by (simp add: complete_answer_def)
  have room': "?n \<le> length ts0" using room by (simp add: ts0_def)
  then have arr: "quarter_array stack ?data = Inr ts0"
    using n unfolding quarter_array_def ts0_def by (simp only: Let_def length_map length_upt) auto
  obtain ts where ts: "json_parse ?data ts0 = Inr (?n, ts)" "views ?data ts ?n ?ws"
    using json_parse_render [OF ok room'] by metis
  let ?o = "(JSMN_OBJECT, render (JNode True (funds_items f)))"
  let ?pre = "(JSMN_OBJECT, ?data) # flat_items a"
  define r3 where "r3 = flat_items (f_gap4 f) @ flat_items c"
  define r2 where "r2 = flat_items (f_gap3 f) @ (JSMN_STRING, ''btcValue'') # flat (f_value f) @ r3"
  define r1 where "r1 = flat_items (f_gap2 f) @ (JSMN_STRING, ''onOrders'') # flat (f_orders f) @ r2"
  define r0 where "r0 = flat_items (f_gap1 f) @ (JSMN_STRING, ''available'') # flat (f_available f) @ r1"
  have ws: "?ws = ?pre @ (JSMN_STRING, cur) # ?o # r0"
    by (simp add: complete_answer_def funds_items_def r0_def r1_def r2_def r3_def node_type_def)
  have "(JSMN_STRING, cur) \<notin> set ?pre" using a by (auto simp: free_of_def)
  note cur = find_tag_views [OF ts(2) ws this]
  have "drop (length ?pre) ?ws = (JSMN_STRING, cur) # ?o # r0" using ws by simp
  with cur(1) obtain k where k: "json_find_token ?data ts ?n 0 cur = Inr (int k)"
      "drop k ?ws = (JSMN_STRING, cur) # ?o # r0" by blast
  obtain p1 x where p1: "bittrex_balance_field ?data ts ?n (int k) ''available'' dbl_0 =
        Inr (Some (int p1, num_of (f_available f)))" "drop p1 ?ws = x # r1" "x \<noteq> (JSMN_STRING, ''onOrders'')"
    by (rule bittrex_balance_field_views [OF ts(2), of k "(JSMN_STRING, cur) # ?o # flat_items (f_gap1 f)"
        "''available''" "f_available f" r1 "''onOrders''" dbl_0]) (use k(2) a f' in \<open>auto simp: r0_def\<close>)
  obtain p2 y where p2: "bittrex_balance_field ?data ts ?n (int p1) ''onOrders'' dbl_0 =
        Inr (Some (int p2, num_of (f_orders f)))" "drop p2 ?ws = y # r2" "y \<noteq> (JSMN_STRING, ''btcValue'')"
    by (rule bittrex_balance_field_views [OF ts(2), of p1 "x # flat_items (f_gap2 f)"
        "''onOrders''" "f_orders f" r2 "''btcValue''" dbl_0]) (use p1 f' in \<open>auto simp: r1_def\<close>)
  obtain p3 where p3: "bittrex_balance_field ?data ts ?n (int p2) ''btcValue'' dbl_0 =
        Inr (Some (int p3, num_of (f_value f)))"
    by (rule bittrex_balance_field_views [OF ts(2), of p2 "y # flat_items (f_gap3 f)"
        "''btcValue''" "f_value f" r3 "[]" dbl_0]) (use p2 f' in \<open>auto simp: r2_def\<close>)
  show ?thesis
    using arr ts(1) k(1) p1(1) p2(1) p3
    by (simp add: poloniex_parse_balance_def poloniex_balance_field_eq balance_new_def)
qed

subsection \<open>The calls of the exchange\<close>

lemma poloniex_markets_listed:
  assumes "serves perform ''https://poloniex.com/public?command=returnTicker'' (render (tickers_answer ''id'' tks))"
    and "val_ok (tickers_answer ''id'' tks)" "ntoks (tickers_answer ''id'' tks) \<le> length ts0"
    and "\<forall>t\<in>set tks. ticker_ok ''id'' t" "map (\<lambda>t. poloniex_market (fst t)) tks = map Some ms"
  shows "poloniex_get_markets perform True ts0 = Inr ms"
  using https_get_serves [OF assms(1) render_no_NUL(1) [OF assms(2)]] poloniex_parse_tickers(1) [OF assms(2-)]
  by (simp add: poloniex_get_markets_def poloniex_build_url_def poloniex_url_def Let_def)

text \<open>
  C17. When poloniex answers the ticker query and every ticker's name holds an underscore,
  \<^verbatim>\<open>poloniex_get_markets\<close> stops and returns one market per ticker, in order, with the name split at
  its first underscore into the base and the market currency.
\<close>

theorem poloniex_get_markets_tickers:
  assumes "serves perform ''https://poloniex.com/public?command=returnTicker'' (render (tickers_answer ''id'' tks))"
    and "val_ok (tickers_answer ''id'' tks)" "ntoks (tickers_answer ''id'' tks) \<le> length ts0"
    and "\<forall>t\<in>set tks. ticker_ok ''id'' t" "map (\<lambda>t. poloniex_market (fst t)) tks = map Some ms"
  shows "poloniex_get_markets perform True ts0 = Inr ms"
  by (rule poloniex_markets_listed [OF assms])

theorem poloniex_get_markets_tickers_witness:
  "poloniex_get_markets (one_page ''https://poloniex.com/public?command=returnTicker''
     (render (tickers_answer ''id'' [(''BTC_LTC'', JPrim ''50'', [(Some ''last'', JStr ''0.1'')])]))) True (replicate 9 stale) =
   Inr [\<lparr>market_name = Some ''BTC_LTC'', market_currency = Some ''LTC'', base_currency = Some ''BTC'',
          min_trade_size = dbl_0, fee = dbl_0_7\<rparr>]"
proof -
  let ?t = "[(''BTC_LTC'', JPrim ''50'', [(Some ''last'', JStr ''0.1'')])] :: ticker list"
  have 1: "val_ok (tickers_answer ''id'' ?t)" "ntoks (tickers_answer ''id'' ?t) \<le> length (replicate 9 stale)"
    by code_simp+
  have 2: "\<forall>t\<in>set ?t. ticker_ok ''id'' t" by (simp add: ticker_ok_def free_of_def)
  have 3: "map (\<lambda>t. poloniex_market (fst t)) ?t = map Some [\<lparr>market_name = Some ''BTC_LTC'', market_currency = Some ''LTC'',
      base_currency = Some ''BTC'', min_trade_size = dbl_0, fee = dbl_0_7\<rparr>]"
    by (simp add: poloniex_market_def market_new_def)
  show ?thesis
    using poloniex_get_markets_tickers [OF one_page_serves 1 2 3] .
qed

text \<open>
  C27. If the name of one ticker of the answer has no underscore, the market loop never ends: it finds that
  ticker again in every pass, and no amount of fuel yields a result.
\<close>

theorem poloniex_markets_hang:
  assumes "val_ok (tickers_answer ''id'' tks)" "ntoks (tickers_answer ''id'' tks) \<le> length ts0"
    and "\<forall>t\<in>set tks. ticker_ok ''id'' t" "\<exists>t\<in>set tks. CHR ''_'' \<notin> set (fst t)"
  shows "\<exists>ts. json_parse (render (tickers_answer ''id'' tks)) ts0 = Inr (ntoks (tickers_answer ''id'' tks), ts) \<and>
    (\<forall>fuel. poloniex_market_loop fuel (render (tickers_answer ''id'' tks)) ts (ntoks (tickers_answer ''id'' tks)) 1 [] =
       Inl Diverges)"
proof -
  let ?v = "tickers_answer ''id'' tks"
  obtain ts where ts: "json_parse (render ?v) ts0 = Inr (ntoks ?v, ts)" "views (render ?v) ts (ntoks ?v) (flat ?v)"
    using json_parse_render [OF assms(1,2)] by metis
  have d: "drop 1 (flat ?v) = [] @ flat_items (map (ticker_item ''id'') tks)"
    by (simp add: tickers_answer_def)
  have "poloniex_market s = None" if "CHR ''_'' \<notin> set s" for s
  proof -
    from that have "dropWhile (\<lambda>c. c \<noteq> CHR ''_'') s = []" by (simp add: dropWhile_eq_Nil_conv) metis
    then show ?thesis by (simp only: poloniex_market_def list.case)
  qed
  then have "\<exists>t\<in>set tks. poloniex_market (fst t) = None" using assms(4) by blast
  from poloniex_market_loop_hangs [OF ts(2) zero_less_one d _ assms(3) this] ts(1) show ?thesis by auto
qed

theorem poloniex_markets_hang_witness:
  "\<exists>ts. json_parse (render (tickers_answer ''id'' [(''LTC'', JPrim ''50'', [])])) (replicate 9 stale) = Inr (5, ts) \<and>
    (\<forall>fuel. poloniex_market_loop fuel (render (tickers_answer ''id'' [(''LTC'', JPrim ''50'', [])])) ts 5 1 [] = Inl Diverges)"
proof -
  let ?t = "[(''LTC'', JPrim ''50'', [])] :: ticker list"
  have 1: "val_ok (tickers_answer ''id'' ?t)" "ntoks (tickers_answer ''id'' ?t) \<le> length (replicate 9 stale)"
    by code_simp+
  have 2: "\<forall>t\<in>set ?t. ticker_ok ''id'' t" "\<exists>t\<in>set ?t. CHR ''_'' \<notin> set (fst t)"
    by (simp_all add: ticker_ok_def)
  have 3: "ntoks (tickers_answer ''id'' ?t) = 5" by code_simp
  show ?thesis
    using poloniex_markets_hang [OF 1 2] unfolding 3 .
qed

lemma poloniex_books_read:
  assumes "market_name m = Some name"
    and "serves perform (''https://poloniex.com/public?command=returnOrderBook&currencyPair='' @ name @ ''&depth=10'')
      (render (orders_answer a asks bids frozen seq))"
    and "val_ok (orders_answer a asks bids frozen seq)" "ntoks (orders_answer a asks bids frozen seq) \<le> length ts0"
    and "free_of ''bids'' a" "free_of ''asks'' a" "\<forall>l\<in>set (asks @ bids). level_ok l"
  shows "poloniex_get_books perform True ts0 m =
    Inr (zip_sides (map ask_level (butlast asks)) (map bid_level bids))"
  using https_get_serves(2) [OF assms(2)] render_no_NUL(1) [OF assms(3)] poloniex_parse_orders [OF assms(3-)] assms(1)
  by (simp add: poloniex_get_books_def print_str_def poloniex_build_url_def poloniex_url_def Let_def)

text \<open>
  C28. When poloniex answers the order book query of a market in its format (asks, bids, two more members),
  \<^verbatim>\<open>poloniex_get_books\<close> pairs the levels of the two sides in order, the shorter side padded with zeros;
  all bids are kept, the last ask is left out.
\<close>

theorem poloniex_get_books_orders:
  assumes "market_name m = Some name"
    and "serves perform (''https://poloniex.com/public?command=returnOrderBook&currencyPair='' @ name @ ''&depth=10'')
      (render (orders_answer a asks bids frozen seq))"
    and "val_ok (orders_answer a asks bids frozen seq)" "ntoks (orders_answer a asks bids frozen seq) \<le> length ts0"
    and "free_of ''bids'' a" "free_of ''asks'' a" "\<forall>l\<in>set (asks @ bids). level_ok l"
  shows "poloniex_get_books perform True ts0 m =
    Inr (zip_sides (map ask_level (butlast asks)) (map bid_level bids))"
  by (rule poloniex_books_read [OF assms])

theorem poloniex_get_books_orders_witness:
  "poloniex_get_books (one_page ''https://poloniex.com/public?command=returnOrderBook&currencyPair=BTC_LTC&depth=10''
     (render (orders_answer [] [(JStr ''1'', JPrim ''2''), (JStr ''7'', JPrim ''8'')] [(JStr ''3'', JPrim ''4''), (JStr ''5'', JPrim ''6'')] ''0'' ''18'')))
     True (replicate 30 stale) (market_new\<lparr>market_name := Some ''BTC_LTC''\<rparr>) =
   Inr [\<lparr>bid_qty = Fin 3 0, bid_price = Fin 1 2, ask_qty = Fin 1 0, ask_price = Fin 1 1\<rparr>,
        \<lparr>bid_qty = Fin 5 0, bid_price = Fin 3 1, ask_qty = Fin 0 0, ask_price = Fin 0 0\<rparr>]"
proof -
  let ?a = "[(JStr ''1'', JPrim ''2''), (JStr ''7'', JPrim ''8'')]"
  let ?b = "[(JStr ''3'', JPrim ''4''), (JStr ''5'', JPrim ''6'')]"
  let ?v = "orders_answer [] ?a ?b ''0'' ''18''" and ?m = "market_new\<lparr>market_name := Some ''BTC_LTC''\<rparr>"
  let ?u = "''https://poloniex.com/public?command=returnOrderBook&currencyPair='' @ ''BTC_LTC'' @ ''&depth=10''"
  have 1: "val_ok ?v" "ntoks ?v \<le> length (replicate 30 stale)" by code_simp+
  have 2: "\<forall>l\<in>set (?a @ ?b). level_ok l" by (simp add: level_ok_def num_ok_def)
  have 3: "zip_sides (map ask_level (butlast ?a)) (map bid_level ?b) =
    [\<lparr>bid_qty = Fin 3 0, bid_price = Fin 1 2, ask_qty = Fin 1 0, ask_price = Fin 1 1\<rparr>,
     \<lparr>bid_qty = Fin 5 0, bid_price = Fin 3 1, ask_qty = Fin 0 0, ask_price = Fin 0 0\<rparr>]"
    by code_simp
  have 4: "serves (one_page ?u (render ?v)) ?u (render ?v)" "market_name ?m = Some ''BTC_LTC''"
    by (rule one_page_serves) simp
  show ?thesis
    using poloniex_get_books_orders [OF 4(2,1) 1 free_of_Nil free_of_Nil 2] 3 by simp
qed

text \<open>
  C29. \<^verbatim>\<open>poloniex_balance\<close> posts the command and the nonce, with the key and the HMAC of the posted line in the
  headers. When the answer holds the currency and behind it the available amount, the amount on orders
  and the value in this order, it returns them, provided the answer is long enough for the token array
  the parser sizes by the length of the text.
\<close>

theorem poloniex_balance_complete:
  assumes "hmac poloniex_apisecret body = Some mac" "length mac = 64"
    and "body = ''command=returnCompleteBalances&nonce='' @ utils_https_get_nonce tval"
    and "perform (post_request (utils_https_new True\<lparr>post_parameters := Some body,
        headers := [''Key: '' @ poloniex_apikey, ''Sign: '' @ concat (map byte_hex mac)]\<rparr>)
      ''https://poloniex.com/tradingApi'') = (True, pieces)"
    and "pieces \<noteq> []" "concat pieces = render (complete_answer a cur f c)"
    and "val_ok (complete_answer a cur f c)"
    and "4 * ntoks (complete_answer a cur f c) \<le> length (render (complete_answer a cur f c))"
    and "free_of cur a" "cur \<noteq> ''available''" "funds_ok f"
  shows "poloniex_balance perform True hmac tval stack cur =
    Inr (Some \<lparr>currency = Some cur, total = num_of (f_value f), pending = num_of (f_orders f),
      available = num_of (f_available f)\<rparr>)"
proof -
  let ?hex = "concat (map byte_hex mac)"
  let ?c = "utils_https_new True\<lparr>post_parameters := Some body,
        headers := [''Key: '' @ poloniex_apikey, ''Sign: '' @ ?hex]\<rparr>"
  let ?k = "utils_https_add_header (utils_https_add_post_parameter (utils_https_add_post_parameter
    (utils_https_new True) ''command'' ''returnCompleteBalances'') ''nonce'' (utils_https_get_nonce tval))
    ''Key'' (Some poloniex_apikey)"
  have k: "post_parameters ?k = Some body" "utils_https_add_header ?k ''Sign'' (Some ?hex) = ?c"
    by (simp_all add: utils_https_add_post_parameter_def utils_https_add_header_def utils_https_new_def assms(3) Let_def)
  have "conn_curl ?c" by (simp add: utils_https_new_def)
  with https_post_answer [of perform ?c, OF assms(4-6) render_no_NUL(1) [OF assms(7)]]
  have "answer_text (snd (utils_https_post perform ?c ''https://poloniex.com/tradingApi'')) =
      Inr (render (complete_answer a cur f c))" .
  then show ?thesis
    using sign_hex [of hmac, OF assms(1,2)] poloniex_parse_complete [OF assms(7-)] k
    by (simp add: poloniex_balance_def print_str_def poloniex_url_def Let_def)
qed

theorem poloniex_balance_complete_witness:
  "poloniex_balance (\<lambda>req. (True, [render (complete_answer [] ''BTC''
     \<lparr>f_gap1 = [], f_available = JStr ''1.5'', f_gap2 = [], f_orders = JStr ''0.5'', f_gap3 = [],
      f_value = JStr ''2'', f_gap4 = []\<rparr> [])])) True (\<lambda>k m. Some (replicate 64 7)) (1500000000, 12) (\<lambda>i. stale) ''BTC'' =
   Inr (Some \<lparr>currency = Some ''BTC'', total = Fin 1 1, pending = Fin 1 (-1), available = Fin 3 (-1)\<rparr>)"
proof -
  let ?f = "\<lparr>f_gap1 = [], f_available = JStr ''1.5'', f_gap2 = [], f_orders = JStr ''0.5'', f_gap3 = [],
      f_value = JStr ''2'', f_gap4 = []\<rparr>"
  let ?v = "complete_answer [] ''BTC'' ?f []"
  have 1: "val_ok ?v" "4 * ntoks ?v \<le> length (render ?v)" by code_simp+
  have 2: "funds_ok ?f" by (simp add: funds_ok_def scalar_not_def)
  have 3: "num_of (JStr ''1.5'') = Fin 3 (-1)" "num_of (JStr ''0.5'') = Fin 1 (-1)" "num_of (JStr ''2'') = Fin 1 1"
    by code_simp+
  show ?thesis
    using poloniex_balance_complete [of "\<lambda>k m. Some (replicate 64 7)" _ _ _ "\<lambda>req. (True, [render ?v])",
        OF refl _ refl refl _ _ 1 free_of_Nil _ 2] by (simp add: 3)
qed

end
