(* ===== verification/Khash.thy ===== *)
theory Khash
  imports CDouble
begin

unbundle bit_operations_syntax

section \<open>The string hash table (\<^verbatim>\<open>include/utils/khash.h\<close>)\<close>

text \<open>
  The table \<^verbatim>\<open>KHASH_MAP_INIT_STR\<close> generates: open addressing with triangular probing, two flag bits per
  bucket packed into 32-bit words (bit 1: empty, bit 0: deleted), growth to the next power of two and
  rehashing in place. Keys are the strings the stored pointers point to (their owner does not change
  them while they are in the table); a key or value never written is \<open>None\<close>. Bucket numbers
  (\<^verbatim>\<open>khint_t\<close>) are natural numbers; the hash function and the rounding work on 32-bit words. Reads and writes
  outside the arrays are faults, and every loop carries fuel that the invariant shows to be enough.
\<close>

subsection \<open>Flags\<close>

text \<open>\<open>kh_flag fl i\<close> is \<^verbatim>\<open>flag[i>>4]>>((i&0xfU)<<1)\<close>, of which the macros test bits.\<close>

definition kh_flag :: "32 word list \<Rightarrow> nat \<Rightarrow> 32 word cres" where
  "kh_flag fl i =
     (if drop_bit 4 i < length fl then Inr (drop_bit (push_bit 1 (i AND 0xf)) (fl ! drop_bit 4 i))
      else Inl OutOfBounds)"

definition isempty :: "32 word \<Rightarrow> bool" where "isempty w \<longleftrightarrow> w AND 2 \<noteq> 0"
definition isdel :: "32 word \<Rightarrow> bool" where "isdel w \<longleftrightarrow> w AND 1 \<noteq> 0"
definition iseither :: "32 word \<Rightarrow> bool" where "iseither w \<longleftrightarrow> w AND 3 \<noteq> 0"

definition kh_flag_set :: "(32 word \<Rightarrow> 32 word \<Rightarrow> 32 word) \<Rightarrow> 32 word \<Rightarrow> 32 word list \<Rightarrow> nat \<Rightarrow> 32 word list cres" where
  "kh_flag_set f b fl i =
     (if drop_bit 4 i < length fl
      then Inr (fl[drop_bit 4 i := f (fl ! drop_bit 4 i) (push_bit (push_bit 1 (i AND 0xf)) b)])
      else Inl OutOfBounds)"

definition set_isempty_false :: "32 word list \<Rightarrow> nat \<Rightarrow> 32 word list cres" where
  "set_isempty_false = kh_flag_set (\<lambda>w b. w AND NOT b) 2"

definition set_isboth_false :: "32 word list \<Rightarrow> nat \<Rightarrow> 32 word list cres" where
  "set_isboth_false = kh_flag_set (\<lambda>w b. w AND NOT b) 3"

definition set_isdel_true :: "32 word list \<Rightarrow> nat \<Rightarrow> 32 word list cres" where
  "set_isdel_true = kh_flag_set (\<lambda>w b. w OR b) 1"

definition kh_fsize :: "nat \<Rightarrow> nat" where
  "kh_fsize m = (if m < 16 then 1 else drop_bit 4 m)"

definition fresh_flags :: "nat \<Rightarrow> 32 word list" where
  "fresh_flags m = replicate (kh_fsize m) 0xaaaaaaaa"

subsection \<open>Arithmetic\<close>

text \<open>\<^verbatim>\<open>kroundup32\<close>: the next power of two.\<close>

definition kroundup32 :: "32 word \<Rightarrow> 32 word" where
  "kroundup32 x =
     (let x = x - 1; x = x OR drop_bit 1 x; x = x OR drop_bit 2 x; x = x OR drop_bit 4 x;
          x = x OR drop_bit 8 x; x = x OR drop_bit 16 x
      in x + 1)"

text \<open>\<^verbatim>\<open>(khint_t)(n * __ac_HASH_UPPER + 0.5)\<close>, in doubles.\<close>

definition dbl_0_77 :: double where "dbl_0_77 = Fin 1733885856537641 (-51)"
definition dbl_minus_0_5 :: double where "dbl_minus_0_5 = Fin (-1) (-1)"

definition kh_upper :: "nat \<Rightarrow> nat" where
  "kh_upper n =
     (case dbl_to_u64 (dbl_sub (dbl_mul (dbl_of_nat n) dbl_0_77) dbl_minus_0_5) of
        Inl _ \<Rightarrow> 0 | Inr u \<Rightarrow> u)"

lemma kh_upper_literals: "atof ''0.77'' = dbl_0_77" "atof ''-0.5'' = dbl_minus_0_5"
  by code_simp+

text \<open>\<^verbatim>\<open>__ac_X31_hash_string\<close>; \<^verbatim>\<open>char\<close> is signed, so the cast extends the sign.\<close>

definition char_word :: "char \<Rightarrow> 32 word" where
  "char_word c = word_of_int (if char_code c < 128 then int (char_code c) else int (char_code c) - 256)"

fun x31_loop :: "string \<Rightarrow> 32 word \<Rightarrow> 32 word" where
  "x31_loop [] h = h"
| "x31_loop (c # s) h = x31_loop s (push_bit 5 h - h + char_word c)"

fun x31_hash_string :: "string \<Rightarrow> 32 word" where
  "x31_hash_string [] = 0"
| "x31_hash_string (c # s) = (let h = char_word c in if h \<noteq> 0 then x31_loop s h else h)"

subsection \<open>The table\<close>

record 'v kh =
  n_buckets :: nat
  kh_size :: nat
  n_occupied :: nat
  upper_bound :: nat
  flags :: "32 word list"
  keys :: "string option list"
  vals :: "'v option list"

definition kh_init :: "'v kh" where
  "kh_init = \<lparr>n_buckets = 0, kh_size = 0, n_occupied = 0, upper_bound = 0, flags = [], keys = [], vals = []\<rparr>"

definition kh_clear :: "'v kh \<Rightarrow> 'v kh" where
  "kh_clear h =
     (if flags h \<noteq> [] then h\<lparr>flags := fresh_flags (n_buckets h), kh_size := 0, n_occupied := 0\<rparr> else h)"

definition key_at :: "'v kh \<Rightarrow> nat \<Rightarrow> string cres" where
  "key_at h i =
     (if i < length (keys h) then (case keys h ! i of None \<Rightarrow> Inl Uninit | Some k \<Rightarrow> Inr k)
      else Inl OutOfBounds)"

definition val_at :: "'v kh \<Rightarrow> nat \<Rightarrow> 'v option cres" where
  "val_at h i = (if i < length (vals h) then Inr (vals h ! i) else Inl OutOfBounds)"

definition set_key :: "'v kh \<Rightarrow> nat \<Rightarrow> string \<Rightarrow> 'v kh cres" where
  "set_key h i k = (if i < length (keys h) then Inr (h\<lparr>keys := (keys h)[i := Some k]\<rparr>) else Inl OutOfBounds)"

definition set_val :: "'v kh \<Rightarrow> nat \<Rightarrow> 'v option \<Rightarrow> 'v kh cres" where
  "set_val h i v = (if i < length (vals h) then Inr (h\<lparr>vals := (vals h)[i := v]\<rparr>) else Inl OutOfBounds)"

definition kh_index :: "nat \<Rightarrow> string \<Rightarrow> nat" where
  "kh_index n key = unat (x31_hash_string key) AND (n - 1)"

text \<open>Is the probe at bucket \<open>i\<close> to go on: neither empty nor the key?\<close>

definition probe_on :: "'v kh \<Rightarrow> string \<Rightarrow> nat \<Rightarrow> bool cres" where
  "probe_on h key i =
     cbind (kh_flag (flags h) i) (\<lambda>w.
       if isempty w then Inr False
       else if isdel w then Inr True
       else cbind (key_at h i) (\<lambda>k. Inr (k \<noteq> key)))"

text \<open>The loop of \<^verbatim>\<open>kh_get\<close>. When every bucket is taken it comes back to \<open>start\<close> (\<^verbatim>\<open>last\<close>) after twice the number of
  buckets.\<close>

fun get_probe :: "nat \<Rightarrow> 'v kh \<Rightarrow> string \<Rightarrow> nat \<Rightarrow> nat \<Rightarrow> nat \<Rightarrow> nat cres" where
  "get_probe 0 h key i step start = Inl Diverges"
| "get_probe (Suc fuel) h key i step start =
     cbind (probe_on h key i) (\<lambda>go.
       if go then
         (let i' = (i + (step + 1)) AND (n_buckets h - 1) in
          if i' = start then Inr (n_buckets h) else get_probe fuel h key i' (step + 1) start)
       else cbind (kh_flag (flags h) i) (\<lambda>w. Inr (if iseither w then n_buckets h else i)))"

definition kh_get :: "'v kh \<Rightarrow> string \<Rightarrow> nat cres" where
  "kh_get h key =
     (if n_buckets h \<noteq> 0 then
        (let i = kh_index (n_buckets h) key in get_probe (2 * n_buckets h) h key i 0 i)
      else Inr 0)"

subsection \<open>Rehashing\<close>

text \<open>The first free bucket on the probe path in the new flags.\<close>

fun free_probe :: "nat \<Rightarrow> nat \<Rightarrow> 32 word list \<Rightarrow> nat \<Rightarrow> nat \<Rightarrow> nat cres" where
  "free_probe 0 n nf i step = Inl Diverges"
| "free_probe (Suc fuel) n nf i step =
     cbind (kh_flag nf i) (\<lambda>w.
       if \<not> isempty w then free_probe fuel n nf ((i + (step + 1)) AND (n - 1)) (step + 1)
       else Inr i)"

text \<open>The kick-out loop for the key and value in hand; an element of the old table that sits in the
  chosen bucket is taken out and placed next.\<close>

fun kh_kick :: "nat \<Rightarrow> nat \<Rightarrow> 'v kh \<Rightarrow> 32 word list \<Rightarrow> string \<Rightarrow> 'v option \<Rightarrow> ('v kh \<times> 32 word list) cres" where
  "kh_kick 0 n h nf key val = Inl Diverges"
| "kh_kick (Suc fuel) n h nf key val =
     cbind (free_probe n n nf (kh_index n key) 0) (\<lambda>i.
     cbind (set_isempty_false nf i) (\<lambda>nf.
     cbind (if i < n_buckets h then cbind (kh_flag (flags h) i) (\<lambda>w. Inr (\<not> iseither w)) else Inr False)
       (\<lambda>kick.
         if kick then
           cbind (key_at h i) (\<lambda>key'.
           cbind (val_at h i) (\<lambda>val'.
           cbind (set_key h i key) (\<lambda>h.
           cbind (set_val h i val) (\<lambda>h.
           cbind (set_isdel_true (flags h) i) (\<lambda>fl.
             kh_kick fuel n (h\<lparr>flags := fl\<rparr>) nf key' val')))))
         else
           cbind (set_key h i key) (\<lambda>h.
           cbind (set_val h i val) (\<lambda>h.
             Inr (h, nf))))))"

text \<open>The loop over the old buckets.\<close>

fun kh_rehash :: "nat \<Rightarrow> nat list \<Rightarrow> 'v kh \<Rightarrow> 32 word list \<Rightarrow> ('v kh \<times> 32 word list) cres" where
  "kh_rehash n [] h nf = Inr (h, nf)"
| "kh_rehash n (j # js) h nf =
     cbind (kh_flag (flags h) j) (\<lambda>w.
       if iseither w then kh_rehash n js h nf
       else
         cbind (key_at h j) (\<lambda>key.
         cbind (val_at h j) (\<lambda>val.
         cbind (set_isdel_true (flags h) j) (\<lambda>fl.
         cbind (kh_kick (Suc (n_buckets h)) n (h\<lparr>flags := fl\<rparr>) nf key val) (\<lambda>(h, nf).
           kh_rehash n js h nf)))))"

text \<open>\<^verbatim>\<open>realloc\<close> of an array to \<open>n\<close> elements.\<close>

definition arr_realloc :: "nat \<Rightarrow> 'a option list \<Rightarrow> 'a option list" where
  "arr_realloc n xs = take n xs @ replicate (n - length xs) None"

definition kh_resize :: "'v kh \<Rightarrow> nat \<Rightarrow> 'v kh cres" where
  "kh_resize h new_n =
     (let n = unat (kroundup32 (word_of_nat new_n));
          n = (if n < 4 then 4 else n)
      in if kh_size h \<ge> kh_upper n then Inr h
         else
           let h1 = (if n_buckets h < n
                     then h\<lparr>keys := arr_realloc n (keys h), vals := arr_realloc n (vals h)\<rparr> else h)
           in cbind (kh_rehash n [0..<n_buckets h1] h1 (fresh_flags n)) (\<lambda>(h2, new_flags).
                let h3 = (if n_buckets h2 > n
                          then h2\<lparr>keys := arr_realloc n (keys h2), vals := arr_realloc n (vals h2)\<rparr> else h2)
                in Inr (h3\<lparr>flags := new_flags, n_buckets := n, n_occupied := kh_size h3,
                           upper_bound := kh_upper n\<rparr>)))"

subsection \<open>Insertion and deletion\<close>

text \<open>The loop of \<^verbatim>\<open>kh_put\<close>: \<open>site\<close> is the last deleted bucket seen (\<^verbatim>\<open>n_buckets\<close> when there is none). The
  result is the bucket \<open>x\<close> of the code after the loop and the statement behind it.\<close>

fun put_probe :: "nat \<Rightarrow> 'v kh \<Rightarrow> string \<Rightarrow> nat \<Rightarrow> nat \<Rightarrow> nat \<Rightarrow> nat \<Rightarrow> nat cres" where
  "put_probe 0 h key i step start site = Inl Diverges"
| "put_probe (Suc fuel) h key i step start site =
     cbind (probe_on h key i) (\<lambda>go.
     cbind (kh_flag (flags h) i) (\<lambda>w.
       if go then
         (let site = (if isdel w then i else site);
              i' = (i + (step + 1)) AND (n_buckets h - 1)
          in if i' = start then Inr (if site \<noteq> n_buckets h then site else i')
             else put_probe fuel h key i' (step + 1) start site)
       else Inr (if isempty w \<and> site \<noteq> n_buckets h then site else i)))"

definition kh_put_slot :: "'v kh \<Rightarrow> string \<Rightarrow> nat cres" where
  "kh_put_slot h key =
     (let i = kh_index (n_buckets h) key
      in cbind (kh_flag (flags h) i) (\<lambda>w.
           if isempty w then Inr i else put_probe (2 * n_buckets h) h key i 0 i (n_buckets h)))"

text \<open>\<^verbatim>\<open>kh_put\<close> first makes room, then puts the key.\<close>

definition kh_make_room :: "'v kh \<Rightarrow> 'v kh cres" where
  "kh_make_room h =
     (if n_occupied h \<ge> upper_bound h
      then if n_buckets h > 2 * kh_size h then kh_resize h (n_buckets h - 1)
           else kh_resize h (n_buckets h + 1)
      else Inr h)"

definition kh_put_key :: "'v kh \<Rightarrow> string \<Rightarrow> ('v kh \<times> nat \<times> int) cres" where
  "kh_put_key h key =
     cbind (kh_put_slot h key) (\<lambda>x.
     cbind (kh_flag (flags h) x) (\<lambda>w.
       if isempty w then
         cbind (set_key h x key) (\<lambda>h.
         cbind (set_isboth_false (flags h) x) (\<lambda>fl.
           Inr (h\<lparr>flags := fl, kh_size := kh_size h + 1, n_occupied := n_occupied h + 1\<rparr>, x, 1)))
       else if isdel w then
         cbind (set_key h x key) (\<lambda>h.
         cbind (set_isboth_false (flags h) x) (\<lambda>fl.
           Inr (h\<lparr>flags := fl, kh_size := kh_size h + 1\<rparr>, x, 2)))
       else Inr (h, x, 0)))"

definition kh_put :: "'v kh \<Rightarrow> string \<Rightarrow> ('v kh \<times> nat \<times> int) cres" where
  "kh_put h key = cbind (kh_make_room h) (\<lambda>h. kh_put_key h key)"

definition kh_del :: "'v kh \<Rightarrow> nat \<Rightarrow> 'v kh cres" where
  "kh_del h x =
     (if x \<noteq> n_buckets h then
        cbind (kh_flag (flags h) x) (\<lambda>w.
          if \<not> iseither w
          then cbind (set_isdel_true (flags h) x) (\<lambda>fl. Inr (h\<lparr>flags := fl, kh_size := kh_size h - 1\<rparr>))
          else Inr h)
      else Inr h)"

text \<open>The macros \<^verbatim>\<open>kh_exist\<close>, \<^verbatim>\<open>kh_value\<close> and \<^verbatim>\<open>kh_value(h, i) = v\<close>.\<close>

definition kh_exist :: "'v kh \<Rightarrow> nat \<Rightarrow> bool cres" where
  "kh_exist h x = cbind (kh_flag (flags h) x) (\<lambda>w. Inr (\<not> iseither w))"

definition kh_value :: "'v kh \<Rightarrow> nat \<Rightarrow> 'v cres" where
  "kh_value h x = cbind (val_at h x) (\<lambda>v. case v of None \<Rightarrow> Inl Uninit | Some y \<Rightarrow> Inr y)"

definition kh_set_value :: "'v kh \<Rightarrow> nat \<Rightarrow> 'v \<Rightarrow> 'v kh cres" where
  "kh_set_value h x v = set_val h x (Some v)"

end
