(* ===== verification/KhashLoad.thy ===== *)
theory KhashLoad
  imports Khash
begin

section \<open>The load bound of the hash table\<close>

text \<open>
  The bound is computed in doubles. For the table sizes in use (powers of two) every operation of that
  computation is exact, so the bound is an integer expression; it lies strictly between half the
  number of buckets and that number, and is at least three quarters of it.
\<close>

subsection \<open>Exact dyadic values\<close>

lemma ilog2_eq: "2 ^ k \<le> n \<Longrightarrow> n < 2 ^ Suc k \<Longrightarrow> ilog2 n = k"
proof (induction k arbitrary: n)
  case 0
  then show ?case by (subst ilog2.simps) auto
next
  case (Suc k)
  have "2 ^ k \<le> n div 2" "n div 2 < 2 ^ Suc k" using Suc.prems by auto
  moreover have "\<not> n \<le> 1"
  proof -
    have "(1 :: nat) \<le> 2 ^ k" by (rule one_le_power) simp
    then show ?thesis using Suc.prems(1) unfolding power_Suc by linarith
  qed
  ultimately show ?case using Suc.IH by (subst ilog2.simps) auto
qed

lemma strip2_odd: "odd m \<Longrightarrow> strip2 m e = Fin m e"
  by (subst strip2.simps) auto

lemma strip2_double: "m \<noteq> 0 \<Longrightarrow> strip2 (2 * m) e = strip2 m (e + 1)"
  by (subst strip2.simps) auto

text \<open>The conversion to an integer does not depend on the representation.\<close>

definition trunc_dyadic :: "int \<Rightarrow> int \<Rightarrow> nat" where
  "trunc_dyadic m e = nat \<bar>m\<bar> * 2 ^ nat e div 2 ^ nat (- e)"

lemma trunc_dyadic_half:
  assumes "even m"
  shows "trunc_dyadic (m div 2) (e + 1) = trunc_dyadic m e"
proof -
  obtain k where k: "m = 2 * k" using assms by blast
  show ?thesis
  proof (cases "e < 0")
    case True
    then have "nat (- e) = Suc (nat (- (e + 1)))" by simp
    then have "(2 :: nat) ^ nat (- e) = 2 * 2 ^ nat (- (e + 1))" by (simp only: power_Suc)
    then show ?thesis using True by (simp add: trunc_dyadic_def k nat_mult_distrib abs_mult)
  next
    case False
    then have "nat (e + 1) = Suc (nat e)" by simp
    then show ?thesis using False by (simp add: trunc_dyadic_def k nat_mult_distrib abs_mult)
  qed
qed

lemma strip2_trunc: "strip2 m e = Fin m' e' \<Longrightarrow> trunc_dyadic m' e' = trunc_dyadic m e \<and> (0 \<le> m \<longrightarrow> 0 \<le> m')"
proof (induction m e rule: strip2.induct)
  case (1 m e)
  show ?case
  proof (cases "m = 0")
    case True
    then show ?thesis using "1.prems" by (auto simp: strip2.simps trunc_dyadic_def)
  next
    case nz: False
    show ?thesis
    proof (cases "even m")
      case True
      then have "strip2 (m div 2) (e + 1) = Fin m' e'" using "1.prems" nz by (subst (asm) strip2.simps) simp
      from "1.IH" [OF nz True this] trunc_dyadic_half [OF True] show ?thesis by (simp add: pos_imp_zdiv_nonneg_iff)
    next
      case False
      then show ?thesis using "1.prems" by (simp add: strip2_odd)
    qed
  qed
qed

lemma dbl_to_u64_strip2:
  assumes "0 \<le> m" "trunc_dyadic m e < 2 ^ 64"
  shows "dbl_to_u64 (strip2 m e) = Inr (trunc_dyadic m e)"
proof -
  have "\<exists>m' e'. strip2 m e = Fin m' e'"
    by (induction m e rule: strip2.induct) (subst strip2.simps, auto)
  then obtain m' e' where "strip2 m e = Fin m' e'" by blast
  with strip2_trunc [OF this] assms show ?thesis by (auto simp: trunc_dyadic_def Let_def)
qed

text \<open>A numerator of 51 bits over a power of two is not rounded.\<close>

lemma round_dyadic_exact:
  assumes "2 ^ 50 \<le> x" "x < 2 ^ 51" "1 \<le> m" "m \<le> 31"
  shows "round_dyadic (int x) (int m - 51) = strip2 (4 * int x) (int m - 53)"
proof -
  have lx: "ilog2 x = 50" using assms(1,2) by (intro ilog2_eq) auto
  have ld: "ilog2 (2 ^ (51 - m)) = 51 - m" by (intro ilog2_eq) auto
  have n: "nat (51 - int m) = 51 - m" "nat (53 - int m) = 53 - m" "nat (int m - 1) = m - 1" "nat (1 - int m) = 0"
    "nat (int m - 51) = 0" "nat (int m - 53) = 0" using assms by auto
  have b: "int (ilog2 x) - int (ilog2 (2 ^ (51 - m))) = int m - 1" using lx ld assms by simp
  have le: "2 ^ (51 - m) * 2 ^ (m - 1) \<le> x"
  proof -
    have "(2 :: nat) ^ (51 - m) * 2 ^ (m - 1) = 2 ^ 50"
      using assms by (simp flip: power_add)
    then show ?thesis using assms(1) by simp
  qed
  have e: "x * 2 ^ (53 - m) = (4 * x) * 2 ^ (51 - m)"
  proof -
    have "53 - m = (51 - m) + 2" using assms by simp
    then show ?thesis by (simp add: power_add)
  qed
  have q: "x * 2 ^ (53 - m) div 2 ^ (51 - m) = 4 * x" "x * 2 ^ (53 - m) mod 2 ^ (51 - m) = 0"
    unfolding e by simp_all
  have "0 < x" using assms(1) by (metis gr_zeroI le_zero_eq power_not_zero zero_neq_numeral)
  then show ?thesis
    unfolding round_dyadic_def round_frac_def
    using assms q le by (simp add: Let_def b n)
qed


subsection \<open>The bound\<close>

lemma dbl_of_nat_pow2:
  assumes "m \<le> 31"
  shows "dbl_of_nat (2 ^ m) = Fin 1 (int m)"
proof -
  have l: "ilog2 (2 ^ m) = m" "ilog2 (Suc 0) = 0" by (intro ilog2_eq; simp)+
  have n: "nat (52 - int m) = 52 - m" "nat (int m - 52) = 0" "nat (- int m) = 0" using assms by auto
  have p: "(2 :: nat) ^ m * 2 ^ (52 - m) = 2 ^ 52" using assms by (simp flip: power_add)
  have s: "strip2 (2 ^ k) e = Fin 1 (e + int k)" for k e
  proof (induction k arbitrary: e)
    case (Suc k)
    then show ?case using strip2_double [of "2 ^ k" e] by (simp add: add.commute add.left_commute)
  qed (simp add: strip2_odd)
  have "(4503599627370496 :: int) = 2 ^ 52" by simp
  then show ?thesis
    unfolding dbl_of_nat_def round_frac_def
    using assms p s [of 52] by (simp add: Let_def l n)
qed

lemma kh_upper_eq:
  assumes "2 \<le> m" "m \<le> 31"
  shows "kh_upper (2 ^ m) = (1733885856537641 + 2 ^ (50 - m)) div 2 ^ (51 - m)"
proof -
  let ?M = "1733885856537641 :: nat"
  let ?X = "?M + 2 ^ (50 - m)"
  have pm: "(2 :: nat) ^ (50 - m) \<le> 2 ^ 48" using assms by (intro power_increasing) auto
  have X: "2 ^ 50 \<le> ?X" "?X < 2 ^ 51" using pm by auto
  have "round_dyadic (int ?M) (int m - 51) = strip2 (4 * int ?M) (int m - 53)"
    by (rule round_dyadic_exact) (use assms in auto)
  also have "\<dots> = Fin (int ?M) (int m - 51)"
    using strip2_double [of "2 * int ?M" "int m - 53"] strip2_double [of "int ?M" "int m - 52"]
    by (simp add: strip2_odd)
  finally have mul: "dbl_mul (dbl_of_nat (2 ^ m)) dbl_0_77 = Fin (int ?M) (int m - 51)"
    using assms by (simp add: dbl_of_nat_pow2 dbl_0_77_def)
  have e: "min (int m - 51) (-1) = int m - 51" using assms by simp
  have "nat (-1 - (int m - 51)) = 50 - m" using assms by simp
  then have sub: "dbl_sub (Fin (int ?M) (int m - 51)) dbl_minus_0_5 = round_dyadic (int ?X) (int m - 51)"
    using assms by (simp add: dbl_minus_0_5_def e)
  have t: "trunc_dyadic (4 * int ?X) (int m - 53) = ?X div 2 ^ (51 - m)"
  proof -
    have "nat (53 - int m) = (51 - m) + 2" using assms by simp
    then have "(2 :: nat) ^ nat (53 - int m) = 4 * 2 ^ (51 - m)" by (simp add: power_add)
    moreover have "nat \<bar>4 * int x\<bar> = 4 * x" for x by (simp add: nat_mult_distrib)
    moreover have "nat (int m - 53) = 0" using assms by simp
    ultimately have "trunc_dyadic (4 * int ?X) (int m - 53) = 4 * ?X * 1 div (4 * 2 ^ (51 - m))"
      by (simp only: trunc_dyadic_def minus_diff_eq power_0)
    moreover have "4 * x div (4 * y) = x div y" for x y :: nat by simp
    ultimately show ?thesis by (simp only: mult_1_right)
  qed
  have "trunc_dyadic (4 * int ?X) (int m - 53) < 2 ^ 64"
    unfolding t using X(2) by (intro le_less_trans [OF div_le_dividend]) simp
  from dbl_to_u64_strip2 [OF _ this] have "dbl_to_u64 (strip2 (4 * int ?X) (int m - 53)) = Inr (?X div 2 ^ (51 - m))"
    unfolding t by simp
  moreover have "round_dyadic (int ?X) (int m - 51) = strip2 (4 * int ?X) (int m - 53)"
    by (rule round_dyadic_exact [OF X]) (use assms in auto)
  ultimately show ?thesis unfolding kh_upper_def mul sub by simp
qed

lemma kh_upper_bounds:
  assumes "2 \<le> m" "m \<le> 31"
  shows "2 ^ m < 2 * kh_upper (2 ^ m)" "kh_upper (2 ^ m) < 2 ^ m" "3 * 2 ^ m \<le> 4 * kh_upper (2 ^ m)"
proof -
  let ?X = "1733885856537641 + 2 ^ (50 - m) :: nat"
  have pm: "(2 :: nat) ^ (50 - m) \<le> 2 ^ 48" using assms by (intro power_increasing) auto
  have "?X < 2 ^ 51" using pm by auto
  also have "(2 :: nat) ^ 51 = 2 ^ m * 2 ^ (51 - m)" using assms by (simp flip: power_add)
  finally show u: "kh_upper (2 ^ m) < 2 ^ m" by (simp add: kh_upper_eq [OF assms] less_mult_imp_div_less)
  have "3 * 2 ^ (m - 2) * (2 :: nat) ^ (51 - m) = 3 * 2 ^ 49" using assms by (simp add: mult.assoc flip: power_add)
  also have "\<dots> \<le> ?X" by simp
  finally have "3 * 2 ^ (m - 2) \<le> kh_upper (2 ^ m)"
    unfolding kh_upper_eq [OF assms] by (simp add: less_eq_div_iff_mult_less_eq)
  moreover have "(2 :: nat) ^ m = 4 * 2 ^ (m - 2)"
  proof -
    obtain k where "m = k + 2" using assms(1) by (metis le_add_diff_inverse2)
    then show ?thesis by simp
  qed
  moreover have "0 < (2 :: nat) ^ (m - 2)" by simp
  ultimately show "3 * 2 ^ m \<le> 4 * kh_upper (2 ^ m)" "2 ^ m < 2 * kh_upper (2 ^ m)" by linarith+
qed

end
