(* ===== verification/KhashProbe.thy ===== *)
theory KhashProbe
  imports KhashLoad
begin

section \<open>Probing and flags of the hash table\<close>

text \<open>
  The facts the table rests on: triangular probing over a power of two visits every bucket, the packed
  flags behave like one pair of booleans per bucket, rounding gives the next power of two, and the load
  bound lies between half the buckets and all of them.
\<close>

subsection \<open>Triangular probing\<close>

definition tri :: "nat \<Rightarrow> nat" where
  "tri k = k * (k + 1) div 2"

lemma tri_0 [simp]: "tri 0 = 0"
  by (simp add: tri_def)

lemma tri_Suc: "tri (Suc k) = tri k + Suc k"
proof -
  have "Suc k * (Suc k + 1) = k * (k + 1) + 2 * Suc k" by (simp add: algebra_simps)
  then show ?thesis by (simp add: tri_def)
qed

lemma two_tri: "2 * tri k = k * (k + 1)"
  by (induction k) (auto simp: tri_Suc algebra_simps)

text \<open>The bucket of the \<open>k\<close>-th probe from bucket \<open>i\<close>.\<close>

definition probe :: "nat \<Rightarrow> nat \<Rightarrow> nat \<Rightarrow> nat" where
  "probe n i k = (i + tri k) mod n"

lemma probe_0 [simp]: "i < n \<Longrightarrow> probe n i 0 = i"
  by (simp add: probe_def)

lemma probe_less [simp]: "0 < n \<Longrightarrow> probe n i k < n"
  by (simp add: probe_def)

lemma probe_Suc: "probe n i (Suc k) = (probe n i k + (k + 1)) mod n"
  unfolding probe_def tri_Suc by (metis Suc_eq_plus1 add.assoc mod_add_left_eq)

lemma and_mask: "(x :: nat) AND (2 ^ m - 1) = x mod 2 ^ m"
  by (simp add: take_bit_eq_mod [symmetric] take_bit_eq_mask mask_eq_exp_minus_1)

lemma tri_inj_aux:
  fixes j k m :: nat
  assumes "j < k" "k < 2 ^ m"
  shows "\<not> 2 ^ Suc m dvd (k - j) * (k + j + 1)"
proof
  assume d: "2 ^ Suc m dvd (k - j) * (k + j + 1)"
  have lt: "k - j < 2 ^ Suc m" "0 < k - j" "k + j + 1 < 2 ^ Suc m" "0 < k + j + 1"
    using assms by auto
  show False
  proof (cases "even (k - j)")
    case True
    then have "odd (k + j + 1)" using assms(1) by auto
    then have "coprime (2 ^ Suc m) (k + j + 1)" by simp
    with d have "2 ^ Suc m dvd k - j" using coprime_dvd_mult_left_iff by blast
    then show False using lt(1,2) by (meson dvd_imp_le not_le)
  next
    case False
    then have "coprime (2 ^ Suc m) (k - j)" by simp
    with d have "2 ^ Suc m dvd k + j + 1" using coprime_dvd_mult_right_iff by blast
    then show False using lt(3,4) by (meson dvd_imp_le not_le)
  qed
qed

lemma probe_inj: "inj_on (probe (2 ^ m) i) {..<2 ^ m}"
proof (rule linorder_inj_onI')
  fix j k assume jk: "j \<in> {..<2 ^ m}" "k \<in> {..<2 ^ m}" "j < (k :: nat)"
  show "probe (2 ^ m) i j \<noteq> probe (2 ^ m) i k"
  proof
    assume eq: "probe (2 ^ m) i j = probe (2 ^ m) i k"
    have "2 * tri j \<le> 2 * tri k" unfolding two_tri using jk(3) by (intro mult_le_mono) auto
    then have mono: "tri j \<le> tri k" by simp
    from eq [symmetric] have "(2 :: nat) ^ m dvd (i + tri k) - (i + tri j)"
      unfolding probe_def using mono by (subst (asm) mod_eq_dvd_iff_nat) auto
    then have "(2 :: nat) ^ m dvd tri k - tri j" by simp
    then have "(2 :: nat) ^ Suc m dvd 2 * (tri k - tri j)" by simp
    also have "2 * (tri k - tri j) = k * (k + 1) - j * (j + 1)"
      by (simp only: diff_mult_distrib2 two_tri)
    also have "\<dots> = (k - j) * (k + j + 1)"
    proof -
      obtain d where "k = j + d" using jk(3) less_imp_add_positive by blast
      then show ?thesis by (simp add: algebra_simps)
    qed
    finally show False using tri_inj_aux [of j k m] jk by simp
  qed
qed

text \<open>Every bucket is the target of a probe with a number below the number of buckets.\<close>

lemma probe_surj:
  assumes "x < 2 ^ m"
  obtains k where "k < 2 ^ m" "probe (2 ^ m) i k = x"
proof -
  have "probe (2 ^ m) i ` {..<2 ^ m} \<subseteq> {..<2 ^ m}" by auto
  then have "probe (2 ^ m) i ` {..<2 ^ m} = {..<2 ^ m}"
    using probe_inj [of m i] by (simp add: endo_inj_surj)
  then show ?thesis using assms that by (metis image_iff lessThan_iff)
qed

lemma probe_not_start:
  "0 < k \<Longrightarrow> k < 2 ^ m \<Longrightarrow> i < 2 ^ m \<Longrightarrow> probe (2 ^ m) i k \<noteq> i"
  using inj_onD [OF probe_inj [of m i], of k 0] by auto

subsection \<open>Flags\<close>

definition emp :: "32 word list \<Rightarrow> nat \<Rightarrow> bool" where
  "emp fl i = bit (fl ! (i div 16)) (2 * (i mod 16) + 1)"

definition dele :: "32 word list \<Rightarrow> nat \<Rightarrow> bool" where
  "dele fl i = bit (fl ! (i div 16)) (2 * (i mod 16))"

abbreviation live :: "32 word list \<Rightarrow> nat \<Rightarrow> bool" where
  "live fl i \<equiv> \<not> emp fl i \<and> \<not> dele fl i"

definition flag_room :: "nat \<Rightarrow> 32 word list \<Rightarrow> bool" where
  "flag_room n fl \<longleftrightarrow> length fl = kh_fsize n"

lemma flag_index: "flag_room n fl \<Longrightarrow> i < n \<Longrightarrow> n = 2 ^ m \<Longrightarrow> i div 16 < length fl"
proof -
  assume a: "flag_room n fl" "i < n" "n = 2 ^ m"
  show ?thesis
  proof (cases "n < 16")
    case True
    then show ?thesis using a by (simp add: flag_room_def kh_fsize_def)
  next
    case False
    have "4 \<le> m"
    proof (rule ccontr)
      assume "\<not> 4 \<le> m"
      then have "(2 :: nat) ^ m < 2 ^ 4" by (intro power_strict_increasing) auto
      with a(3) False show False by simp
    qed
    then obtain k where "n = 16 * 2 ^ k" using a(3) by (auto simp: le_iff_add power_add)
    then show ?thesis using a False
      by (simp add: flag_room_def kh_fsize_def drop_bit_eq_div less_mult_imp_div_less mult.commute)
  qed
qed

lemma shift_index: "drop_bit 4 (i :: nat) = i div 16" "push_bit 1 (i AND 0xf) = 2 * (i mod 16)"
proof -
  show "drop_bit 4 i = i div 16" by (simp add: drop_bit_eq_div)
  have "i AND 0xf = i mod 16" using and_mask [of i 4] by simp
  then show "push_bit 1 (i AND 0xf) = 2 * (i mod 16)" by (simp add: push_bit_eq_mult)
qed

lemma flag_tests:
  fixes w :: "32 word"
  shows "isempty (drop_bit k w) = bit w (k + 1)" "isdel (drop_bit k w) = bit w k"
proof -
  have "(x AND 1 \<noteq> 0) = bit x 0" for x :: "32 word"
    by (simp add: and_one_eq odd_iff_mod_2_eq_one bit_0 flip: odd_iff_mod_2_eq_one)
  moreover have "(x AND 2 \<noteq> 0) = bit x 1" for x :: "32 word"
    by (metis and_exp_eq_0_iff_not_bit power_one_right)
  ultimately show "isempty (drop_bit k w) = bit w (k + 1)" "isdel (drop_bit k w) = bit w k"
    by (simp_all add: isempty_def isdel_def bit_drop_bit_eq)
qed

lemma iseither_tests: "iseither w = (isempty w \<or> isdel w)"
proof -
  have "w AND 3 = (w AND 2) OR (w AND 1)"
  proof -
    have "(3 :: 32 word) = 2 OR 1" by simp
    then show ?thesis by (simp only: bit.conj_disj_distrib)
  qed
  then show ?thesis by (simp add: iseither_def isempty_def isdel_def or_eq_0_iff)
qed

text \<open>Reading and writing the flags of a bucket of a table with \<open>n\<close> buckets.\<close>

definition flagw :: "32 word list \<Rightarrow> nat \<Rightarrow> 32 word" where
  "flagw fl i = drop_bit (2 * (i mod 16)) (fl ! (i div 16))"

lemma flagw_tests [simp]:
  "isempty (flagw fl i) = emp fl i" "isdel (flagw fl i) = dele fl i"
  "iseither (flagw fl i) = (emp fl i \<or> dele fl i)"
  by (simp_all add: flagw_def iseither_tests flag_tests emp_def dele_def)

lemma kh_flag_room:
  assumes "flag_room (2 ^ m) fl" "i < 2 ^ m"
  shows "kh_flag fl i = Inr (flagw fl i)"
  unfolding kh_flag_def shift_index flagw_def using flag_index [OF assms refl] by simp

lemma bit_small:
  "bit (1 :: 32 word) q \<longleftrightarrow> q = 0" "bit (2 :: 32 word) q \<longleftrightarrow> q = 1" "bit (3 :: 32 word) q \<longleftrightarrow> q = 0 \<or> q = 1"
proof -
  show 1: "bit (1 :: 32 word) q \<longleftrightarrow> q = 0" for q by (simp add: bit_1_iff)
  have "bit (2 ^ 1 :: 32 word) q \<longleftrightarrow> q = 1" unfolding bit_exp_iff by auto
  then show 2: "bit (2 :: 32 word) q \<longleftrightarrow> q = 1" by simp
  have "(3 :: 32 word) = 2 OR 1" by simp
  then show "bit (3 :: 32 word) q \<longleftrightarrow> q = 0 \<or> q = 1"
    by (simp only: bit_or_iff 1 2) blast
qed

lemma set_flag_room:
  assumes "flag_room (2 ^ m) fl" "i < 2 ^ m"
  obtains fl' where "kh_flag_set f b fl i = Inr fl'" "flag_room (2 ^ m) fl'"
    "\<And>j. j div 16 \<noteq> i div 16 \<Longrightarrow> fl' ! (j div 16) = fl ! (j div 16)"
    "\<And>j. j div 16 = i div 16 \<Longrightarrow> fl' ! (j div 16) = f (fl ! (j div 16)) (push_bit (2 * (i mod 16)) b)"
proof
  let ?fl = "fl[i div 16 := f (fl ! (i div 16)) (push_bit (2 * (i mod 16)) b)]"
  show "kh_flag_set f b fl i = Inr ?fl"
    unfolding kh_flag_set_def shift_index using flag_index [OF assms refl] by simp
qed (use flag_index [OF assms refl] assms(1) in \<open>auto simp: flag_room_def\<close>)

text \<open>The two bits of each of the sixteen places of a word, for masks moved to one place.\<close>

lemma bit_moved:
  fixes b :: "32 word"
  assumes "i < 16" "j < 16"
  shows "bit (push_bit (2 * i) b) (2 * j + 1) \<longleftrightarrow> i \<le> j \<and> bit b (2 * (j - i) + 1)"
    and "bit (push_bit (2 * i) b) (2 * j) \<longleftrightarrow> i \<le> j \<and> bit b (2 * (j - i))"
proof -
  have "2 * j + 1 - 2 * i = 2 * (j - i) + 1" if "i \<le> j" using that by simp
  then show "bit (push_bit (2 * i) b) (2 * j + 1) \<longleftrightarrow> i \<le> j \<and> bit b (2 * (j - i) + 1)"
    using assms unfolding bit_push_bit_iff by (auto simp: possible_bit_word)
  have "2 * j - 2 * i = 2 * (j - i)" by simp
  then show "bit (push_bit (2 * i) b) (2 * j) \<longleftrightarrow> i \<le> j \<and> bit b (2 * (j - i))"
    using assms unfolding bit_push_bit_iff by (auto simp: possible_bit_word)
qed

lemma bit_place:
  fixes i j :: nat
  defines "a \<equiv> i mod 16" and "c \<equiv> j mod 16"
  shows "bit (push_bit (2 * a) 2 :: 32 word) (2 * c + 1) \<longleftrightarrow> c = a" "\<not> bit (push_bit (2 * a) 2 :: 32 word) (2 * c)"
    "bit (push_bit (2 * a) 3 :: 32 word) (2 * c + 1) \<longleftrightarrow> c = a" "bit (push_bit (2 * a) 3 :: 32 word) (2 * c) \<longleftrightarrow> c = a"
    "\<not> bit (push_bit (2 * a) 1 :: 32 word) (2 * c + 1)" "bit (push_bit (2 * a) 1 :: 32 word) (2 * c) \<longleftrightarrow> c = a"
proof -
  have lt: "a < 16" "c < 16" by (simp_all add: a_def c_def)
  show "bit (push_bit (2 * a) 2 :: 32 word) (2 * c + 1) \<longleftrightarrow> c = a" "\<not> bit (push_bit (2 * a) 2 :: 32 word) (2 * c)"
    "bit (push_bit (2 * a) 3 :: 32 word) (2 * c + 1) \<longleftrightarrow> c = a" "bit (push_bit (2 * a) 3 :: 32 word) (2 * c) \<longleftrightarrow> c = a"
    "\<not> bit (push_bit (2 * a) 1 :: 32 word) (2 * c + 1)" "bit (push_bit (2 * a) 1 :: 32 word) (2 * c) \<longleftrightarrow> c = a"
    unfolding bit_moved [OF lt] bit_small by auto
qed

lemma bucket_eq: "(j :: nat) div 16 = i div 16 \<Longrightarrow> j mod 16 = i mod 16 \<Longrightarrow> j = i"
  by (metis mult_div_mod_eq)

lemma possible_bit_flag: "possible_bit TYPE(32 word) (2 * (j mod 16) + 1)" "possible_bit TYPE(32 word) (2 * (j mod 16))"
proof -
  have "j mod 16 < 16" by simp
  then show "possible_bit TYPE(32 word) (2 * (j mod 16) + 1)" "possible_bit TYPE(32 word) (2 * (j mod 16))"
    by (auto simp: possible_bit_word)
qed

lemma set_isempty_false_room:
  assumes "flag_room (2 ^ m) fl" "i < 2 ^ m"
  obtains fl' where "set_isempty_false fl i = Inr fl'" "flag_room (2 ^ m) fl'"
    "\<And>j. emp fl' j \<longleftrightarrow> emp fl j \<and> j \<noteq> i" "\<And>j. dele fl' j = dele fl j"
proof (rule set_flag_room [OF assms, of "\<lambda>w b. w AND NOT b" 2])
  fix fl' assume s: "kh_flag_set (\<lambda>w b. w AND NOT b) 2 fl i = Inr fl'" "flag_room (2 ^ m) fl'"
    "\<And>j. j div 16 \<noteq> i div 16 \<Longrightarrow> fl' ! (j div 16) = fl ! (j div 16)"
    "\<And>j. j div 16 = i div 16 \<Longrightarrow> fl' ! (j div 16) = fl ! (j div 16) AND NOT (push_bit (2 * (i mod 16)) 2)"
  have "(emp fl' j \<longleftrightarrow> emp fl j \<and> j \<noteq> i) \<and> dele fl' j = dele fl j" for j
    using s(3,4) [of j] bucket_eq [of j i]
    unfolding emp_def dele_def
    by (cases "j div 16 = i div 16") (auto simp only: bit_and_iff bit_not_iff bit_place possible_bit_flag simp_thms)
  with s show thesis by (intro that [of fl']) (auto simp: set_isempty_false_def)
qed

lemma set_isboth_false_room:
  assumes "flag_room (2 ^ m) fl" "i < 2 ^ m"
  obtains fl' where "set_isboth_false fl i = Inr fl'" "flag_room (2 ^ m) fl'"
    "\<And>j. emp fl' j \<longleftrightarrow> emp fl j \<and> j \<noteq> i" "\<And>j. dele fl' j \<longleftrightarrow> dele fl j \<and> j \<noteq> i"
proof (rule set_flag_room [OF assms, of "\<lambda>w b. w AND NOT b" 3])
  fix fl' assume s: "kh_flag_set (\<lambda>w b. w AND NOT b) 3 fl i = Inr fl'" "flag_room (2 ^ m) fl'"
    "\<And>j. j div 16 \<noteq> i div 16 \<Longrightarrow> fl' ! (j div 16) = fl ! (j div 16)"
    "\<And>j. j div 16 = i div 16 \<Longrightarrow> fl' ! (j div 16) = fl ! (j div 16) AND NOT (push_bit (2 * (i mod 16)) 3)"
  have "(emp fl' j \<longleftrightarrow> emp fl j \<and> j \<noteq> i) \<and> (dele fl' j \<longleftrightarrow> dele fl j \<and> j \<noteq> i)" for j
    using s(3,4) [of j] bucket_eq [of j i]
    unfolding emp_def dele_def
    by (cases "j div 16 = i div 16") (auto simp only: bit_and_iff bit_not_iff bit_place possible_bit_flag simp_thms)
  with s show thesis by (intro that [of fl']) (auto simp: set_isboth_false_def)
qed

lemma set_isdel_true_room:
  assumes "flag_room (2 ^ m) fl" "i < 2 ^ m"
  obtains fl' where "set_isdel_true fl i = Inr fl'" "flag_room (2 ^ m) fl'"
    "\<And>j. emp fl' j = emp fl j" "\<And>j. dele fl' j \<longleftrightarrow> dele fl j \<or> j = i"
proof (rule set_flag_room [OF assms, of "\<lambda>w b. w OR b" 1])
  fix fl' assume s: "kh_flag_set (\<lambda>w b. w OR b) 1 fl i = Inr fl'" "flag_room (2 ^ m) fl'"
    "\<And>j. j div 16 \<noteq> i div 16 \<Longrightarrow> fl' ! (j div 16) = fl ! (j div 16)"
    "\<And>j. j div 16 = i div 16 \<Longrightarrow> fl' ! (j div 16) = fl ! (j div 16) OR push_bit (2 * (i mod 16)) 1"
  have "emp fl' j = emp fl j \<and> (dele fl' j \<longleftrightarrow> dele fl j \<or> j = i)" for j
    using s(3,4) [of j] bucket_eq [of j i]
    unfolding emp_def dele_def
    by (cases "j div 16 = i div 16") (auto simp only: bit_or_iff bit_place possible_bit_flag simp_thms)
  with s show thesis by (intro that [of fl']) (auto simp: set_isdel_true_def)
qed

lemma fresh_flags_room:
  assumes "i < 2 ^ m"
  shows "flag_room (2 ^ m) (fresh_flags (2 ^ m))" "emp (fresh_flags (2 ^ m)) i" "\<not> dele (fresh_flags (2 ^ m)) i"
proof -
  show r: "flag_room (2 ^ m) (fresh_flags (2 ^ m))" by (simp add: flag_room_def fresh_flags_def)
  have w: "fresh_flags (2 ^ m) ! (i div 16) = 0xaaaaaaaa"
    using flag_index [OF r assms refl] by (simp add: fresh_flags_def)
  have "bit (0xaaaaaaaa :: 32 word) (2 * k + 1) \<and> \<not> bit (0xaaaaaaaa :: 32 word) (2 * k)" if "k < 16" for k :: nat
  proof -
    have "k = 0 \<or> k = 1 \<or> k = 2 \<or> k = 3 \<or> k = 4 \<or> k = 5 \<or> k = 6 \<or> k = 7 \<or> k = 8 \<or> k = 9 \<or> k = 10 \<or> k = 11 \<or>
        k = 12 \<or> k = 13 \<or> k = 14 \<or> k = 15" using that by arith
    then show ?thesis by (elim disjE) simp_all
  qed
  then have "bit (0xaaaaaaaa :: 32 word) (2 * (i mod 16) + 1) \<and> \<not> bit (0xaaaaaaaa :: 32 word) (2 * (i mod 16))"
    by simp
  then show "emp (fresh_flags (2 ^ m)) i" "\<not> dele (fresh_flags (2 ^ m)) i"
    by (simp_all add: emp_def dele_def w)
qed

subsection \<open>Sizes\<close>

text \<open>The sizes a resize rounds to, for the two arguments \<^verbatim>\<open>kh_put\<close> passes.\<close>

lemma kroundup32_up:
  assumes "2 \<le> m" "m \<le> 30"
  shows "unat (kroundup32 (word_of_nat (2 ^ m + 1))) = 2 ^ (m + 1)"
proof -
  have "m = 2 \<or> m = 3 \<or> m = 4 \<or> m = 5 \<or> m = 6 \<or> m = 7 \<or> m = 8 \<or> m = 9 \<or> m = 10 \<or> m = 11 \<or> m = 12 \<or> m = 13 \<or>
      m = 14 \<or> m = 15 \<or> m = 16 \<or> m = 17 \<or> m = 18 \<or> m = 19 \<or> m = 20 \<or> m = 21 \<or> m = 22 \<or> m = 23 \<or> m = 24 \<or>
      m = 25 \<or> m = 26 \<or> m = 27 \<or> m = 28 \<or> m = 29 \<or> m = 30"
    using assms by arith
  then show ?thesis by (elim disjE) (simp_all add: kroundup32_def)
qed

lemma kroundup32_same:
  assumes "2 \<le> m" "m \<le> 31"
  shows "unat (kroundup32 (word_of_nat (2 ^ m - 1))) = 2 ^ m"
proof -
  have "m = 2 \<or> m = 3 \<or> m = 4 \<or> m = 5 \<or> m = 6 \<or> m = 7 \<or> m = 8 \<or> m = 9 \<or> m = 10 \<or> m = 11 \<or> m = 12 \<or> m = 13 \<or>
      m = 14 \<or> m = 15 \<or> m = 16 \<or> m = 17 \<or> m = 18 \<or> m = 19 \<or> m = 20 \<or> m = 21 \<or> m = 22 \<or> m = 23 \<or> m = 24 \<or>
      m = 25 \<or> m = 26 \<or> m = 27 \<or> m = 28 \<or> m = 29 \<or> m = 30 \<or> m = 31"
    using assms by arith
  then show ?thesis by (elim disjE) (simp_all add: kroundup32_def)
qed

end
