(* ===== verification/KhashRehash.thy ===== *)
theory KhashRehash
  imports KhashProbe
begin

section \<open>Rehashing keeps the entries\<close>

text \<open>
  The loop of \<^verbatim>\<open>kh_resize\<close> moves the entries within the one pair of arrays from their places under the old
  flags to places under the new flags. Its invariant: the old places still in use and the new ones are
  disjoint, together with the entry in hand they hold each entry of the table once, and every new place
  lies on the probe path of its key behind taken places only.
\<close>

subsection \<open>Probe paths\<close>

lemma kh_index_less: "kh_index (2 ^ m) key < 2 ^ m"
  unfolding kh_index_def and_mask by simp

abbreviation path :: "nat \<Rightarrow> string \<Rightarrow> nat \<Rightarrow> nat" where
  "path n key k \<equiv> probe n (kh_index n key) k"

definition on_path :: "nat \<Rightarrow> (nat \<Rightarrow> bool) \<Rightarrow> string \<Rightarrow> nat \<Rightarrow> bool" where
  "on_path n taken key i \<longleftrightarrow> (\<exists>k<n. path n key k = i \<and> (\<forall>j<k. taken (path n key j)))"

lemma on_path_mono: "on_path n taken key i \<Longrightarrow> (\<And>j. taken j \<Longrightarrow> taken' j) \<Longrightarrow> on_path n taken' key i"
  unfolding on_path_def by blast

text \<open>The first probe that meets a condition some bucket meets.\<close>

lemma first_probe:
  assumes "P x" "x < 2 ^ m"
  obtains k where "k < 2 ^ m" "P (path (2 ^ m) key k)" "\<And>j. j < k \<Longrightarrow> \<not> P (path (2 ^ m) key j)"
proof -
  obtain k0 where k0: "k0 < 2 ^ m" "path (2 ^ m) key k0 = x"
    using probe_surj [OF assms(2)] by metis
  then have "P (path (2 ^ m) key k0)" using assms(1) by simp
  then show ?thesis
    using that [of "LEAST k. P (path (2 ^ m) key k)"] LeastI [of "\<lambda>k. P (path (2 ^ m) key k)" k0]
      Least_le [of "\<lambda>k. P (path (2 ^ m) key k)" k0] not_less_Least k0(1)
    by (meson le_less_trans)
qed

lemma path_step: "(path (2 ^ m) key k + (k + 1)) AND (2 ^ m - 1) = path (2 ^ m) key (Suc k)"
  unfolding and_mask probe_Suc ..

lemma free_probe_run:
  assumes room: "flag_room (2 ^ m) nf"
    and K: "emp nf (path (2 ^ m) key K)" "\<And>j. j < K \<Longrightarrow> \<not> emp nf (path (2 ^ m) key j)"
  shows "k \<le> K \<Longrightarrow> K - k < fuel \<Longrightarrow> free_probe fuel (2 ^ m) nf (path (2 ^ m) key k) k = Inr (path (2 ^ m) key K)"
proof (induction fuel arbitrary: k)
  case (Suc fuel)
  have flag: "kh_flag nf (path (2 ^ m) key k) = Inr (flagw nf (path (2 ^ m) key k))"
    by (rule kh_flag_room [OF room]) simp
  show ?case
  proof (cases "k = K")
    case True
    then show ?thesis using flag K(1) by simp
  next
    case False
    then have "k < K" using Suc.prems by simp
    then show ?thesis
      using flag K(2) Suc.IH [of "Suc k"] Suc.prems path_step [of m key k] by simp
  qed
qed simp

subsection \<open>The invariant\<close>

definition taken_in :: "nat \<Rightarrow> 32 word list \<Rightarrow> nat set" where
  "taken_in n nf = {i. i < n \<and> \<not> emp nf i}"

definition lives :: "'v kh \<Rightarrow> nat set" where
  "lives h = {i. i < n_buckets h \<and> live (flags h) i}"

lemma finite_taken [simp]: "finite (taken_in n nf)" "finite (lives h)"
  by (simp_all add: taken_in_def lives_def)

definition pairs_at :: "'v kh \<Rightarrow> nat set \<Rightarrow> (string \<times> 'v option) set" where
  "pairs_at h I = {(k, v). \<exists>i\<in>I. keys h ! i = Some k \<and> vals h ! i = v}"

definition places_ok :: "'v kh \<Rightarrow> nat set \<Rightarrow> bool" where
  "places_ok h I \<longleftrightarrow> (\<forall>i\<in>I. keys h ! i \<noteq> None) \<and> inj_on (\<lambda>i. keys h ! i) I"

definition old_room :: "'v kh \<Rightarrow> bool" where
  "old_room h \<longleftrightarrow> n_buckets h = 0 \<or> (\<exists>m0. n_buckets h = 2 ^ m0 \<and> flag_room (2 ^ m0) (flags h))"

definition rehash_inv :: "nat \<Rightarrow> 'v kh \<Rightarrow> 32 word list \<Rightarrow> (string \<times> 'v option) option \<Rightarrow>
    (string \<times> 'v option) set \<Rightarrow> nat \<Rightarrow> bool" where
  "rehash_inv n h nf pend S sz \<longleftrightarrow>
     flag_room n nf \<and> (\<forall>i<n. \<not> dele nf i) \<and> old_room h \<and>
     length (keys h) = max (n_buckets h) n \<and> length (vals h) = max (n_buckets h) n \<and>
     lives h \<inter> taken_in n nf = {} \<and> places_ok h (lives h \<union> taken_in n nf) \<and>
     (\<forall>i\<in>taken_in n nf. on_path n (\<lambda>j. \<not> emp nf j) (the (keys h ! i)) i) \<and>
     (\<forall>(k, v)\<in>set_option pend. \<forall>i\<in>lives h \<union> taken_in n nf. keys h ! i \<noteq> Some k) \<and>
     S = pairs_at h (lives h \<union> taken_in n nf) \<union> set_option pend \<and>
     card (lives h) + card (taken_in n nf) + (case pend of None \<Rightarrow> 0 | Some _ \<Rightarrow> 1) = sz"

lemma rehash_invI:
  assumes "flag_room n nf" "\<forall>i<n. \<not> dele nf i" "old_room h"
    "length (keys h) = max (n_buckets h) n" "length (vals h) = max (n_buckets h) n"
    "lives h = L" "taken_in n nf = W" "L \<inter> W = {}" "places_ok h (L \<union> W)"
    "\<forall>i\<in>W. on_path n (\<lambda>j. \<not> emp nf j) (the (keys h ! i)) i"
    "\<forall>i\<in>L \<union> W. keys h ! i \<noteq> Some k" "S = insert (k, v) (pairs_at h (L \<union> W))"
    "card L + card W + 1 = sz"
  shows "rehash_inv n h nf (Some (k, v)) S sz"
  using assms unfolding rehash_inv_def by simp

lemma old_flag:
  assumes "old_room h" "i < n_buckets h"
  shows "kh_flag (flags h) i = Inr (flagw (flags h) i)"
  using assms kh_flag_room unfolding old_room_def by (metis not_less_zero)

text \<open>Taking an entry out of its old place.\<close>

lemma take_old:
  assumes "old_room h" "i \<in> lives h"
  obtains fl where "set_isdel_true (flags h) i = Inr fl" "old_room (h\<lparr>flags := fl\<rparr>)"
    "lives (h\<lparr>flags := fl\<rparr>) = lives h - {i}"
proof -
  obtain m0 where m0: "n_buckets h = 2 ^ m0" "flag_room (2 ^ m0) (flags h)" "i < 2 ^ m0"
    using assms by (auto simp: old_room_def lives_def)
  obtain fl where fl: "set_isdel_true (flags h) i = Inr fl" "flag_room (2 ^ m0) fl"
      "\<And>j. emp fl j = emp (flags h) j" "\<And>j. dele fl j \<longleftrightarrow> dele (flags h) j \<or> j = i"
    using set_isdel_true_room [OF m0(2,3)] by metis
  show ?thesis
    by (rule that [of fl]) (use fl m0 in \<open>auto simp: old_room_def lives_def\<close>)
qed

text \<open>A place for the entry in hand.\<close>

lemma find_place:
  assumes inv: "rehash_inv (2 ^ m) h nf (Some (key, val)) S sz" and sz: "sz < 2 ^ m"
  obtains i nf' where "i < 2 ^ m" "emp nf i" "free_probe (2 ^ m) (2 ^ m) nf (kh_index (2 ^ m) key) 0 = Inr i"
    "set_isempty_false nf i = Inr nf'" "flag_room (2 ^ m) nf'" "\<forall>j<2 ^ m. \<not> dele nf' j"
    "taken_in (2 ^ m) nf' = insert i (taken_in (2 ^ m) nf)" "i \<notin> taken_in (2 ^ m) nf"
    "on_path (2 ^ m) (\<lambda>j. \<not> emp nf' j) key i"
    "\<And>k x. on_path (2 ^ m) (\<lambda>j. \<not> emp nf j) k x \<Longrightarrow> on_path (2 ^ m) (\<lambda>j. \<not> emp nf' j) k x"
proof -
  have room: "flag_room (2 ^ m) nf" and nd: "\<forall>j<2 ^ m. \<not> dele nf j"
    and "card (taken_in (2 ^ m) nf) < 2 ^ m"
    using inv sz by (auto simp: rehash_inv_def)
  then have "taken_in (2 ^ m) nf \<noteq> {..<2 ^ m}" by auto
  then obtain x where "x < 2 ^ m" "emp nf x" by (auto simp: taken_in_def)
  then obtain K where K: "K < 2 ^ m" "emp nf (path (2 ^ m) key K)"
      "\<And>j. j < K \<Longrightarrow> \<not> emp nf (path (2 ^ m) key j)"
    using first_probe [of "emp nf" x m key] by metis
  let ?i = "path (2 ^ m) key K"
  have i: "?i < 2 ^ m" by simp
  obtain nf' where nf': "set_isempty_false nf ?i = Inr nf'" "flag_room (2 ^ m) nf'"
      "\<And>j. emp nf' j \<longleftrightarrow> emp nf j \<and> j \<noteq> ?i" "\<And>j. dele nf' j = dele nf j"
    using set_isempty_false_room [OF room i] by metis
  have "free_probe (2 ^ m) (2 ^ m) nf (path (2 ^ m) key 0) 0 = Inr ?i"
    by (rule free_probe_run [OF room K(2,3)]) (use K in auto)
  then have probe: "free_probe (2 ^ m) (2 ^ m) nf (kh_index (2 ^ m) key) 0 = Inr ?i"
    using kh_index_less [of m key] by simp
  have nd': "\<forall>j<2 ^ m. \<not> dele nf' j" using nd nf'(4) by simp
  have taken: "taken_in (2 ^ m) nf' = insert ?i (taken_in (2 ^ m) nf)" "?i \<notin> taken_in (2 ^ m) nf"
    using i K(2) by (auto simp: taken_in_def nf'(3))
  have here: "on_path (2 ^ m) (\<lambda>j. \<not> emp nf' j) key ?i"
    unfolding on_path_def by (rule exI [of _ K]) (use K nf'(3) in auto)
  have mono: "on_path (2 ^ m) (\<lambda>j. \<not> emp nf' j) k x" if "on_path (2 ^ m) (\<lambda>j. \<not> emp nf j) k x" for k x
    by (rule on_path_mono [OF that]) (simp add: nf'(3))
  show ?thesis
    by (rule that [OF i K(2) probe nf'(1,2) nd' taken here mono])
qed

lemma places_ok_put:
  assumes "places_ok h I" "\<forall>i\<in>I. keys h ! i \<noteq> Some k" "x < length (keys h)" "J \<subseteq> I - {x}"
  shows "places_ok (h\<lparr>keys := (keys h)[x := Some k], vals := vs\<rparr>) (insert x J)"
  using assms by (auto simp: places_ok_def inj_on_def nth_list_update) blast+

lemma pairs_at_put:
  assumes "x < length (keys h)" "x < length (vals h)" "x \<notin> J"
  shows "pairs_at (h\<lparr>keys := (keys h)[x := Some k], vals := (vals h)[x := v]\<rparr>) (insert x J) =
    insert (k, v) (pairs_at h J)"
  using assms by (auto simp: pairs_at_def nth_list_update)

lemma lives_upd [simp]:
  "lives (h\<lparr>keys := ks\<rparr>) = lives h" "lives (h\<lparr>vals := vs\<rparr>) = lives h"
  "lives (h\<lparr>keys := ks, vals := vs, flags := fl\<rparr>) = lives (h\<lparr>flags := fl\<rparr>)"
  "lives (h\<lparr>keys := ks, vals := vs\<rparr>) = lives h"
  by (simp_all add: lives_def)

lemma pairs_at_flags [simp]: "pairs_at (h\<lparr>flags := fl\<rparr>) I = pairs_at h I"
  by (simp add: pairs_at_def)

lemma places_ok_flags [simp]: "places_ok (h\<lparr>flags := fl\<rparr>) I = places_ok h I"
  by (simp add: places_ok_def)

lemma places_ok_subset: "places_ok h I \<Longrightarrow> J \<subseteq> I \<Longrightarrow> places_ok h J"
  by (auto simp: places_ok_def inj_on_def)

lemma set_writes [simp]:
  "i < length (keys h) \<Longrightarrow> set_key h i k = Inr (h\<lparr>keys := (keys h)[i := Some k]\<rparr>)"
  "i < length (vals h) \<Longrightarrow> set_val h i v = Inr (h\<lparr>vals := (vals h)[i := v]\<rparr>)"
  "i < length (vals h) \<Longrightarrow> val_at h i = Inr (vals h ! i)"
  "i < length (keys h) \<Longrightarrow> keys h ! i = Some key \<Longrightarrow> key_at h i = Inr key"
  by (simp_all add: set_key_def set_val_def val_at_def key_at_def)

text \<open>What the rehashing loops leave alone.\<close>

definition same_frame :: "'v kh \<Rightarrow> 'v kh \<Rightarrow> bool" where
  "same_frame h h' \<longleftrightarrow> n_buckets h' = n_buckets h \<and> kh_size h' = kh_size h \<and> lives h' \<subseteq> lives h"

lemma kick_step:
  assumes inv: "rehash_inv (2 ^ m) h nf (Some (key, val)) S sz" and sz: "sz < 2 ^ m"
  obtains (placed) h' nf' where
      "\<And>fuel. kh_kick (Suc fuel) (2 ^ m) h nf key val = Inr (h', nf')"
      "rehash_inv (2 ^ m) h' nf' None S sz" "same_frame h h'"
  | (kicked) h' nf' key' val' where
      "\<And>fuel. kh_kick (Suc fuel) (2 ^ m) h nf key val = kh_kick fuel (2 ^ m) h' nf' key' val'"
      "rehash_inv (2 ^ m) h' nf' (Some (key', val')) S sz" "same_frame h h'" "card (lives h') < card (lives h)"
proof -
  obtain i nf' where i: "i < 2 ^ m" "emp nf i" "free_probe (2 ^ m) (2 ^ m) nf (kh_index (2 ^ m) key) 0 = Inr i"
      "set_isempty_false nf i = Inr nf'" "flag_room (2 ^ m) nf'" "\<forall>j<2 ^ m. \<not> dele nf' j"
      "taken_in (2 ^ m) nf' = insert i (taken_in (2 ^ m) nf)" "i \<notin> taken_in (2 ^ m) nf"
      "on_path (2 ^ m) (\<lambda>j. \<not> emp nf' j) key i"
      "\<And>k x. on_path (2 ^ m) (\<lambda>j. \<not> emp nf j) k x \<Longrightarrow> on_path (2 ^ m) (\<lambda>j. \<not> emp nf' j) k x"
    using find_place [OF inv sz] by metis
  let ?O = "lives h" and ?W = "taken_in (2 ^ m) nf"
  note v = inv [unfolded rehash_inv_def]
  have len: "i < length (keys h)" "i < length (vals h)" using v i(1) by auto
  have old: "old_room h" using v by simp
  have fresh: "\<forall>j\<in>?O \<union> ?W. keys h ! j \<noteq> Some key" using v by auto
  have keep: "(keys h)[i := Some key] ! j = keys h ! j" if "j \<in> ?W" for j
    using that i(8) by (metis nth_list_update_neq)
  have paths: "\<forall>j\<in>insert i ?W. on_path (2 ^ m) (\<lambda>j. \<not> emp nf' j) (the ((keys h)[i := Some key] ! j)) j"
    using v i(9,10) keep len by auto
  show ?thesis
  proof (cases "i \<in> ?O")
    case False
    let ?h = "h\<lparr>keys := (keys h)[i := Some key], vals := (vals h)[i := val]\<rparr>"
    have nokick: "(if i < n_buckets h then cbind (kh_flag (flags h) i) (\<lambda>w. Inr (\<not> iseither w)) else Inr False) = Inr False"
      using False old_flag [OF old, of i] by (auto simp: lives_def)
    show ?thesis
    proof (rule placed)
      show "kh_kick (Suc fuel) (2 ^ m) h nf key val = Inr (?h, nf')" for fuel
        using i(3,4) nokick len by simp
      have ins: "lives h \<union> insert i ?W = insert i (?O \<union> ?W)" by auto
      have "places_ok ?h (insert i (?O \<union> ?W))"
        by (rule places_ok_put) (use v fresh len False i(8) in auto)
      moreover have "pairs_at ?h (insert i (?O \<union> ?W)) = insert (key, val) (pairs_at h (?O \<union> ?W))"
        by (rule pairs_at_put) (use len False i(8) in auto)
      ultimately show "rehash_inv (2 ^ m) ?h nf' None S sz"
        unfolding rehash_inv_def using v i(5-8) paths False by (auto simp: old_room_def ins)
      show "same_frame h ?h" by (simp add: same_frame_def)
    qed
  next
    case True
    have "keys h ! i \<noteq> None" using v True unfolding places_ok_def by blast
    then obtain key' where key': "keys h ! i = Some key'" by blast
    obtain fl where fl: "set_isdel_true (flags h) i = Inr fl" "old_room (h\<lparr>flags := fl\<rparr>)"
        "lives (h\<lparr>flags := fl\<rparr>) = ?O - {i}"
      using take_old [OF old True] by metis
    let ?h = "h\<lparr>keys := (keys h)[i := Some key], vals := (vals h)[i := val], flags := fl\<rparr>"
    have kick: "(if i < n_buckets h then cbind (kh_flag (flags h) i) (\<lambda>w. Inr (\<not> iseither w)) else Inr False) = Inr True"
      using True old_flag [OF old, of i] by (auto simp: lives_def)
    have O: "?O = insert i (?O - {i})" using True by auto
    have lives': "lives ?h = ?O - {i}" using fl(3) by simp
    have ins: "(?O - {i}) \<union> insert i ?W = insert i ((?O - {i}) \<union> ?W)" by auto
    show ?thesis
    proof (rule kicked)
      show "kh_kick (Suc fuel) (2 ^ m) h nf key val = kh_kick fuel (2 ^ m) ?h nf' key' (vals h ! i)" for fuel
        using i(3,4) kick len key' fl(1) by simp
      have ok: "places_ok (h\<lparr>keys := (keys h)[i := Some key], vals := (vals h)[i := val]\<rparr>) (insert i ((?O - {i}) \<union> ?W))"
        by (rule places_ok_put [where I = "?O \<union> ?W"]) (use v fresh len i(8) in auto)
      have prs: "pairs_at (h\<lparr>keys := (keys h)[i := Some key], vals := (vals h)[i := val]\<rparr>) (insert i ((?O - {i}) \<union> ?W)) =
          insert (key, val) (pairs_at h ((?O - {i}) \<union> ?W))"
        by (rule pairs_at_put) (use len i(8) in auto)
      have all: "pairs_at h (?O \<union> ?W) = insert (key', vals h ! i) (pairs_at h ((?O - {i}) \<union> ?W))"
        using True key' by (auto simp: pairs_at_def)
      have fresh': "\<forall>j\<in>insert i ((?O - {i}) \<union> ?W). (keys h)[i := Some key] ! j \<noteq> Some key'"
      proof
        fix j assume j: "j \<in> insert i ((?O - {i}) \<union> ?W)"
        show "(keys h)[i := Some key] ! j \<noteq> Some key'"
        proof (cases "j = i")
          case True
          then show ?thesis using len fresh key' \<open>i \<in> ?O\<close> by auto
        next
          case False
          then have "keys h ! j \<noteq> keys h ! i"
            using v j \<open>i \<in> ?O\<close> by (auto simp: places_ok_def inj_on_def)
          then show ?thesis using False key' by simp
        qed
      qed
      have card: "card ?O = Suc (card (?O - {i}))"
        using True by (metis card_Suc_Diff1 finite_taken(2))
      show "rehash_inv (2 ^ m) ?h nf' (Some (key', vals h ! i)) S sz"
      proof (rule rehash_invI [OF i(5,6) _ _ _ lives' i(7)])
        show "old_room ?h" using fl(2) by (simp add: old_room_def)
        show "length (keys ?h) = max (n_buckets ?h) (2 ^ m)" "length (vals ?h) = max (n_buckets ?h) (2 ^ m)"
          using v by simp_all
        show "(?O - {i}) \<inter> insert i ?W = {}" using v by blast
        show "places_ok ?h ((?O - {i}) \<union> insert i ?W)"
          using ok unfolding ins by (simp add: places_ok_def)
        show "\<forall>j\<in>insert i ?W. on_path (2 ^ m) (\<lambda>j. \<not> emp nf' j) (the (keys ?h ! j)) j"
          using paths by simp
        show "\<forall>j\<in>(?O - {i}) \<union> insert i ?W. keys ?h ! j \<noteq> Some key'"
          using fresh' unfolding ins by simp
        have "S = pairs_at h (?O \<union> ?W) \<union> {(key, val)}" using v by simp
        also have "\<dots> = insert (key', vals h ! i) (insert (key, val) (pairs_at h ((?O - {i}) \<union> ?W)))"
          unfolding all by blast
        finally show "S = insert (key', vals h ! i) (pairs_at ?h ((?O - {i}) \<union> insert i ?W))"
          using prs unfolding ins by (simp add: pairs_at_def)
        show "card (?O - {i}) + card (insert i ?W) + 1 = sz" using v card i(8) by simp
      qed
      show "same_frame h ?h" "card (lives ?h) < card (lives h)"
        unfolding same_frame_def lives' using card by auto
    qed
  qed
qed

lemma kick_ok:
  "\<lbrakk>rehash_inv (2 ^ m) h nf (Some (key, val)) S sz; sz < 2 ^ m; card (lives h) < fuel\<rbrakk> \<Longrightarrow>
   \<exists>h' nf'. kh_kick fuel (2 ^ m) h nf key val = Inr (h', nf') \<and> rehash_inv (2 ^ m) h' nf' None S sz \<and> same_frame h h'"
proof (induction fuel arbitrary: h nf key val)
  case (Suc fuel)
  show ?case
  proof (cases rule: kick_step [OF Suc.prems(1,2), case_names placed kicked])
    case (placed h' nf')
    then show ?thesis by blast
  next
    case (kicked h' nf' key' val')
    then have "card (lives h') < fuel" using Suc.prems(3) by simp
    from Suc.IH [OF kicked(2) Suc.prems(2) this] kicked(1,3) show ?thesis
      by (auto simp: same_frame_def)
  qed
qed simp

lemma card_lives: "card (lives h) \<le> n_buckets h"
proof -
  have "lives h \<subseteq> {..<n_buckets h}" by (auto simp: lives_def)
  then show ?thesis using card_mono [of "{..<n_buckets h}"] by simp
qed

text \<open>The loop over the old buckets empties the old table.\<close>

lemma rehash_ok:
  "\<lbrakk>rehash_inv (2 ^ m) h nf None S sz; sz < 2 ^ m; lives h \<subseteq> set js; set js \<subseteq> {..<n_buckets h}\<rbrakk> \<Longrightarrow>
   \<exists>h' nf'. kh_rehash (2 ^ m) js h nf = Inr (h', nf') \<and> rehash_inv (2 ^ m) h' nf' None S sz \<and> same_frame h h' \<and>
     lives h' = {}"
proof (induction js arbitrary: h nf)
  case Nil
  then show ?case by (auto simp: same_frame_def)
next
  case (Cons j js)
  note v = Cons.prems(1) [unfolded rehash_inv_def]
  have old: "old_room h" and j: "j < n_buckets h" using v Cons.prems(4) by auto
  note flag = old_flag [OF old j]
  show ?case
  proof (cases "j \<in> lives h")
    case False
    then have "lives h \<subseteq> set js" using Cons.prems(3) by auto
    from Cons.IH [OF Cons.prems(1,2) this] Cons.prems(4) flag False j show ?thesis
      by (auto simp: lives_def)
  next
    case True
    have "keys h ! j \<noteq> None" using v True unfolding places_ok_def by blast
    then obtain key where key: "keys h ! j = Some key" by blast
    obtain fl where fl: "set_isdel_true (flags h) j = Inr fl" "old_room (h\<lparr>flags := fl\<rparr>)"
        "lives (h\<lparr>flags := fl\<rparr>) = lives h - {j}"
      using take_old [OF old True] by metis
    let ?h = "h\<lparr>flags := fl\<rparr>" and ?W = "taken_in (2 ^ m) nf"
    have len: "j < length (keys h)" "j < length (vals h)" using v j by auto
    have nW: "j \<notin> ?W" using v True by auto
    have all: "pairs_at h (lives h \<union> ?W) = insert (key, vals h ! j) (pairs_at h ((lives h - {j}) \<union> ?W))"
      using True key by (auto simp: pairs_at_def)
    have fresh: "\<forall>i\<in>(lives h - {j}) \<union> ?W. keys h ! i \<noteq> Some key"
    proof
      fix i assume i: "i \<in> (lives h - {j}) \<union> ?W"
      then have "i \<noteq> j" using nW by auto
      then have "keys h ! i \<noteq> keys h ! j" using v i True by (auto simp: places_ok_def inj_on_def)
      then show "keys h ! i \<noteq> Some key" using key by simp
    qed
    have card: "card (lives h) = Suc (card (lives h - {j}))"
      using True by (metis card_Suc_Diff1 finite_taken(2))
    have sub: "places_ok h ((lives h - {j}) \<union> ?W)"
      by (rule places_ok_subset [of h "lives h \<union> ?W"]) (use v in auto)
    have inv: "rehash_inv (2 ^ m) ?h nf (Some (key, vals h ! j)) S sz"
      unfolding rehash_inv_def using v all fresh card fl(2) sub by (auto simp: fl(3))
    have fuel: "card (lives ?h) < Suc (n_buckets h)"
      using card_lives [of ?h] by simp
    obtain h' nf' where k: "kh_kick (Suc (n_buckets h)) (2 ^ m) ?h nf key (vals h ! j) = Inr (h', nf')"
        "rehash_inv (2 ^ m) h' nf' None S sz" "same_frame ?h h'"
      using kick_ok [OF inv Cons.prems(2) fuel] by blast
    have "lives h' \<subseteq> set js" "set js \<subseteq> {..<n_buckets h'}" "same_frame h h'"
      using k(3) fl(3) Cons.prems(3,4) by (auto simp: same_frame_def)
    from Cons.IH [OF k(2) Cons.prems(2) this(1,2)] this(3) k(1) flag True j len key fl(1) show ?thesis
      by (auto simp: lives_def same_frame_def simp del: kh_kick.simps)
  qed
qed

end
