(* ===== verification/KhashMap.thy ===== *)
theory KhashMap
  imports KhashRehash
begin

section \<open>The hash table is a map\<close>

text \<open>
  The invariant of the table and what each operation does to the map from keys to values it stands for.
  The value of a key whose slot was put but not yet set is \<open>None\<close>.
\<close>

subsection \<open>Invariant and abstraction\<close>

definition table :: "nat \<Rightarrow> 'v kh \<Rightarrow> bool" where
  "table m h \<longleftrightarrow> 2 \<le> m \<and> m \<le> 31 \<and> n_buckets h = 2 ^ m \<and> flag_room (2 ^ m) (flags h) \<and>
     (\<forall>i<2 ^ m. \<not> (emp (flags h) i \<and> dele (flags h) i)) \<and>
     length (keys h) = 2 ^ m \<and> length (vals h) = 2 ^ m \<and>
     upper_bound h = kh_upper (2 ^ m) \<and> kh_size h = card (lives h) \<and>
     n_occupied h = card (taken_in (2 ^ m) (flags h)) \<and> n_occupied h \<le> kh_upper (2 ^ m) \<and>
     places_ok h (lives h) \<and>
     (\<forall>i\<in>lives h. on_path (2 ^ m) (\<lambda>j. \<not> emp (flags h) j) (the (keys h ! i)) i)"

definition kh_inv :: "'v kh \<Rightarrow> bool" where
  "kh_inv h \<longleftrightarrow> h = kh_init \<or> (\<exists>m. table m h)"

text \<open>No bucket is marked deleted.\<close>

definition kh_clean :: "'v kh \<Rightarrow> bool" where
  "kh_clean h \<longleftrightarrow> (\<forall>i<n_buckets h. \<not> dele (flags h) i)"

definition kh_pairs :: "'v kh \<Rightarrow> (string \<times> 'v option) list" where
  "kh_pairs h = map (\<lambda>i. (the (keys h ! i), vals h ! i)) (filter (live (flags h)) [0..<n_buckets h])"

definition content :: "'v kh \<Rightarrow> string \<Rightarrow> 'v option option" where
  "content h = map_of (kh_pairs h)"

lemma set_live: "set (filter (live (flags h)) [0..<n_buckets h]) = lives h"
  by (auto simp: lives_def)

lemma kh_pairs_set: "places_ok h (lives h) \<Longrightarrow> set (kh_pairs h) = pairs_at h (lives h)"
  unfolding kh_pairs_def set_map set_live by (auto simp: pairs_at_def places_ok_def image_iff) force+

lemma kh_pairs_distinct: "places_ok h (lives h) \<Longrightarrow> distinct (map fst (kh_pairs h))"
proof -
  assume ok: "places_ok h (lives h)"
  have "inj_on (\<lambda>i. the (keys h ! i)) (lives h)"
    using ok by (auto simp: places_ok_def inj_on_def) (metis option.sel)
  then show ?thesis
    by (simp add: kh_pairs_def comp_def distinct_map set_live [symmetric])
qed

lemma content_iff: "places_ok h (lives h) \<Longrightarrow> content h k = Some v \<longleftrightarrow> (k, v) \<in> pairs_at h (lives h)"
  unfolding content_def by (simp add: map_of_eq_Some_iff kh_pairs_distinct kh_pairs_set)

lemma content_eqI:
  assumes "places_ok h (lives h)" "\<And>k v. (k, v) \<in> pairs_at h (lives h) \<longleftrightarrow> M k = Some v"
  shows "content h = M"
proof
  fix k
  show "content h k = M k"
    using content_iff [OF assms(1), of k] assms(2) [of k] by (cases "M k"; cases "content h k") auto
qed

lemma content_init [simp]: "content kh_init = Map.empty"
  by (simp add: content_def kh_pairs_def kh_init_def)

lemma tableD:
  assumes "table m h"
  shows "n_buckets h = 2 ^ m" "flag_room (2 ^ m) (flags h)" "length (keys h) = 2 ^ m" "length (vals h) = 2 ^ m"
    "places_ok h (lives h)" "\<And>i. i < 2 ^ m \<Longrightarrow> kh_flag (flags h) i = Inr (flagw (flags h) i)"
proof -
  show 1: "n_buckets h = 2 ^ m" "flag_room (2 ^ m) (flags h)" "length (keys h) = 2 ^ m" "length (vals h) = 2 ^ m"
    "places_ok h (lives h)"
    using assms unfolding table_def by blast+
  show "kh_flag (flags h) i = Inr (flagw (flags h) i)" if "i < 2 ^ m" for i
    by (rule kh_flag_room [OF 1(2) that])
qed

lemma table_empty_slot:
  assumes "table m h"
  obtains x where "x < 2 ^ m" "emp (flags h) x"
proof -
  have b: "2 \<le> m" "m \<le> 31" and "card (taken_in (2 ^ m) (flags h)) \<le> kh_upper (2 ^ m)"
    using assms by (simp_all add: table_def)
  with kh_upper_bounds(2) [OF b] have "card (taken_in (2 ^ m) (flags h)) < 2 ^ m" by linarith
  then have "taken_in (2 ^ m) (flags h) \<noteq> {..<2 ^ m}" by (metis card_lessThan less_irrefl)
  then have "\<exists>x<2 ^ m. emp (flags h) x" unfolding taken_in_def by blast
  then show ?thesis using that by blast
qed

subsection \<open>Resizing\<close>

lemma resize_table:
  assumes inv: "kh_inv h" and room: "n_buckets h \<le> 2 ^ m" "2 \<le> m" "m \<le> 31"
    and n: "(if unat (kroundup32 (word_of_nat new_n)) < 4 then 4 else unat (kroundup32 (word_of_nat new_n))) = 2 ^ m"
    and size: "kh_size h < kh_upper (2 ^ m)"
  obtains h' where "kh_resize h new_n = Inr h'" "table m h'" "content h' = content h" "kh_clean h'"
    "n_occupied h' = kh_size h" "kh_size h' = kh_size h"
proof -
  define h1 where "h1 = (if n_buckets h < 2 ^ m
    then h\<lparr>keys := arr_realloc (2 ^ m) (keys h), vals := arr_realloc (2 ^ m) (vals h)\<rparr> else h)"
  have old: "length (keys h) = n_buckets h" "length (vals h) = n_buckets h" "places_ok h (lives h)"
      "old_room h" "card (lives h) = kh_size h"
    using inv by (auto simp: kh_inv_def kh_init_def table_def old_room_def lives_def places_ok_def)
  have h1: "n_buckets h1 = n_buckets h" "flags h1 = flags h" "kh_size h1 = kh_size h" "lives h1 = lives h"
      "length (keys h1) = 2 ^ m" "length (vals h1) = 2 ^ m"
      "\<And>i. i \<in> lives h \<Longrightarrow> keys h1 ! i = keys h ! i \<and> vals h1 ! i = vals h ! i"
    using old(1,2) room(1) by (auto simp: h1_def arr_realloc_def lives_def nth_append)
  have W: "taken_in (2 ^ m) (fresh_flags (2 ^ m)) = {}"
    by (auto simp: taken_in_def fresh_flags_room)
  have fr: "flag_room (2 ^ m) (fresh_flags (2 ^ m))" using fresh_flags_room(1) [of 0] by simp
  let ?S = "pairs_at h (lives h)"
  have S: "pairs_at h1 (lives h) = ?S" using h1(7) by (auto simp: pairs_at_def)
  have ok1: "places_ok h1 (lives h)"
    using old(3) h1(7) by (auto simp: places_ok_def inj_on_def)
  have start: "rehash_inv (2 ^ m) h1 (fresh_flags (2 ^ m)) None ?S (kh_size h)"
    unfolding rehash_inv_def using old h1 W S ok1 room(1) fr fresh_flags_room(3)
    by (auto simp: old_room_def)
  have sz: "kh_size h < 2 ^ m" using size kh_upper_bounds [OF room(2,3)] by simp
  have "lives h1 \<subseteq> set [0..<n_buckets h1]" "set [0..<n_buckets h1] \<subseteq> {..<n_buckets h1}"
    by (auto simp: lives_def)
  from rehash_ok [OF start sz this] obtain h2 nf where
    r: "kh_rehash (2 ^ m) [0..<n_buckets h1] h1 (fresh_flags (2 ^ m)) = Inr (h2, nf)"
      "rehash_inv (2 ^ m) h2 nf None ?S (kh_size h)" "same_frame h1 h2" "lives h2 = {}" by blast
  note v = r(2) [unfolded rehash_inv_def]
  define h' where "h' = h2\<lparr>flags := nf, n_buckets := 2 ^ m, n_occupied := kh_size h2, upper_bound := kh_upper (2 ^ m)\<rparr>"
  have nb: "n_buckets h2 = n_buckets h" "kh_size h2 = kh_size h" using r(3) h1 by (auto simp: same_frame_def)
  have res: "kh_resize h new_n = Inr h'"
    unfolding kh_resize_def Let_def n h1_def [symmetric]
    using size r(1) nb room(1) by (simp add: h'_def)
  have live': "lives h' = taken_in (2 ^ m) nf"
    using v by (auto simp: lives_def taken_in_def h'_def)
  have same: "pairs_at h' I = pairs_at h2 I" "places_ok h' I = places_ok h2 I" for I
    by (simp_all add: pairs_at_def places_ok_def h'_def)
  have S': "pairs_at h' (lives h') = ?S" "places_ok h' (lives h')" using v r(4) by (auto simp: live' same)
  have tab: "table m h'"
    unfolding table_def using v r(4) room S'(2) size nb live'
    by (auto simp: h'_def taken_in_def)
  have cont: "content h' = content h"
    by (rule content_eqI [OF S'(2)]) (simp add: S'(1) content_iff [OF old(3)])
  show ?thesis
    by (rule that [OF res tab cont]) (use v nb in \<open>auto simp: kh_clean_def h'_def\<close>)
qed

subsection \<open>Probing in a table\<close>

definition go_on :: "'v kh \<Rightarrow> string \<Rightarrow> nat \<Rightarrow> bool" where
  "go_on h key i \<longleftrightarrow> \<not> emp (flags h) i \<and> (dele (flags h) i \<or> keys h ! i \<noteq> Some key)"

lemma probe_on_table:
  assumes "table m h" "i < 2 ^ m"
  shows "probe_on h key i = Inr (go_on h key i)"
proof -
  have flag: "kh_flag (flags h) i = Inr (flagw (flags h) i)" by (rule tableD(6) [OF assms])
  show ?thesis
  proof (cases "live (flags h) i")
    case True
    then have "i \<in> lives h" using assms(2) tableD(1) [OF assms(1)] by (simp add: lives_def)
    then have "keys h ! i \<noteq> None" using tableD(5) [OF assms(1)] by (simp add: places_ok_def)
    then obtain k where "keys h ! i = Some k" by blast
    then show ?thesis
      using flag True assms(2) tableD(3) [OF assms(1)] by (simp add: probe_on_def go_on_def)
  next
    case False
    then show ?thesis using flag by (auto simp: probe_on_def go_on_def)
  qed
qed

text \<open>The probe at which a search stops.\<close>

definition stops :: "nat \<Rightarrow> 'v kh \<Rightarrow> string \<Rightarrow> nat \<Rightarrow> bool" where
  "stops m h key K \<longleftrightarrow> K < 2 ^ m \<and> \<not> go_on h key (path (2 ^ m) key K) \<and>
     (\<forall>j<K. go_on h key (path (2 ^ m) key j))"

lemma stops_exists:
  assumes "table m h"
  obtains K where "stops m h key K"
proof -
  obtain x where "x < 2 ^ m" "emp (flags h) x" using table_empty_slot [OF assms] .
  then have "\<not> go_on h key x" by (simp add: go_on_def)
  then obtain K where "K < 2 ^ m" "\<not> go_on h key (path (2 ^ m) key K)"
      "\<And>j. j < K \<Longrightarrow> go_on h key (path (2 ^ m) key j)"
    using first_probe [of "\<lambda>x. \<not> go_on h key x" x m key] \<open>x < 2 ^ m\<close> by metis
  then show ?thesis using that [of K] by (simp add: stops_def)
qed

text \<open>It stops at the key when the key is present, at an empty bucket otherwise.\<close>

lemma stops_at:
  assumes tab: "table m h" and K: "stops m h key K"
  shows "emp (flags h) (path (2 ^ m) key K) \<Longrightarrow> content h key = None"
    and "\<not> emp (flags h) (path (2 ^ m) key K) \<Longrightarrow>
      path (2 ^ m) key K \<in> lives h \<and> keys h ! path (2 ^ m) key K = Some key"
proof -
  let ?i = "path (2 ^ m) key K"
  show "?i \<in> lives h \<and> keys h ! ?i = Some key" if "\<not> emp (flags h) ?i"
    using that K tableD(1) [OF tab] by (auto simp: stops_def go_on_def lives_def)
  show "content h key = None" if e: "emp (flags h) ?i"
  proof (rule ccontr)
    assume "content h key \<noteq> None"
    then obtain x where x: "x \<in> lives h" "keys h ! x = Some key"
      using content_iff [OF tableD(5) [OF tab], of key] by (auto simp: pairs_at_def)
    then have "on_path (2 ^ m) (\<lambda>j. \<not> emp (flags h) j) key x" using tab by (auto simp: table_def)
    then obtain k where k: "path (2 ^ m) key k = x" "\<And>j. j < k \<Longrightarrow> \<not> emp (flags h) (path (2 ^ m) key j)"
      by (auto simp: on_path_def)
    have "\<not> go_on h key (path (2 ^ m) key k)" using k(1) x by (simp add: go_on_def lives_def)
    then have "K \<le> k" using K by (meson not_le stops_def)
    moreover have "k \<noteq> K" using x(1) k(1) e by (auto simp: lives_def)
    ultimately show False using k(2) [of K] e by simp
  qed
qed

lemma path_next:
  assumes "table m h"
  shows "(path (2 ^ m) key k + (k + 1)) AND (n_buckets h - 1) = path (2 ^ m) key (Suc k)"
  using path_step [of m key k] tableD(1) [OF assms] by simp

lemma path_start: "path (2 ^ m) key 0 = kh_index (2 ^ m) key"
  using kh_index_less by simp

lemma path_no_return: "0 < k \<Longrightarrow> k < 2 ^ m \<Longrightarrow> path (2 ^ m) key k \<noteq> kh_index (2 ^ m) key"
  using probe_not_start kh_index_less by blast

lemma get_probe_run:
  assumes tab: "table m h" and K: "stops m h key K"
  shows "k \<le> K \<Longrightarrow> K - k < fuel \<Longrightarrow>
    get_probe fuel h key (path (2 ^ m) key k) k (kh_index (2 ^ m) key) =
      Inr (if emp (flags h) (path (2 ^ m) key K) then n_buckets h else path (2 ^ m) key K)"
proof (induction fuel arbitrary: k)
  case (Suc fuel)
  let ?i = "path (2 ^ m) key k"
  have p: "probe_on h key ?i = Inr (go_on h key ?i)" "kh_flag (flags h) ?i = Inr (flagw (flags h) ?i)"
    using probe_on_table [OF tab] tableD(6) [OF tab] by simp_all
  show ?case
  proof (cases "k = K")
    case True
    then show ?thesis using p K stops_at(2) [OF tab K] by (auto simp: stops_def lives_def)
  next
    case False
    then have lt: "k < K" using Suc.prems by simp
    then have "Suc k < 2 ^ m" using K by (simp add: stops_def)
    then have "path (2 ^ m) key (Suc k) \<noteq> kh_index (2 ^ m) key" by (intro path_no_return) auto
    then show ?thesis
      using p K lt Suc.IH [of "Suc k"] Suc.prems path_next [OF tab, of key k] by (simp add: stops_def Let_def)
  qed
qed simp

lemma kh_get_table:
  assumes tab: "table m h"
  obtains x where "kh_get h key = Inr x"
    "case content h key of None \<Rightarrow> x = n_buckets h | Some v \<Rightarrow> x \<in> lives h \<and> keys h ! x = Some key \<and> vals h ! x = v"
proof -
  obtain K where K: "stops m h key K" using stops_exists [OF tab] .
  let ?i = "path (2 ^ m) key K"
  have "K < 2 * n_buckets h" using K tableD(1) [OF tab] by (simp add: stops_def)
  then have get: "kh_get h key = Inr (if emp (flags h) ?i then n_buckets h else ?i)"
    using get_probe_run [OF tab K, of 0 "2 * n_buckets h"] tableD(1) [OF tab]
    by (simp add: kh_get_def path_start Let_def del: probe_0)
  show ?thesis
  proof (cases "emp (flags h) ?i")
    case True
    then show ?thesis using that get stops_at(1) [OF tab K] by simp
  next
    case False
    note i = stops_at(2) [OF tab K False]
    then have "content h key = Some (vals h ! ?i)"
      using content_iff [OF tableD(5) [OF tab]] by (auto simp: pairs_at_def)
    then show ?thesis using that [of ?i] get False i by simp
  qed
qed

subsection \<open>Insertion\<close>

text \<open>Where the probe of \<^verbatim>\<open>kh_put\<close> ends: at the key, at the empty bucket, or at a deleted one before it.\<close>

definition put_target :: "nat \<Rightarrow> 'v kh \<Rightarrow> string \<Rightarrow> nat \<Rightarrow> nat \<Rightarrow> bool" where
  "put_target m h key K x \<longleftrightarrow>
     (\<not> emp (flags h) (path (2 ^ m) key K) \<longrightarrow> x = path (2 ^ m) key K) \<and>
     (emp (flags h) (path (2 ^ m) key K) \<longrightarrow>
        x = path (2 ^ m) key K \<or> (\<exists>j<K. x = path (2 ^ m) key j \<and> dele (flags h) x))"

lemma put_probe_run:
  assumes tab: "table m h" and K: "stops m h key K"
  shows "\<lbrakk>k \<le> K; K - k < fuel; site = n_buckets h \<or> (\<exists>j<k. site = path (2 ^ m) key j \<and> dele (flags h) site)\<rbrakk> \<Longrightarrow>
    \<exists>x. put_probe fuel h key (path (2 ^ m) key k) k (kh_index (2 ^ m) key) site = Inr x \<and> put_target m h key K x"
proof (induction fuel arbitrary: k site)
  case (Suc fuel)
  let ?i = "path (2 ^ m) key k"
  have p: "probe_on h key ?i = Inr (go_on h key ?i)" "kh_flag (flags h) ?i = Inr (flagw (flags h) ?i)"
    using probe_on_table [OF tab] tableD(6) [OF tab] by simp_all
  show ?case
  proof (cases "k = K")
    case True
    then show ?thesis using p K Suc.prems(3) by (auto simp: stops_def put_target_def)
  next
    case False
    then have lt: "k < K" using Suc.prems by simp
    then have "Suc k < 2 ^ m" using K by (simp add: stops_def)
    then have ne: "path (2 ^ m) key (Suc k) \<noteq> kh_index (2 ^ m) key" by (intro path_no_return) auto
    let ?site = "if dele (flags h) ?i then ?i else site"
    have "?site = n_buckets h \<or> (\<exists>j<Suc k. ?site = path (2 ^ m) key j \<and> dele (flags h) ?site)"
      using Suc.prems(3) by (auto simp: less_Suc_eq)
    from Suc.IH [OF _ _ this] have "\<exists>x. put_probe fuel h key (path (2 ^ m) key (Suc k)) (Suc k)
        (kh_index (2 ^ m) key) ?site = Inr x \<and> put_target m h key K x"
      using lt Suc.prems(2) by simp
    then show ?thesis
      using p K lt ne path_next [OF tab, of key k] by (simp add: stops_def Let_def)
  qed
qed simp

lemma put_slot_table:
  assumes tab: "table m h"
  obtains K x where "stops m h key K" "kh_put_slot h key = Inr x" "put_target m h key K x"
proof -
  obtain K where K: "stops m h key K" using stops_exists [OF tab] .
  have "K < 2 * n_buckets h" using K tableD(1) [OF tab] by (simp add: stops_def)
  then obtain x where x: "put_probe (2 * n_buckets h) h key (path (2 ^ m) key 0) 0 (kh_index (2 ^ m) key) (n_buckets h) = Inr x"
      "put_target m h key K x"
    using put_probe_run [OF tab K, of 0 "2 * n_buckets h" "n_buckets h"] by auto
  have i: "kh_index (2 ^ m) key < 2 ^ m" by (rule kh_index_less)
  note flag = tableD(6) [OF tab i]
  show ?thesis
  proof (cases "emp (flags h) (kh_index (2 ^ m) key)")
    case True
    then have "\<not> go_on h key (path (2 ^ m) key 0)" using path_start by (simp add: go_on_def)
    then have "K = 0" using K by (metis stops_def neq0_conv)
    then have "put_target m h key K (kh_index (2 ^ m) key)"
      using True path_start by (simp add: put_target_def)
    moreover have "kh_put_slot h key = Inr (kh_index (2 ^ m) key)"
      using flag True tableD(1) [OF tab] by (simp add: kh_put_slot_def)
    ultimately show ?thesis using that K by blast
  next
    case False
    then have "kh_put_slot h key = Inr x"
      using flag x(1) tableD(1) [OF tab] by (simp add: kh_put_slot_def path_start)
    then show ?thesis using that K x(2) by blast
  qed
qed

lemma put_target_free:
  assumes tab: "table m h" and K: "stops m h key K" and x: "put_target m h key K x"
  shows "content h key = None \<Longrightarrow> x < 2 ^ m \<and> \<not> live (flags h) x \<and> on_path (2 ^ m) (\<lambda>j. \<not> emp (flags h) j) key x"
    and "content h key \<noteq> None \<Longrightarrow> x \<in> lives h \<and> keys h ! x = Some key"
proof -
  have before: "\<not> emp (flags h) (path (2 ^ m) key j)" if "j < K" for j
    using K that by (auto simp: stops_def go_on_def)
  show "x < 2 ^ m \<and> \<not> live (flags h) x \<and> on_path (2 ^ m) (\<lambda>j. \<not> emp (flags h) j) key x"
    if none: "content h key = None"
  proof -
    have "emp (flags h) (path (2 ^ m) key K)"
    proof (rule ccontr)
      assume "\<not> emp (flags h) (path (2 ^ m) key K)"
      with stops_at(2) [OF tab K] have "content h key \<noteq> None"
        using content_iff [OF tableD(5) [OF tab], of key] unfolding pairs_at_def by blast
      then show False using none by simp
    qed
    then obtain j where j: "j \<le> K" "x = path (2 ^ m) key j" "\<not> live (flags h) x"
      using x by (auto simp: put_target_def dest: less_imp_le)
    then have "on_path (2 ^ m) (\<lambda>j. \<not> emp (flags h) j) key x"
      unfolding on_path_def using before K by (intro exI [of _ j]) (auto simp: stops_def)
    then show ?thesis using j by simp
  qed
  show "x \<in> lives h \<and> keys h ! x = Some key" if "content h key \<noteq> None"
  proof -
    have e: "\<not> emp (flags h) (path (2 ^ m) key K)" using that stops_at(1) [OF tab K] by force
    then have "x = path (2 ^ m) key K" using x by (simp add: put_target_def)
    then show ?thesis using stops_at(2) [OF tab K e] by simp
  qed
qed

text \<open>Writing a key into a free bucket on its path.\<close>

lemma put_write:
  assumes tab: "table m h" and x: "x < 2 ^ m" "\<not> live (flags h) x"
    "on_path (2 ^ m) (\<lambda>j. \<not> emp (flags h) j) key x"
    and new: "content h key = None" and room: "n_occupied h < kh_upper (2 ^ m)"
    and fl: "flag_room (2 ^ m) fl" "\<And>j. emp fl j \<longleftrightarrow> emp (flags h) j \<and> j \<noteq> x" "\<And>j. dele fl j \<longleftrightarrow> dele (flags h) j \<and> j \<noteq> x"
    and h': "h' = h\<lparr>keys := (keys h)[x := Some key], flags := fl, kh_size := kh_size h + 1,
      n_occupied := (if emp (flags h) x then n_occupied h + 1 else n_occupied h)\<rparr>"
  shows "table m h'" "lives h' = insert x (lives h)" "keys h' ! x = Some key"
    "content h' = (content h)(key \<mapsto> vals h ! x)"
proof -
  note t = tab [unfolded table_def]
  have nl: "x \<notin> lives h" using x(2) by (auto simp: lives_def)
  have lx: "x < length (keys h)" using tableD(3) [OF tab] x(1) by simp
  show L: "lives h' = insert x (lives h)"
    using x(1) t fl(2,3) by (auto simp: lives_def h')
  show kx: "keys h' ! x = Some key" using lx by (simp add: h')
  have keep: "keys h' ! j = keys h ! j" "vals h' ! j = vals h ! j" if "j \<in> lives h" for j
  proof -
    have "j \<noteq> x" using that nl by auto
    then show "keys h' ! j = keys h ! j" "vals h' ! j = vals h ! j" by (simp_all add: h')
  qed
  have fresh: "keys h ! j \<noteq> Some key" if "j \<in> lives h" for j
    using that new content_iff [OF tableD(5) [OF tab], of key] by (auto simp: pairs_at_def)
  have ok: "places_ok h' (lives h')"
    unfolding L using tableD(5) [OF tab] keep kx fresh by (auto simp: places_ok_def inj_on_def)
  have taken: "taken_in (2 ^ m) fl = insert x (taken_in (2 ^ m) (flags h))"
    using x(1) fl(2) by (auto simp: taken_in_def)
  have occ: "card (insert x (taken_in (2 ^ m) (flags h))) =
      (if emp (flags h) x then n_occupied h + 1 else n_occupied h)"
    using t x(1) by (auto simp: taken_in_def insert_absorb)
  have paths: "on_path (2 ^ m) (\<lambda>j. \<not> emp fl j) (the (keys h' ! i)) i" if "i \<in> lives h'" for i
  proof -
    have "on_path (2 ^ m) (\<lambda>j. \<not> emp (flags h) j) (the (keys h' ! i)) i"
      using that t x(3) kx keep(1) unfolding L by auto
    then show ?thesis by (rule on_path_mono) (simp add: fl(2))
  qed
  show "table m h'"
  proof -
    have fs: "n_buckets h' = n_buckets h" "flags h' = fl" "length (keys h') = length (keys h)" "vals h' = vals h"
        "upper_bound h' = upper_bound h" "kh_size h' = kh_size h + 1"
        "n_occupied h' = card (insert x (taken_in (2 ^ m) (flags h)))"
      using occ by (simp_all add: h')
    have "finite (lives h)" by (simp add: lives_def)
    then have cl: "card (lives h') = card (lives h) + 1" using nl by (simp add: L)
    have le: "card (insert x (taken_in (2 ^ m) (flags h))) \<le> kh_upper (2 ^ m)"
      using occ room by (simp split: if_splits)
    have "\<not> (emp fl i \<and> dele fl i)" if "i < 2 ^ m" for i using t that fl(2,3) by blast
    then show ?thesis
      unfolding table_def fs taken using t fl(1) ok paths cl le by simp
  qed
  show "content h' = (content h)(key \<mapsto> vals h ! x)"
  proof (rule content_eqI [OF ok])
    fix k v
    have vx: "vals h' ! x = vals h ! x" by (simp add: h')
    have "(k, v) \<in> pairs_at h' (lives h') \<longleftrightarrow> (k, v) \<in> pairs_at h (lives h) \<or> k = key \<and> v = vals h ! x"
      unfolding L using keep kx vx by (auto simp: pairs_at_def)
    then show "(k, v) \<in> pairs_at h' (lives h') \<longleftrightarrow> ((content h)(key \<mapsto> vals h ! x)) k = Some v"
      using new unfolding content_iff [OF tableD(5) [OF tab], symmetric] by auto
  qed
qed

text \<open>The number of keys is the size of the table.\<close>

lemma card_content:
  assumes "kh_inv h"
  shows "card (dom (content h)) = kh_size h" "finite (dom (content h))"
proof -
  have ok: "places_ok h (lives h)" and sz: "kh_size h = card (lives h)"
    using assms by (auto simp: kh_inv_def kh_init_def table_def places_ok_def lives_def)
  have "dom (content h) = (\<lambda>i. the (keys h ! i)) ` lives h"
    unfolding content_def dom_map_of_conv_image_fst kh_pairs_set [OF ok]
    using ok by (auto simp: pairs_at_def places_ok_def image_iff) force+
  moreover have "inj_on (\<lambda>i. the (keys h ! i)) (lives h)"
    using ok by (auto simp: places_ok_def inj_on_def) (metis option.sel)
  ultimately show "card (dom (content h)) = kh_size h" "finite (dom (content h))"
    using sz by (auto simp: card_image)
qed

subsection \<open>The operations on the map\<close>

text \<open>What \<^verbatim>\<open>kh_put\<close> does once there is room for one more bucket.\<close>

lemma put_key_table:
  assumes tab: "table m h" and room: "n_occupied h < kh_upper (2 ^ m)"
  obtains h' x r where "kh_put_key h key = Inr (h', x, r)" "table m h'" "x \<in> lives h'" "keys h' ! x = Some key"
    "r = (if content h key \<noteq> None then 0 else if emp (flags h) x then 1 else 2)"
    "content h key \<noteq> None \<Longrightarrow> h' = h" "content h key = None \<Longrightarrow> content h' = (content h)(key \<mapsto> vals h' ! x)"
    "\<And>j. dele (flags h') j \<Longrightarrow> dele (flags h) j" "x < n_buckets h" "content h key = None \<Longrightarrow> \<not> live (flags h) x"
proof -
  obtain K x where K: "stops m h key K" "kh_put_slot h key = Inr x" "put_target m h key K x"
    using put_slot_table [OF tab] .
  show ?thesis
  proof (cases "content h key = None")
    case False
    note x = put_target_free(2) [OF tab K(1,3) False]
    then have lx: "x < 2 ^ m" "live (flags h) x" using tableD(1) [OF tab] by (auto simp: lives_def)
    then have "kh_put_key h key = Inr (h, x, 0)"
      using K(2) tableD(6) [OF tab lx(1)] by (simp add: kh_put_key_def)
    then show ?thesis using that [of h x 0] tab x False lx tableD(1) [OF tab] by simp
  next
    case True
    note x = put_target_free(1) [OF tab K(1,3) True, THEN conjunct1]
      put_target_free(1) [OF tab K(1,3) True, THEN conjunct2, THEN conjunct1]
      put_target_free(1) [OF tab K(1,3) True, THEN conjunct2, THEN conjunct2]
    obtain fl where fl: "set_isboth_false (flags h) x = Inr fl" "flag_room (2 ^ m) fl"
        "\<And>j. emp fl j \<longleftrightarrow> emp (flags h) j \<and> j \<noteq> x" "\<And>j. dele fl j \<longleftrightarrow> dele (flags h) j \<and> j \<noteq> x"
      using set_isboth_false_room [OF tableD(2) [OF tab] x(1)] by blast
    define h' where "h' = h\<lparr>keys := (keys h)[x := Some key], flags := fl, kh_size := kh_size h + 1,
      n_occupied := (if emp (flags h) x then n_occupied h + 1 else n_occupied h)\<rparr>"
    note w = put_write [OF tab x True room fl(2-4) h'_def]
    have lx: "x < length (keys h)" using tableD(3) [OF tab] x(1) by simp
    have res: "kh_put_key h key = Inr (h', x, if emp (flags h) x then 1 else 2)"
      using K(2) tableD(6) [OF tab x(1)] fl(1) lx x(2) by (auto simp: kh_put_key_def set_key_def h'_def)
    show ?thesis
      by (rule that [OF res w(1)]) (use w x True tableD(1) [OF tab] fl(4) in \<open>simp_all add: h'_def\<close>)
  qed
qed

lemma make_room:
  assumes inv: "kh_inv h" and small: "kh_size h < 2 ^ 30"
  obtains h' m where "kh_make_room h = Inr h'" "table m h'" "content h' = content h"
    "n_occupied h' < kh_upper (2 ^ m)" "kh_clean h \<Longrightarrow> kh_clean h'"
proof (cases "h = kh_init")
  case True
  have k: "(if unat (kroundup32 (word_of_nat 1)) < 4 then 4 else unat (kroundup32 (word_of_nat 1))) = 2 ^ 2"
    by (simp add: kroundup32_def)
  have u: "0 < kh_upper (2 ^ 2)" using kh_upper_bounds(1) [of 2] by simp
  obtain h' where "kh_resize h 1 = Inr h'" "table 2 h'" "content h' = content h" "kh_clean h'" "n_occupied h' = kh_size h"
    by (rule resize_table [OF inv _ _ _ k]) (use u True in \<open>auto simp: kh_init_def\<close>)
  then show ?thesis using that [of h' 2] u True by (simp add: kh_make_room_def kh_init_def)
next
  case False
  then obtain m where tab: "table m h" using inv by (auto simp: kh_inv_def)
  have b: "2 \<le> m" "m \<le> 31" "upper_bound h = kh_upper (2 ^ m)" "kh_size h = card (lives h)"
      "n_occupied h = card (taken_in (2 ^ m) (flags h))" "n_occupied h \<le> kh_upper (2 ^ m)" "n_buckets h = 2 ^ m"
    using tab by (simp_all add: table_def)
  note u = kh_upper_bounds [OF b(1,2)]
  have "lives h \<subseteq> taken_in (2 ^ m) (flags h)" using b(7) by (auto simp: lives_def taken_in_def)
  then have le: "kh_size h \<le> n_occupied h"
    unfolding b(4,5) by (intro card_mono) (auto simp: taken_in_def)
  consider "n_occupied h < upper_bound h" | "upper_bound h \<le> n_occupied h" "2 * kh_size h < 2 ^ m"
    | "upper_bound h \<le> n_occupied h" "2 ^ m \<le> 2 * kh_size h" by linarith
  then show ?thesis
  proof cases
    case 1
    then show ?thesis using that [of h m] tab b(3) by (simp add: kh_make_room_def)
  next
    case 2
    have k: "(if unat (kroundup32 (word_of_nat (2 ^ m - 1))) < 4 then 4
        else unat (kroundup32 (word_of_nat (2 ^ m - 1)))) = 2 ^ m"
      unfolding kroundup32_same [OF b(1,2)] using power_increasing [of 2 m "2::nat"] b(1) by simp
    have s: "kh_size h < kh_upper (2 ^ m)" using 2 u by simp
    obtain h' where "kh_resize h (2 ^ m - 1) = Inr h'" "table m h'" "content h' = content h" "kh_clean h'"
        "n_occupied h' = kh_size h"
      by (rule resize_table [OF inv _ b(1,2) k s]) (use b(7) in auto)
    then show ?thesis using that [of h' m] 2 b(7) s by (simp add: kh_make_room_def)
  next
    case 3
    have "2 ^ m < (2 :: nat) ^ 31" using 3 small by simp
    have m: "m \<le> 30"
    proof (rule ccontr)
      assume "\<not> m \<le> 30"
      then have "m = 31" using b(2) by simp
      then show False using \<open>2 ^ m < 2 ^ 31\<close> by simp
    qed
    have k: "(if unat (kroundup32 (word_of_nat (2 ^ m + 1))) < 4 then 4
        else unat (kroundup32 (word_of_nat (2 ^ m + 1)))) = 2 ^ (m + 1)"
      unfolding kroundup32_up [OF b(1) m] using power_increasing [of 2 "m + 1" "2::nat"] b(1) by simp
    have s: "kh_size h < kh_upper (2 ^ (m + 1))"
      using le b(6) u(2) kh_upper_bounds(1) [of "m + 1"] b(1) m by simp
    obtain h' where "kh_resize h (2 ^ m + 1) = Inr h'" "table (m + 1) h'" "content h' = content h" "kh_clean h'"
        "n_occupied h' = kh_size h"
      by (rule resize_table [OF inv _ _ _ k s]) (use b m in auto)
    then show ?thesis using that [of h' "m + 1"] 3 b(7) s by (simp add: kh_make_room_def)
  qed
qed

text \<open>What a put promises: the key gets a bucket, and a bucket of a new key has a value to be written.\<close>

lemma kh_put_ok:
  assumes inv: "kh_inv h" and small: "kh_size h < 2 ^ 30"
  obtains h' x r where "kh_put h key = Inr (h', x, r)" "kh_inv h'" "x < n_buckets h'" "x \<in> lives h'"
    "keys h' ! x = Some key" "r = 0 \<longleftrightarrow> content h key \<noteq> None" "kh_clean h \<Longrightarrow> r = (if content h key = None then 1 else 0)"
    "content h' = (content h)(key \<mapsto> vals h' ! x)" "kh_clean h \<Longrightarrow> kh_clean h'"
    "content h key \<noteq> None \<Longrightarrow> content h' = content h"
proof -
  obtain h1 m where h1: "kh_make_room h = Inr h1" "table m h1" "content h1 = content h"
      "n_occupied h1 < kh_upper (2 ^ m)" "kh_clean h \<Longrightarrow> kh_clean h1"
    using make_room [OF inv small] by blast
  obtain h' x r where p: "kh_put_key h1 key = Inr (h', x, r)" "table m h'" "x \<in> lives h'" "keys h' ! x = Some key"
      "r = (if content h1 key \<noteq> None then 0 else if emp (flags h1) x then 1 else 2)"
      "content h1 key \<noteq> None \<Longrightarrow> h' = h1"
      "content h1 key = None \<Longrightarrow> content h' = (content h1)(key \<mapsto> vals h' ! x)"
      "\<And>j. dele (flags h') j \<Longrightarrow> dele (flags h1) j" "x < n_buckets h1" "content h1 key = None \<Longrightarrow> \<not> live (flags h1) x"
    using put_key_table [OF h1(2,4)] by blast
  have nb: "n_buckets h' = 2 ^ m" "n_buckets h1 = 2 ^ m" using tableD(1) h1(2) p(2) by blast+
  have c: "content h' = (content h)(key \<mapsto> vals h' ! x)"
  proof (cases "content h1 key")
    case None
    then show ?thesis using p(7) h1(3) by simp
  next
    case (Some v)
    then have "h' = h1" using p(6) by simp
    moreover have "content h' key = Some (vals h' ! x)"
      unfolding content_iff [OF tableD(5) [OF p(2)]] pairs_at_def using p(3,4) by force
    ultimately show ?thesis using h1(3) by auto
  qed
  have r1: "r = 1" if "kh_clean h" "content h key = None"
  proof -
    have "\<not> dele (flags h1) x" using h1(5) that(1) p(9) by (auto simp: kh_clean_def)
    moreover have "emp (flags h1) x" using p(10) that(2) h1(3) calculation by simp
    ultimately show ?thesis using p(5) that h1(3) by simp
  qed
  show ?thesis
    by (rule that [of h' x r]) (use h1 p c nb r1 in \<open>auto simp: kh_inv_def kh_clean_def kh_put_def\<close>)
qed

end
