(* ===== verification/StringMap.thy ===== *)
theory StringMap
  imports Prelude
begin

section \<open>The interface of a string map\<close>

text \<open>
  What the clients of the hash table rely on, as laws over an abstract table type: \<open>contents t\<close> is the map
  the table stands for, where a key that was put without a value yet has the value \<open>None\<close>; \<open>points t x k\<close>
  says that position \<open>x\<close> belongs to key \<open>k\<close>; \<open>stop t\<close> is the position past the table. \<open>room\<close> bounds the
  number of keys.
\<close>

locale string_map =
  fixes inv :: "'t \<Rightarrow> bool"
    and contents :: "'t \<Rightarrow> string \<Rightarrow> 'v option option"
    and points :: "'t \<Rightarrow> nat \<Rightarrow> string \<Rightarrow> bool"
    and room :: nat
    and init :: 't
    and put :: "'t \<Rightarrow> string \<Rightarrow> ('t \<times> nat \<times> int) cres"
    and set_value :: "'t \<Rightarrow> nat \<Rightarrow> 'v \<Rightarrow> 't cres"
    and get :: "'t \<Rightarrow> string \<Rightarrow> nat cres"
    and stop :: "'t \<Rightarrow> nat"
    and value_at :: "'t \<Rightarrow> nat \<Rightarrow> 'v cres"
    and del :: "'t \<Rightarrow> nat \<Rightarrow> 't cres"
  assumes init_inv: "inv init"
    and init_contents: "contents init = Map.empty"
    and finite_keys: "inv t \<Longrightarrow> finite (dom (contents t))"
    and put_law: "inv t \<Longrightarrow> card (dom (contents t)) < room \<Longrightarrow>
      \<exists>t' x r ov. put t k = Inr (t', x, r) \<and> inv t' \<and> points t' x k \<and> contents t' = (contents t)(k \<mapsto> ov) \<and>
        (r = 0 \<longleftrightarrow> k \<in> dom (contents t)) \<and> (k \<in> dom (contents t) \<longrightarrow> contents t' = contents t)"
    and set_law: "inv t \<Longrightarrow> points t x k \<Longrightarrow>
      \<exists>t'. set_value t x v = Inr t' \<and> inv t' \<and> contents t' = (contents t)(k \<mapsto> Some v)"
    and get_none: "inv t \<Longrightarrow> contents t k = None \<Longrightarrow> get t k = Inr (stop t)"
    and get_some: "inv t \<Longrightarrow> contents t k = Some w \<Longrightarrow> \<exists>x. get t k = Inr x \<and> x \<noteq> stop t \<and> points t x k"
    and value_law: "inv t \<Longrightarrow> points t x k \<Longrightarrow> contents t k = Some (Some v) \<Longrightarrow> value_at t x = Inr v"
    and del_law: "inv t \<Longrightarrow> points t x k \<Longrightarrow>
      \<exists>t'. del t x = Inr t' \<and> inv t' \<and> contents t' = (contents t)(k := None)"
begin

text \<open>A put followed by the assignment of the value.\<close>

lemma put_set:
  assumes "inv t" "card (dom (contents t)) < room"
  shows "\<exists>t'. cbind (put t k) (\<lambda>(t, x, r). set_value t x v) = Inr t' \<and> inv t' \<and>
    contents t' = (contents t)(k \<mapsto> Some v)"
proof -
  obtain t1 x r ov where p: "put t k = Inr (t1, x, r)" "inv t1" "points t1 x k" "contents t1 = (contents t)(k \<mapsto> ov)"
    using put_law [OF assms, of k] by blast
  from set_law [OF p(2,3), of v] p(1,4) show ?thesis by auto
qed

text \<open>Looking a key up and reading its value.\<close>

lemma get_value:
  assumes "inv t" "\<And>k. contents t k \<noteq> Some None"
  shows "cbind (get t k) (\<lambda>x. if x = stop t then Inr None else cbind (value_at t x) (\<lambda>v. Inr (Some v))) =
    Inr (Option.bind (contents t k) id)"
proof (cases "contents t k")
  case None
  then show ?thesis using get_none [OF assms(1)] by simp
next
  case (Some w)
  then obtain v where v: "contents t k = Some (Some v)" using assms(2) [of k] by (cases w) auto
  then show ?thesis using get_some [OF assms(1) v] value_law [OF assms(1) _ v] by auto
qed

text \<open>Deleting a key that may be absent.\<close>

lemma get_del:
  assumes "inv t"
  shows "\<exists>t'. cbind (get t k) (\<lambda>x. if x = stop t then Inr t else del t x) = Inr t' \<and> inv t' \<and>
    contents t' = (contents t)(k := None)"
  using assms get_none [OF assms, of k] get_some [OF assms, of k] del_law [OF assms, of _ k]
  by (cases "contents t k") (auto simp: fun_upd_idem)

end

text \<open>
  A map that also says whether a key is new: as long as nothing was deleted (\<open>fresh\<close>), \<^verbatim>\<open>put\<close> returns 1 for a
  key it has not seen and 0 otherwise. \<open>all_values\<close> runs over the values of all keys.
\<close>

locale fresh_map = string_map +
  fixes fresh :: "'a \<Rightarrow> bool"
    and all_values :: "'a \<Rightarrow> 'b list cres"
  assumes fresh_init: "fresh init"
    and fresh_put: "inv t \<Longrightarrow> fresh t \<Longrightarrow> put t k = Inr (t', x, r) \<Longrightarrow> card (dom (contents t)) < room \<Longrightarrow>
      fresh t' \<and> (k \<notin> dom (contents t) \<longrightarrow> r = 1)"
    and fresh_set: "inv t \<Longrightarrow> fresh t \<Longrightarrow> points t x k \<Longrightarrow> set_value t x v = Inr t' \<Longrightarrow> fresh t'"
    and all_values_law: "inv t \<Longrightarrow> (\<And>k. contents t k \<noteq> Some None) \<Longrightarrow>
      \<exists>kvs. all_values t = Inr (map snd kvs) \<and> distinct (map fst kvs) \<and>
        map_of kvs = (\<lambda>k. Option.bind (contents t k) id)"
begin

text \<open>Storing a value for the first occurrence of a key only.\<close>

lemma put_first:
  assumes "inv t" "fresh t" "card (dom (contents t)) < room"
  shows "\<exists>t' x r. put t k = Inr (t', x, r) \<and>
    (if k \<in> dom (contents t) then r \<noteq> 1 \<and> inv t' \<and> fresh t' \<and> contents t' = contents t
     else r = 1 \<and> (\<exists>t''. set_value t' x v = Inr t'' \<and> inv t'' \<and> fresh t'' \<and>
       contents t'' = (contents t)(k \<mapsto> Some v)))"
proof -
  obtain t1 x r ov where p: "put t k = Inr (t1, x, r)" "inv t1" "points t1 x k" "contents t1 = (contents t)(k \<mapsto> ov)"
      "r = 0 \<longleftrightarrow> k \<in> dom (contents t)" "k \<in> dom (contents t) \<longrightarrow> contents t1 = contents t"
    using put_law [OF assms(1,3), of k] by blast
  note f = fresh_put [OF assms(1,2) p(1) assms(3)]
  obtain t2 where t2: "set_value t1 x v = Inr t2" "inv t2" "contents t2 = (contents t1)(k \<mapsto> Some v)"
    using set_law [OF p(2,3), of v] by blast
  have "fresh t2" using fresh_set [OF p(2) _ p(3) t2(1)] f by blast
  then show ?thesis using p t2 f by auto
qed

end

end
