(* ===== verification/KhashOps.thy ===== *)
theory KhashOps
  imports KhashMap StringMap
begin

section \<open>Runs of hash table operations\<close>

text \<open>
  The remaining operations on the map, the loop over all values, and the contract of the table as a whole:
  whatever operations are run on a fresh table, it answers as a map would.
\<close>

subsection \<open>Lookup, assignment, deletion\<close>

lemma kh_invD:
  assumes "kh_inv h"
  shows "places_ok h (lives h)" "length (vals h) = n_buckets h" "length (keys h) = n_buckets h"
  using assms by (auto simp: kh_inv_def kh_init_def lives_def places_ok_def table_def)

lemma lives_flag:
  assumes "kh_inv h" "i < n_buckets h"
  shows "kh_flag (flags h) i = Inr (flagw (flags h) i)"
proof -
  obtain m where "table m h" using assms by (auto simp: kh_inv_def kh_init_def)
  then show ?thesis using tableD(1,6) assms(2) by metis
qed

lemma content_at: "kh_inv h \<Longrightarrow> x \<in> lives h \<Longrightarrow> keys h ! x = Some k \<Longrightarrow> content h k = Some (vals h ! x)"
  using content_iff [OF kh_invD(1)] unfolding pairs_at_def by force

lemma kh_get_ok:
  assumes "kh_inv h"
  obtains x where "kh_get h key = Inr x"
    "case content h key of None \<Rightarrow> x = n_buckets h | Some v \<Rightarrow> x \<in> lives h \<and> keys h ! x = Some key \<and> vals h ! x = v"
proof (cases "h = kh_init")
  case True
  then show ?thesis using that [of 0] by (simp add: kh_get_def kh_init_def content_def kh_pairs_def)
next
  case False
  then obtain m where "table m h" using assms by (auto simp: kh_inv_def)
  then show ?thesis using kh_get_table that by blast
qed

lemma same_key: "places_ok h I \<Longrightarrow> i \<in> I \<Longrightarrow> j \<in> I \<Longrightarrow> keys h ! i = keys h ! j \<Longrightarrow> i = j"
  by (auto simp: places_ok_def inj_on_def)

lemma kh_set_value_ok:
  assumes inv: "kh_inv h" and x: "x \<in> lives h" "keys h ! x = Some k"
  obtains h' where "kh_set_value h x v = Inr h'" "kh_inv h'" "content h' = (content h)(k \<mapsto> Some v)"
    "kh_clean h \<Longrightarrow> kh_clean h'"
proof -
  obtain m where tab: "table m h" using inv x(1) by (auto simp: kh_inv_def kh_init_def lives_def)
  define h' where "h' = h\<lparr>vals := (vals h)[x := Some v]\<rparr>"
  have l: "lives h' = lives h" by (simp add: h'_def lives_def)
  have ok: "places_ok h' I = places_ok h I" for I by (simp add: h'_def places_ok_def)
  have xl: "x < length (vals h)" using x(1) kh_invD(2) [OF inv] by (simp add: lives_def)
  have tab': "table m h'" using tab unfolding table_def l ok by (simp add: h'_def)
  have "content h' = (content h)(k \<mapsto> Some v)"
  proof (rule content_eqI)
    show "places_ok h' (lives h')" unfolding l ok by (rule kh_invD(1) [OF inv])
    fix k' v'
    have "(k', v') \<in> pairs_at h' (lives h') \<longleftrightarrow>
        (if k' = k then v' = Some v else (k', v') \<in> pairs_at h (lives h))"
      using x xl same_key [OF kh_invD(1) [OF inv]] unfolding l
      by (auto simp: pairs_at_def h'_def nth_list_update split: if_splits)
    then show "(k', v') \<in> pairs_at h' (lives h') \<longleftrightarrow> ((content h)(k \<mapsto> Some v)) k' = Some v'"
      using content_iff [OF kh_invD(1) [OF inv]] by auto
  qed
  then show ?thesis
    using that [of h'] tab' xl by (auto simp: kh_set_value_def set_val_def h'_def kh_inv_def kh_clean_def)
qed

lemma kh_del_ok:
  assumes inv: "kh_inv h" and x: "x \<in> lives h" "keys h ! x = Some k"
  obtains h' where "kh_del h x = Inr h'" "kh_inv h'" "content h' = (content h)(k := None)"
    "kh_size h' = kh_size h - 1"
proof -
  obtain m where tab: "table m h" using inv x(1) by (auto simp: kh_inv_def kh_init_def lives_def)
  note t = tab [unfolded table_def]
  have xm: "x < 2 ^ m" "live (flags h) x" "x < n_buckets h" using x(1) t by (auto simp: lives_def)
  obtain fl where fl: "set_isdel_true (flags h) x = Inr fl" "flag_room (2 ^ m) fl"
      "\<And>j. emp fl j = emp (flags h) j" "\<And>j. dele fl j \<longleftrightarrow> dele (flags h) j \<or> j = x"
    using set_isdel_true_room [OF tableD(2) [OF tab] xm(1)] by blast
  define h' where "h' = h\<lparr>flags := fl, kh_size := kh_size h - 1\<rparr>"
  have l: "lives h' = lives h - {x}" using fl(3,4) by (auto simp: h'_def lives_def)
  have ok: "places_ok h' (lives h')" using kh_invD(1) [OF inv] unfolding l
    by (auto simp: h'_def places_ok_def inj_on_def)
  have tk: "taken_in (2 ^ m) fl = taken_in (2 ^ m) (flags h)" by (simp add: taken_in_def fl(3))
  have c: "card (lives h') = card (lives h) - 1" unfolding l using x(1) by simp
  have fs: "n_buckets h' = n_buckets h" "flags h' = fl" "keys h' = keys h" "vals h' = vals h"
      "upper_bound h' = upper_bound h" "kh_size h' = kh_size h - 1" "n_occupied h' = n_occupied h"
    by (simp_all add: h'_def)
  have tab': "table m h'"
    unfolding table_def fs tk using t fl(2,3,4) ok c xm(2) unfolding l by auto
  have "content h' = (content h)(k := None)"
  proof (rule content_eqI [OF ok])
    fix k' v'
    have "(k', v') \<in> pairs_at h' (lives h') \<longleftrightarrow> k' \<noteq> k \<and> (k', v') \<in> pairs_at h (lives h)"
      using x same_key [OF kh_invD(1) [OF inv]] unfolding l by (auto simp: pairs_at_def fs)
    then show "(k', v') \<in> pairs_at h' (lives h') \<longleftrightarrow> ((content h)(k := None)) k' = Some v'"
      using content_iff [OF kh_invD(1) [OF inv]] by auto
  qed
  then show ?thesis
    using that [of h'] tab' xm tableD(6) [OF tab xm(1)] fl(1) by (auto simp: kh_del_def h'_def kh_inv_def)
qed

lemma kh_clear_ok:
  assumes "kh_inv h"
  shows "kh_inv (kh_clear h) \<and> content (kh_clear h) = Map.empty \<and> kh_clean (kh_clear h)"
proof (cases "h = kh_init")
  case True
  then show ?thesis by (simp add: kh_clear_def kh_init_def kh_inv_def kh_clean_def content_def kh_pairs_def)
next
  case False
  then obtain m where tab: "table m h" using assms by (auto simp: kh_inv_def)
  note t = tab [unfolded table_def]
  let ?f = "fresh_flags (2 ^ m)"
  have "flags h \<noteq> []" using flag_index [OF tableD(2) [OF tab], of 0] by auto
  then have c: "kh_clear h = h\<lparr>flags := ?f, kh_size := 0, n_occupied := 0\<rparr>"
    using t by (simp add: kh_clear_def)
  have room: "flag_room (2 ^ m) ?f" using fresh_flags_room(1) [of 0] by simp
  have l: "lives (kh_clear h) = {}" "taken_in (2 ^ m) ?f = {}"
    using t by (auto simp: c lives_def taken_in_def fresh_flags_room)
  have "table m (kh_clear h)"
    unfolding table_def l using t room by (simp add: c l fresh_flags_room places_ok_def)
  moreover have "kh_pairs (kh_clear h) = []" using l(1) by (auto simp: kh_pairs_def lives_def filter_empty_conv)
  ultimately show ?thesis
    using t by (auto simp: kh_inv_def content_def kh_clean_def c fresh_flags_room)
qed

subsection \<open>The loop over all values\<close>

text \<open>\<^verbatim>\<open>kh_foreach_value\<close>, collecting the values; also the loop at the end of \<^verbatim>\<open>vendor_get_all_trading_pairs\<close>.\<close>

fun kh_each_value :: "'v kh \<Rightarrow> nat list \<Rightarrow> 'v list cres" where
  "kh_each_value h [] = Inr []"
| "kh_each_value h (i # js) =
     cbind (kh_exist h i) (\<lambda>e.
       if e then cbind (kh_value h i) (\<lambda>v. cbind (kh_each_value h js) (\<lambda>vs. Inr (v # vs)))
       else kh_each_value h js)"

definition kh_all_values :: "'v kh \<Rightarrow> 'v list cres" where
  "kh_all_values h = kh_each_value h [0..<n_buckets h]"

lemma kh_each_value_ok:
  assumes inv: "kh_inv h" and set: "\<And>k. content h k \<noteq> Some None"
  shows "set js \<subseteq> {..<n_buckets h} \<Longrightarrow>
    kh_each_value h js = Inr (map (\<lambda>i. the (vals h ! i)) (filter (live (flags h)) js))"
proof (induction js)
  case (Cons i js)
  then have i: "i < n_buckets h" by simp
  have ex: "kh_exist h i = Inr (live (flags h) i)" using lives_flag [OF inv i] by (simp add: kh_exist_def)
  have "\<exists>v. vals h ! i = Some v" if "live (flags h) i"
  proof -
    have l: "i \<in> lives h" using that i by (simp add: lives_def)
    then obtain k where "keys h ! i = Some k" using kh_invD(1) [OF inv] by (auto simp: places_ok_def)
    then have "content h k = Some (vals h ! i)" by (rule content_at [OF inv l])
    then show ?thesis using set [of k] by (cases "vals h ! i") auto
  qed
  then show ?case
    using Cons ex i kh_invD(2) [OF inv] by (auto simp: kh_value_def val_at_def)
qed simp

lemma kh_all_values_ok:
  assumes inv: "kh_inv h" and set: "\<And>k. content h k \<noteq> Some None"
  obtains kvs where "kh_all_values h = Inr (map snd kvs)" "distinct (map fst kvs)"
    "map_of kvs = (\<lambda>k. Option.bind (content h k) id)"
proof -
  let ?kvs = "map (\<lambda>(k, v). (k, the v)) (kh_pairs h)"
  have f: "fst \<circ> (\<lambda>(k, v). (k, the v)) = fst" by auto
  have "kh_all_values h = Inr (map snd ?kvs)"
    unfolding kh_all_values_def by (subst kh_each_value_ok [OF inv set]) (auto simp: kh_pairs_def)
  moreover have "distinct (map fst ?kvs)" using kh_pairs_distinct [OF kh_invD(1) [OF inv]] by (simp add: f)
  moreover have "map_of ?kvs k = Option.bind (content h k) id" for k
    using set [of k] unfolding content_def map_of_map by (cases "map_of (kh_pairs h) k") auto
  ultimately show ?thesis using that [of ?kvs] by blast
qed

subsection \<open>The hash table provides the interface\<close>

definition kh_points :: "'v kh \<Rightarrow> nat \<Rightarrow> string \<Rightarrow> bool" where
  "kh_points h x k \<longleftrightarrow> x \<in> lives h \<and> keys h ! x = Some k"

lemma kh_pointsD: "kh_points h x k \<Longrightarrow> x \<in> lives h" "kh_points h x k \<Longrightarrow> keys h ! x = Some k" "kh_points h x k \<Longrightarrow> x < n_buckets h"
  by (auto simp: kh_points_def lives_def)

interpretation khm: fresh_map kh_inv content kh_points "2 ^ 30" kh_init kh_put kh_set_value kh_get n_buckets kh_value kh_del
  kh_clean kh_all_values
proof (unfold_locales, goal_cases)
  case 1 show ?case by (simp add: kh_inv_def)
next
  case 2 show ?case by simp
next
  case (3 t) then show ?case by (rule card_content(2))
next
  case (4 t k)
  then have sz: "kh_size t < 2 ^ 30" by (simp add: card_content(1))
  show ?case
  proof (rule kh_put_ok [OF 4(1) sz, of k])
    fix h' x r
    assume p: "kh_put t k = Inr (h', x, r)" "kh_inv h'" "x \<in> lives h'" "keys h' ! x = Some k"
      "r = 0 \<longleftrightarrow> content t k \<noteq> None" "content h' = (content t)(k \<mapsto> vals h' ! x)"
      "content t k \<noteq> None \<Longrightarrow> content h' = content t"
    show ?case
      by (intro exI [of _ h'] exI [of _ x] exI [of _ r] exI [of _ "vals h' ! x"])
        (use p in \<open>simp add: kh_points_def domIff\<close>)
  qed
next
  case (5 t x k v)
  then show ?case using kh_set_value_ok [OF 5(1) kh_pointsD(1,2) [OF 5(2)]] by metis
next
  case (6 t k) then show ?case using kh_get_ok [OF 6(1), of k] by auto
next
  case (7 t k w) then show ?case using kh_get_ok [OF 7(1), of k] by (auto simp: kh_points_def lives_def)
next
  case (8 t x k v)
  then show ?case
    using content_at [OF 8(1) kh_pointsD(1,2) [OF 8(2)]] kh_invD(2) [OF 8(1)] kh_pointsD(3) [OF 8(2)]
    by (simp add: kh_value_def val_at_def)
next
  case (9 t x k) then show ?case using kh_del_ok [OF 9(1) kh_pointsD(1,2) [OF 9(2)]] by metis
next
  case 10 show ?case by (simp add: kh_clean_def kh_init_def)
next
  case (11 t k t' x r)
  then have sz: "kh_size t < 2 ^ 30" by (simp add: card_content(1))
  show ?case
  proof (rule kh_put_ok [OF 11(1) sz, of k])
    fix h' x' r'
    assume p: "kh_put t k = Inr (h', x', r')" "kh_clean t \<Longrightarrow> r' = (if content t k = None then 1 else 0)"
      "kh_clean t \<Longrightarrow> kh_clean h'"
    then show ?case using 11(2,3) by (simp add: domIff)
  qed
next
  case (12 t x k v t') then show ?case using kh_set_value_ok [OF 12(1) kh_pointsD(1,2) [OF 12(3)], of v] by auto
next
  case (13 t) then show ?case using kh_all_values_ok [OF 13(1)] by metis
qed

subsection \<open>Runs\<close>

text \<open>The calls a client makes: store a value under a key, look a key up, delete it, clear the table.\<close>

datatype 'v kh_op = KPut string 'v | KGet string | KDel string | KClear

fun kh_call :: "'v kh \<Rightarrow> 'v kh_op \<Rightarrow> ('v kh \<times> 'v option) cres" where
  "kh_call h (KPut k v) =
     cbind (cbind (kh_put h k) (\<lambda>(h, x, r). kh_set_value h x v)) (\<lambda>h. Inr (h, None))"
| "kh_call h (KGet k) =
     cbind (cbind (kh_get h k) (\<lambda>x. if x = n_buckets h then Inr None else cbind (kh_value h x) (\<lambda>v. Inr (Some v))))
       (\<lambda>v. Inr (h, v))"
| "kh_call h (KDel k) =
     cbind (cbind (kh_get h k) (\<lambda>x. if x = n_buckets h then Inr h else kh_del h x)) (\<lambda>h. Inr (h, None))"
| "kh_call h KClear = Inr (kh_clear h, None)"

fun kh_run :: "'v kh \<Rightarrow> 'v kh_op list \<Rightarrow> ('v kh \<times> 'v option list) cres" where
  "kh_run h [] = Inr (h, [])"
| "kh_run h (c # cs) =
     cbind (kh_call h c) (\<lambda>(h, a). cbind (kh_run h cs) (\<lambda>(h, as). Inr (h, a # as)))"

text \<open>The specification: the same calls on a map.\<close>

fun map_call :: "(string \<rightharpoonup> 'v) \<Rightarrow> 'v kh_op \<Rightarrow> (string \<rightharpoonup> 'v) \<times> 'v option" where
  "map_call M (KPut k v) = (M(k \<mapsto> v), None)"
| "map_call M (KGet k) = (M, M k)"
| "map_call M (KDel k) = (M(k := None), None)"
| "map_call M KClear = (Map.empty, None)"

fun map_run :: "(string \<rightharpoonup> 'v) \<Rightarrow> 'v kh_op list \<Rightarrow> (string \<rightharpoonup> 'v) \<times> 'v option list" where
  "map_run M [] = (M, [])"
| "map_run M (c # cs) = (let (M, a) = map_call M c; (M, as) = map_run M cs in (M, a # as))"

definition stands_for :: "'v kh \<Rightarrow> (string \<rightharpoonup> 'v) \<Rightarrow> bool" where
  "stands_for h M \<longleftrightarrow> kh_inv h \<and> content h = map_option Some \<circ> M"

lemma stands_for_set: "stands_for h M \<Longrightarrow> content h k \<noteq> Some None"
  by (cases "M k") (auto simp: stands_for_def)

lemma stands_for_dom: "stands_for h M \<Longrightarrow> dom (content h) = dom M"
  by (auto simp: stands_for_def dom_def)

lemma kh_call_ok:
  assumes "stands_for h M" "card (dom M) < 2 ^ 30"
  shows "\<exists>h'. kh_call h c = Inr (h', snd (map_call M c)) \<and> stands_for h' (fst (map_call M c))"
proof -
  have inv: "kh_inv h" and con: "content h = map_option Some \<circ> M" using assms(1) by (simp_all add: stands_for_def)
  show ?thesis
  proof (cases c)
    case (KPut k v)
    have "card (dom (content h)) < 2 ^ 30" using assms by (simp add: stands_for_dom)
    from khm.put_set [OF inv this, of k v] show ?thesis
      by (auto simp: KPut stands_for_def con fun_eq_iff)
  next
    case (KGet k)
    show ?thesis
      using khm.get_value [OF inv stands_for_set [OF assms(1)], of k] assms(1)
      by (cases "M k") (auto simp: KGet con)
  next
    case (KDel k)
    from khm.get_del [OF inv, of k] show ?thesis by (auto simp: KDel stands_for_def con fun_eq_iff)
  next
    case KClear
    then show ?thesis using kh_clear_ok [OF inv] by (auto simp: stands_for_def fun_eq_iff)
  qed
qed

lemma map_call_card:
  assumes "finite (dom M)"
  shows "card (dom (fst (map_call M c))) \<le> Suc (card (dom M))" "finite (dom (fst (map_call M c)))"
proof -
  show "finite (dom (fst (map_call M c)))" using assms by (cases c) auto
  show "card (dom (fst (map_call M c))) \<le> Suc (card (dom M))"
    using assms by (cases c) (auto simp: card_insert_if card_Diff_singleton_if)
qed

lemma kh_run_ok:
  "\<lbrakk>stands_for h M; finite (dom M); card (dom M) + length cs \<le> 2 ^ 30\<rbrakk> \<Longrightarrow>
    \<exists>h'. kh_run h cs = Inr (h', snd (map_run M cs)) \<and> stands_for h' (fst (map_run M cs))"
proof (induction cs arbitrary: h M)
  case (Cons c cs)
  obtain h1 where h1: "kh_call h c = Inr (h1, snd (map_call M c))" "stands_for h1 (fst (map_call M c))"
    using kh_call_ok [OF Cons.prems(1), of c] Cons.prems(3) by auto
  have "card (dom (fst (map_call M c))) + length cs \<le> 2 ^ 30"
    using map_call_card(1) [OF Cons.prems(2), of c] Cons.prems(3) by simp
  from Cons.IH [OF h1(2) map_call_card(2) [OF Cons.prems(2)] this]
  show ?case using h1(1) by (auto simp: Let_def split: prod.splits)
qed simp

subsection \<open>Properties\<close>

text \<open>
  C3. Any run of at most 2^30 puts, lookups, deletions and clearings on a fresh hash table returns, without
  any read or write outside its arrays, the answers a map from strings to values gives, and leaves a table
  that satisfies the invariant and stands for the final map.
\<close>

theorem khash_refines_map:
  assumes "length cs \<le> 2 ^ 30"
  shows "\<exists>h. kh_run kh_init cs = Inr (h, snd (map_run Map.empty cs)) \<and> stands_for h (fst (map_run Map.empty cs))"
proof -
  have "stands_for kh_init Map.empty" by (auto simp: stands_for_def kh_inv_def)
  then show ?thesis using kh_run_ok [of kh_init Map.empty cs] assms by simp
qed

lemma khash_refines_map_witness:
  "\<exists>h. kh_run kh_init [KPut ''BTC~LTC'' (1 :: nat), KPut ''BTC~DOGE'' 2, KPut ''BTC~LTC'' 3, KGet ''BTC~LTC'',
      KDel ''BTC~LTC'', KGet ''BTC~LTC'', KGet ''BTC~DOGE''] =
    Inr (h, [None, None, None, Some 3, None, None, Some 2]) \<and> content h ''BTC~DOGE'' = Some (Some 2)"
  using khash_refines_map [of "[KPut ''BTC~LTC'' (1 :: nat), KPut ''BTC~DOGE'' 2, KPut ''BTC~LTC'' 3, KGet ''BTC~LTC'',
      KDel ''BTC~LTC'', KGet ''BTC~LTC'', KGet ''BTC~DOGE'']"]
  by (auto simp: stands_for_def)

text \<open>
  C19. Putting a key keeps the invariant of the table (flags, counters, load bound, every key reachable on its
  probe path): the bucket it returns holds the key and lies inside the arrays, the return code is 0 exactly
  when the key was there, 1 when it is new and no bucket was ever deleted, and the other keys keep their values,
  also when the table is rehashed or doubled on the way.
\<close>

theorem kh_put_keeps:
  assumes "kh_inv h" "kh_size h < 2 ^ 30"
  shows "\<exists>h' x r. kh_put h key = Inr (h', x, r) \<and> kh_inv h' \<and> x < n_buckets h' \<and> keys h' ! x = Some key \<and>
    (r = 0 \<longleftrightarrow> content h key \<noteq> None) \<and> (kh_clean h \<longrightarrow> kh_clean h' \<and> r \<in> {0, 1}) \<and>
    content h' = (content h)(key \<mapsto> vals h' ! x) \<and> (content h key \<noteq> None \<longrightarrow> content h' = content h)"
proof (rule kh_put_ok [OF assms, of key])
  fix h' x r
  assume p: "kh_put h key = Inr (h', x, r)" "kh_inv h'" "x < n_buckets h'" "keys h' ! x = Some key"
    "r = 0 \<longleftrightarrow> content h key \<noteq> None" "kh_clean h \<Longrightarrow> r = (if content h key = None then 1 else 0)"
    "content h' = (content h)(key \<mapsto> vals h' ! x)" "kh_clean h \<Longrightarrow> kh_clean h'"
    "content h key \<noteq> None \<Longrightarrow> content h' = content h"
  then have "kh_clean h \<longrightarrow> kh_clean h' \<and> r \<in> {0, 1}" by simp
  with p show ?thesis by (intro exI [of _ h'] exI [of _ x] exI [of _ r]) simp
qed

lemma kh_put_keeps_witness:
  "\<exists>h' x r. kh_put (kh_init :: nat kh) ''BTC~LTC'' = Inr (h', x, r) \<and> kh_inv h' \<and> r = 1 \<and> keys h' ! x = Some ''BTC~LTC''"
  using kh_put_keeps [of "kh_init :: nat kh" "''BTC~LTC''"]
  by (auto simp: kh_inv_def kh_init_def kh_clean_def content_def kh_pairs_def)

text \<open>
  Deleting the bucket of a key removes that key and nothing else and keeps the invariant, so that the
  remaining keys are still found behind the deleted bucket.
\<close>

lemma kh_del_removes:
  assumes "kh_inv h" "content h key \<noteq> None"
  shows "\<exists>x h'. kh_get h key = Inr x \<and> x < n_buckets h \<and> kh_del h x = Inr h' \<and> kh_inv h' \<and>
    content h' = (content h)(key := None) \<and> kh_size h' = kh_size h - 1 \<and> kh_get h' key = Inr (n_buckets h')"
proof -
  obtain w where w: "content h key = Some w" using assms(2) by blast
  obtain x where x: "kh_get h key = Inr x" "x \<in> lives h" "keys h ! x = Some key"
    using kh_get_ok [OF assms(1), of key] w by auto
  obtain h' where h': "kh_del h x = Inr h'" "kh_inv h'" "content h' = (content h)(key := None)" "kh_size h' = kh_size h - 1"
    using kh_del_ok [OF assms(1) x(2,3)] by blast
  have "kh_get h' key = Inr (n_buckets h')" using khm.get_none [OF h'(2), of key] h'(3) by simp
  then show ?thesis using x h' by (auto simp: lives_def)
qed

text \<open>
  The load bound of a table of 4 to 2^31 buckets, computed in doubles from the factor 0.77, is above half of
  the buckets and below all of them: a full table always keeps an empty bucket, where every probe stops, and
  doubling always makes room.
\<close>

lemma kh_load_bound:
  assumes "2 \<le> m" "m \<le> 31"
  shows "2 ^ m < 2 * kh_upper (2 ^ m) \<and> kh_upper (2 ^ m) < 2 ^ m"
  using kh_upper_bounds [OF assms] by simp

end
