(* ===== verification/Vendor.thy ===== *)
theory Vendor
  imports Book KhashOps
begin

section \<open>Vendors (\<^verbatim>\<open>book/vendor.c\<close>)\<close>

text \<open>
  The table of exchanges: which functions a vendor's pointers lead to, the list of vendors, the vendors that
  trade a market and the list of all trading pairs, which is built with the hash table. A vendor's market
  list is the list its pointer leads to at the time of the call; the thread that replaces it is the subject of
  theory VendorLoop. Logging has no effect on the results and is left out.
\<close>

subsection \<open>The vendor structure\<close>

text \<open>A function pointer of a vendor is the exchange whose function it points to, \<open>None\<close> when it was never
  assigned.\<close>

datatype exchange = Mock | Bittrex | Btc38 | Poloniex

record vendor =
  vendor_name :: "string option"
  is_initialized :: bool
  books_get :: "exchange option"
  markets_get :: "exchange option"
  limit_buy :: "exchange option"
  limit_sell :: "exchange option"
  market_buy :: "exchange option"
  market_sell :: "exchange option"
  balance_get :: "exchange option"
  current_market :: "market list"
  running :: bool

definition vendor_new :: vendor where
  "vendor_new = \<lparr>vendor_name = None, is_initialized = False, books_get = None, markets_get = None,
     limit_buy = None, limit_sell = None, market_buy = None, market_sell = None, balance_get = None,
     current_market = [], running = False\<rparr>"

definition vendor_set_name :: "vendor \<Rightarrow> string \<Rightarrow> vendor" where
  "vendor_set_name v name = v\<lparr>vendor_name := Some name\<rparr>"

definition all_functions :: "exchange \<Rightarrow> vendor \<Rightarrow> vendor" where
  "all_functions x v = v\<lparr>books_get := Some x, markets_get := Some x, limit_buy := Some x, limit_sell := Some x,
     market_buy := Some x, market_sell := Some x, balance_get := Some x\<rparr>"

text \<open>\<^verbatim>\<open>vendor_get\<close> up to the start of the update thread.\<close>

definition vendor_get :: "string \<Rightarrow> vendor" where
  "vendor_get name =
     (let v = vendor_set_name vendor_new name;
          v = (if name = ''mock'' then v\<lparr>books_get := Some Mock, markets_get := Some Mock\<rparr> else v);
          v = (if name = ''bittrex'' then all_functions Bittrex v else v);
          v = (if name = ''btc38'' then all_functions Btc38 v else v);
          v = (if name = ''poloniex'' then all_functions Poloniex v else v)
      in v\<lparr>running := True\<rparr>)"

definition vendors_get_all :: "vendor list" where
  "vendors_get_all = [vendor_get ''btc38'', vendor_get ''bittrex'', vendor_get ''poloniex'']"

subsection \<open>Vendors with a market\<close>

fun vendors_with_market :: "vendor list \<Rightarrow> string \<Rightarrow> string \<Rightarrow> vendor list cres" where
  "vendors_with_market [] base mkt = Inr []"
| "vendors_with_market (v # vs) base mkt =
     cbind (if is_initialized v then
              cbind (market_get (current_market v) base mkt) (\<lambda>m.
              cbind (if m = [] then market_get (current_market v) mkt base else Inr m) (\<lambda>m.
                Inr (m \<noteq> [])))
            else Inr False) (\<lambda>add.
     cbind (vendors_with_market vs base mkt) (\<lambda>rest.
       Inr (if add then v # rest else rest)))"

subsection \<open>All trading pairs\<close>

text \<open>The key of a market; \<^verbatim>\<open>strlen\<close> follows both name pointers.\<close>

definition deref :: "string option \<Rightarrow> string cres" where
  "deref p = (case p of None \<Rightarrow> Inl BadPointer | Some s \<Rightarrow> Inr s)"

definition pair_key :: "market \<Rightarrow> string cres" where
  "pair_key m =
     cbind (deref (base_currency m)) (\<lambda>b.
     cbind (deref (market_currency m)) (\<lambda>c.
       let str_len = length b + length c + 2 in Inr (snprintf str_len (b @ ''~'' @ c))))"

definition pair_market :: "market \<Rightarrow> market" where
  "pair_market m = market_new\<lparr>base_currency := base_currency m, market_currency := market_currency m, fee := fee m\<rparr>"

text \<open>The inner loop; beside the table runs the list of keys to be freed.\<close>

fun pairs_of_markets :: "market kh \<Rightarrow> string list \<Rightarrow> market list \<Rightarrow> (market kh \<times> string list) cres" where
  "pairs_of_markets t ks [] = Inr (t, ks)"
| "pairs_of_markets t ks (m # ms) =
     cbind (pair_key m) (\<lambda>key.
     cbind (kh_put t key) (\<lambda>(t, i, ret).
       if ret = 1 then cbind (kh_set_value t i (pair_market m)) (\<lambda>t. pairs_of_markets t (ks @ [key]) ms)
       else pairs_of_markets t ks ms))"

text \<open>The outer loop. A vendor that is never initialised keeps the caller waiting.\<close>

fun pairs_of_vendors :: "market kh \<Rightarrow> string list \<Rightarrow> vendor list \<Rightarrow> (market kh \<times> string list) cres" where
  "pairs_of_vendors t ks [] = Inr (t, ks)"
| "pairs_of_vendors t ks (v # vs) =
     (if \<not> is_initialized v then Inl Diverges
      else cbind (pairs_of_markets t ks (current_market v)) (\<lambda>(t, ks). pairs_of_vendors t ks vs))"

text \<open>The result with the list of the keys that are freed at the end.\<close>

definition pairs_and_keys :: "vendor list \<Rightarrow> (market kh \<times> market list \<times> string list) cres" where
  "pairs_and_keys vs =
     cbind (pairs_of_vendors kh_init [] vs) (\<lambda>(t, ks).
     cbind (kh_all_values t) (\<lambda>ms. Inr (t, ms, ks)))"

definition vendor_get_all_trading_pairs :: "vendor list \<Rightarrow> market list cres" where
  "vendor_get_all_trading_pairs vs = cbind (pairs_and_keys vs) (\<lambda>(t, ms, ks). Inr ms)"

end
