(* ===== verification/VendorSpec.thy ===== *)
theory VendorSpec
  imports Vendor
begin

section \<open>What the vendor functions return\<close>

text \<open>
  The reference for the list of trading pairs is the association list of all markets in order, whose first
  entry per key counts; the hash table enters through the facts of the interface \<open>fresh_map\<close> only.
\<close>

subsection \<open>Keys\<close>

definition key_of :: "market \<Rightarrow> string" where
  "key_of m = the (base_currency m) @ ''~'' @ the (market_currency m)"

lemma pair_key_named: "named m \<Longrightarrow> pair_key m = Inr (key_of m)"
  by (auto simp: named_def pair_key_def deref_def key_of_def)

lemma pair_market_simps [simp]:
  "base_currency (pair_market m) = base_currency m" "market_currency (pair_market m) = market_currency m"
  "fee (pair_market m) = fee m" "key_of (pair_market m) = key_of m"
  by (simp_all add: pair_market_def key_of_def)

text \<open>A tilde within a name is the only way two pairs of names share a key.\<close>

lemma tilde_inj:
  "\<lbrakk>b @ x # c = b' @ x # c'; x \<notin> set b; x \<notin> set b'\<rbrakk> \<Longrightarrow> b = b' \<and> c = c'"
proof (induction b arbitrary: b')
  case Nil
  then show ?case by (cases b') auto
next
  case (Cons y b)
  then show ?case by (cases b') auto
qed

definition no_tilde :: "market \<Rightarrow> bool" where
  "no_tilde m \<longleftrightarrow> CHR ''~'' \<notin> set (the (base_currency m))"

lemma key_of_inj:
  "\<lbrakk>named m; named m'; no_tilde m; no_tilde m'; key_of m = key_of m'\<rbrakk> \<Longrightarrow>
    base_currency m = base_currency m' \<and> market_currency m = market_currency m'"
  using tilde_inj [of "the (base_currency m)" "CHR ''~''" "the (market_currency m)" "the (base_currency m')" "the (market_currency m')"]
  by (auto simp: key_of_def no_tilde_def named_def)

subsection \<open>The loops over vendors and markets\<close>

definition first_pairs :: "market list \<Rightarrow> string \<rightharpoonup> market" where
  "first_pairs ms = map_of (map (\<lambda>m. (key_of m, pair_market m)) ms)"

lemma first_pairs_dom: "dom (first_pairs ms) = key_of ` set ms"
  by (simp add: first_pairs_def dom_map_of_conv_image_fst image_image)

lemma first_pairs_snoc:
  "first_pairs (ms @ [m]) =
     (if key_of m \<in> dom (first_pairs ms) then first_pairs ms else (first_pairs ms)(key_of m \<mapsto> pair_market m))"
  by (auto simp: first_pairs_def map_add_def fun_eq_iff split: option.splits)

definition pairs_inv :: "market kh \<Rightarrow> string list \<Rightarrow> market list \<Rightarrow> bool" where
  "pairs_inv t ks seen \<longleftrightarrow> kh_inv t \<and> kh_clean t \<and> content t = map_option Some \<circ> first_pairs seen \<and>
     distinct ks \<and> set ks = dom (first_pairs seen)"

lemma pairs_inv_dom: "pairs_inv t ks seen \<Longrightarrow> dom (content t) = dom (first_pairs seen)"
  by (auto simp: pairs_inv_def dom_def)

lemma pairs_of_markets_ok:
  "\<lbrakk>pairs_inv t ks seen; \<forall>m\<in>set ms. named m; length seen + length ms \<le> 2 ^ 30\<rbrakk> \<Longrightarrow>
    \<exists>t' ks'. pairs_of_markets t ks ms = Inr (t', ks') \<and> pairs_inv t' ks' (seen @ ms)"
proof (induction ms arbitrary: t ks seen)
  case (Cons m ms)
  let ?k = "key_of m" and ?v = "pair_market m"
  have inv: "kh_inv t" "kh_clean t" and con: "content t = map_option Some \<circ> first_pairs seen"
      and ks: "distinct ks" "set ks = dom (first_pairs seen)"
    using Cons.prems(1) by (simp_all add: pairs_inv_def)
  have key: "pair_key m = Inr ?k" using Cons.prems(2) by (simp add: pair_key_named)
  have d: "dom (content t) = dom (first_pairs seen)" by (rule pairs_inv_dom [OF Cons.prems(1)])
  have "card (dom (content t)) \<le> length seen"
    unfolding d first_pairs_dom by (metis card_image_le card_length finite_set le_trans)
  then have room: "card (dom (content t)) < 2 ^ 30" using Cons.prems(3) by simp
  obtain t1 x r where p: "kh_put t ?k = Inr (t1, x, r)"
    "if ?k \<in> dom (content t) then r \<noteq> 1 \<and> kh_inv t1 \<and> kh_clean t1 \<and> content t1 = content t
     else r = 1 \<and> (\<exists>t2. kh_set_value t1 x ?v = Inr t2 \<and> kh_inv t2 \<and> kh_clean t2 \<and>
       content t2 = (content t)(?k \<mapsto> Some ?v))"
    using khm.put_first [OF inv room, of ?k ?v] by blast
  have len: "length (seen @ [m]) + length ms \<le> 2 ^ 30" using Cons.prems(3) by simp
  show ?case
  proof (cases "?k \<in> dom (content t)")
    case True
    then have "pairs_inv t1 ks (seen @ [m])"
      using p(2) ks con unfolding pairs_inv_def first_pairs_snoc by (simp add: d)
    from Cons.IH [OF this _ len] show ?thesis using Cons.prems(2) p True key by simp
  next
    case False
    then obtain t2 where t2: "r = 1" "kh_set_value t1 x ?v = Inr t2" "kh_inv t2" "kh_clean t2"
        "content t2 = (content t)(?k \<mapsto> Some ?v)"
      using p(2) by auto
    have "pairs_inv t2 (ks @ [?k]) (seen @ [m])"
      using t2 ks con False unfolding pairs_inv_def first_pairs_snoc by (auto simp: d fun_eq_iff)
    from Cons.IH [OF this _ len] show ?thesis using Cons.prems(2) p(1) t2 key by simp
  qed
qed simp

lemma pairs_of_vendors_ok:
  "\<lbrakk>pairs_inv t ks seen; \<forall>v\<in>set vs. is_initialized v \<and> (\<forall>m\<in>set (current_market v). named m);
    length seen + length (concat (map current_market vs)) \<le> 2 ^ 30\<rbrakk> \<Longrightarrow>
    \<exists>t' ks'. pairs_of_vendors t ks vs = Inr (t', ks') \<and> pairs_inv t' ks' (seen @ concat (map current_market vs))"
proof (induction vs arbitrary: t ks seen)
  case (Cons v vs)
  obtain t1 ks1 where 1: "pairs_of_markets t ks (current_market v) = Inr (t1, ks1)" "pairs_inv t1 ks1 (seen @ current_market v)"
    using pairs_of_markets_ok [OF Cons.prems(1), of "current_market v"] Cons.prems(2,3) by auto
  from Cons.IH [OF 1(2)] Cons.prems(2,3) show ?case using 1(1) by simp
qed simp

lemma pairs_and_keys_ok:
  assumes "\<forall>v\<in>set vs. is_initialized v \<and> (\<forall>m\<in>set (current_market v). named m)"
    "length (concat (map current_market vs)) \<le> 2 ^ 30"
  obtains t ms ks where "pairs_and_keys vs = Inr (t, ms, ks)" "distinct (map key_of ms)"
    "map_of (map (\<lambda>m. (key_of m, m)) ms) = first_pairs (concat (map current_market vs))"
    "distinct ks" "set ks = dom (content t)" "dom (content t) = set (map key_of ms)"
proof -
  let ?all = "concat (map current_market vs)"
  have "pairs_inv kh_init [] []"
    using khm.init_inv khm.fresh_init by (simp add: pairs_inv_def first_pairs_def fun_eq_iff)
  from pairs_of_vendors_ok [OF this assms(1)] assms(2) obtain t ks where
    t: "pairs_of_vendors kh_init [] vs = Inr (t, ks)" "pairs_inv t ks ?all" by auto
  have inv: "kh_inv t" and con: "content t = map_option Some \<circ> first_pairs ?all"
      and ks: "distinct ks" "set ks = dom (first_pairs ?all)"
    using t(2) by (simp_all add: pairs_inv_def)
  have set: "content t k \<noteq> Some None" for k using con by (cases "first_pairs ?all k") auto
  obtain kvs where kvs: "kh_all_values t = Inr (map snd kvs)" "distinct (map fst kvs)"
      "map_of kvs = (\<lambda>k. Option.bind (content t k) id)"
    using khm.all_values_law [OF inv set] by blast
  have m: "map_of kvs = first_pairs ?all"
    unfolding kvs(3) con by (rule ext) (case_tac "first_pairs ?all k"; simp)
  have fst: "fst kv = key_of (snd kv)" if "kv \<in> set kvs" for kv
  proof -
    have "first_pairs ?all (fst kv) = Some (snd kv)" using that kvs(2) m by (metis map_of_is_SomeI prod.collapse)
    then show ?thesis by (auto simp: first_pairs_def dest!: map_of_SomeD)
  qed
  have eq: "map (\<lambda>m. (key_of m, m)) (map snd kvs) = kvs"
    using fst by (induction kvs) (auto simp: prod_eq_iff)
  have k: "map key_of (map snd kvs) = map fst kvs" using fst by simp
  define ms where "ms = map snd kvs"
  have "distinct (map key_of ms)" "map_of (map (\<lambda>m. (key_of m, m)) ms) = first_pairs ?all"
    using kvs(2) m eq k unfolding ms_def [symmetric] by simp_all
  moreover have "dom (content t) = set (map key_of ms)"
    unfolding k [folded ms_def] pairs_inv_dom [OF t(2)] m [symmetric] by (simp add: dom_map_of_conv_image_fst)
  ultimately show ?thesis
    by (intro that [of t ms ks]) (use t(1) kvs(1) ks pairs_inv_dom [OF t(2)] in \<open>simp_all add: pairs_and_keys_def ms_def\<close>)
qed

subsection \<open>Properties\<close>

text \<open>
  C6. When every vendor is initialised and all markets have both names, \<^verbatim>\<open>vendor_get_all_trading_pairs\<close> returns
  one market per key \<^verbatim>\<open>base~market\<close>: its names and its fee are those of the first market with that key, in
  the order of the vendors, and no key is left out.
\<close>

theorem trading_pairs_unique:
  assumes "\<forall>v\<in>set vs. is_initialized v \<and> (\<forall>m\<in>set (current_market v). named m)"
    and "length (concat (map current_market vs)) \<le> 2 ^ 30"
  shows "\<exists>ms. vendor_get_all_trading_pairs vs = Inr ms \<and> distinct (map key_of ms) \<and>
    map_of (map (\<lambda>m. (key_of m, m)) ms) =
      map_of (map (\<lambda>m. (key_of m, pair_market m)) (concat (map current_market vs)))"
  by (rule pairs_and_keys_ok [OF assms]) (simp add: vendor_get_all_trading_pairs_def first_pairs_def)

definition ex_market :: "string \<Rightarrow> string \<Rightarrow> market" where
  "ex_market b m = market_new\<lparr>base_currency := Some b, market_currency := Some m\<rparr>"

definition ex_vendors :: "vendor list" where
  "ex_vendors =
     [vendor_new\<lparr>is_initialized := True, current_market := [ex_market ''BTC'' ''LTC'', ex_market ''CNY'' ''BTC'']\<rparr>,
      vendor_new\<lparr>is_initialized := True, current_market := [ex_market ''BTC'' ''LTC'']\<rparr>]"

lemma ex_vendors_ok:
  "\<forall>v\<in>set ex_vendors. is_initialized v \<and> (\<forall>m\<in>set (current_market v). named m \<and> no_tilde m)"
  "concat (map current_market ex_vendors) =
     [ex_market ''BTC'' ''LTC'', ex_market ''CNY'' ''BTC'', ex_market ''BTC'' ''LTC'']"
  by (simp_all add: ex_vendors_def ex_market_def named_def no_tilde_def)

lemma trading_pairs_unique_witness:
  "\<exists>ms. vendor_get_all_trading_pairs ex_vendors = Inr ms \<and> distinct (map key_of ms) \<and>
    map_of (map (\<lambda>m. (key_of m, m)) ms) ''BTC~LTC'' = Some (ex_market ''BTC'' ''LTC'')"
proof -
  have "\<exists>ms. vendor_get_all_trading_pairs ex_vendors = Inr ms \<and> distinct (map key_of ms) \<and>
    map_of (map (\<lambda>m. (key_of m, m)) ms) =
      map_of (map (\<lambda>m. (key_of m, pair_market m)) (concat (map current_market ex_vendors)))"
    by (rule trading_pairs_unique) (use ex_vendors_ok(1) in \<open>simp_all add: ex_vendors_ok(2)\<close>)
  then show ?thesis
    unfolding ex_vendors_ok(2) by (auto simp: key_of_def ex_market_def pair_market_def)
qed

lemma pairs_complete:
  assumes "\<forall>v\<in>set vs. is_initialized v \<and> (\<forall>m\<in>set (current_market v). named m \<and> no_tilde m)"
    and "length (concat (map current_market vs)) \<le> 2 ^ 30"
  shows "\<exists>ms. vendor_get_all_trading_pairs vs = Inr ms \<and> distinct (map key_of ms) \<and>
    (\<forall>m\<in>set ms. \<exists>m'\<in>set (concat (map current_market vs)). m = pair_market m') \<and>
    distinct (map (\<lambda>m. (base_currency m, market_currency m)) ms) \<and>
    (\<lambda>m. (base_currency m, market_currency m)) ` set ms =
      (\<Union>v\<in>set vs. (\<lambda>m. (base_currency m, market_currency m)) ` set (current_market v))"
proof -
  let ?all = "concat (map current_market vs)" and ?pair = "\<lambda>m. (base_currency m, market_currency m)"
  have ok: "\<forall>v\<in>set vs. is_initialized v \<and> (\<forall>m\<in>set (current_market v). named m)" using assms(1) by blast
  obtain t ms ks where r: "pairs_and_keys vs = Inr (t, ms, ks)" "distinct (map key_of ms)"
    "map_of (map (\<lambda>m. (key_of m, m)) ms) = first_pairs ?all"
    by (rule pairs_and_keys_ok [OF ok assms(2)]) (rule that)
  have ok': "named m \<and> no_tilde m" if "m \<in> set ?all" for m using that assms(1) by auto
  have k: "?pair m = ?pair m'" if "m \<in> set ?all" "m' \<in> set ?all" "key_of m = key_of m'" for m m'
    using key_of_inj [of m m'] ok' [OF that(1)] ok' [OF that(2)] that(3) by simp
  have from_ms: "\<exists>m'\<in>set ?all. m = pair_market m'" if "m \<in> set ms" for m
  proof -
    have "first_pairs ?all (key_of m) = Some m"
      unfolding r(3) [symmetric] using that r(2) by (intro map_of_is_SomeI) (auto simp: comp_def)
    then have "(key_of m, m) \<in> (\<lambda>m. (key_of m, pair_market m)) ` set ?all"
      unfolding first_pairs_def using map_of_SomeD by fastforce
    then show ?thesis by blast
  qed
  have "distinct (map ?pair ms)"
  proof -
    have "inj_on ?pair (set ms)"
    proof (rule inj_onI)
      fix m n assume mn: "m \<in> set ms" "n \<in> set ms" "?pair m = ?pair n"
      then have "key_of m = key_of n" by (simp add: key_of_def)
      then show "m = n" using mn(1,2) r(2) by (auto simp: distinct_map inj_on_def)
    qed
    then show ?thesis using r(2) by (simp add: distinct_map)
  qed
  moreover have "?pair ` set ms = ?pair ` set ?all"
  proof
    show "?pair ` set ms \<subseteq> ?pair ` set ?all" using from_ms by fastforce
    show "?pair ` set ?all \<subseteq> ?pair ` set ms"
    proof
      fix p assume "p \<in> ?pair ` set ?all"
      then obtain m where m: "m \<in> set ?all" "p = ?pair m" by blast
      then have "key_of m \<in> dom (first_pairs ?all)" by (simp add: first_pairs_dom)
      then have "key_of m \<in> key_of ` set ms" unfolding r(3) [symmetric] by (simp add: dom_map_of_conv_image_fst image_image)
      then obtain n where n: "n \<in> set ms" "key_of n = key_of m" by auto
      then obtain m' where m': "m' \<in> set ?all" "n = pair_market m'" using from_ms by blast
      then have "?pair n = p" using n(2) m k [OF m'(1) m(1)] by (simp add: m'(2))
      then show "p \<in> ?pair ` set ms" using n(1) by blast
    qed
  qed
  moreover have "?pair ` set ?all = (\<Union>v\<in>set vs. ?pair ` set (current_market v))" by auto
  moreover have "vendor_get_all_trading_pairs vs = Inr ms" using r(1) by (simp add: vendor_get_all_trading_pairs_def)
  moreover have "\<forall>m\<in>set ms. \<exists>m'\<in>set ?all. m = pair_market m'" using from_ms by blast
  ultimately show ?thesis using r(2) by (intro exI [of _ ms]) simp
qed

text \<open>
  C7. When no base currency name contains a tilde, the pairs of currencies of the result are exactly the pairs
  some vendor trades, without repetition.
\<close>

theorem trading_pairs_complete:
  assumes "\<forall>v\<in>set vs. is_initialized v \<and> (\<forall>m\<in>set (current_market v). named m \<and> no_tilde m)"
    and "length (concat (map current_market vs)) \<le> 2 ^ 30"
  shows "\<exists>ms. vendor_get_all_trading_pairs vs = Inr ms \<and>
    distinct (map (\<lambda>m. (base_currency m, market_currency m)) ms) \<and>
    (\<lambda>m. (base_currency m, market_currency m)) ` set ms =
      (\<Union>v\<in>set vs. (\<lambda>m. (base_currency m, market_currency m)) ` set (current_market v))"
  using pairs_complete [OF assms] by blast

lemma trading_pairs_complete_witness:
  "\<exists>ms. vendor_get_all_trading_pairs ex_vendors = Inr ms \<and>
    (\<lambda>m. (base_currency m, market_currency m)) ` set ms = {(Some ''BTC'', Some ''LTC''), (Some ''CNY'', Some ''BTC'')}"
proof -
  have "\<exists>ms. vendor_get_all_trading_pairs ex_vendors = Inr ms \<and>
    distinct (map (\<lambda>m. (base_currency m, market_currency m)) ms) \<and>
    (\<lambda>m. (base_currency m, market_currency m)) ` set ms =
      (\<Union>v\<in>set ex_vendors. (\<lambda>m. (base_currency m, market_currency m)) ` set (current_market v))"
    by (rule trading_pairs_complete) (use ex_vendors_ok(1) in \<open>simp_all add: ex_vendors_ok(2)\<close>)
  then show ?thesis by (auto simp: ex_vendors_def ex_market_def)
qed

text \<open>
  C33. The keys \<^verbatim>\<open>vendor_get_all_trading_pairs\<close> frees at its end are the keys of the hash table, each exactly
  once: no key is freed twice and none that the table owns is lost.
\<close>

theorem trading_pairs_keys_freed:
  assumes "\<forall>v\<in>set vs. is_initialized v \<and> (\<forall>m\<in>set (current_market v). named m)"
    and "length (concat (map current_market vs)) \<le> 2 ^ 30"
  shows "\<exists>t ms ks. pairs_and_keys vs = Inr (t, ms, ks) \<and> distinct ks \<and> set ks = dom (content t) \<and>
    length ks = length ms"
proof (rule pairs_and_keys_ok [OF assms])
  fix t ms ks
  assume r: "pairs_and_keys vs = Inr (t, ms, ks)" "distinct (map key_of ms)" "distinct ks" "set ks = dom (content t)"
    "dom (content t) = set (map key_of ms)"
  then have "length ks = length (map key_of ms)" by (metis distinct_card)
  then show ?thesis using r by simp
qed

lemma trading_pairs_keys_freed_witness:
  "\<exists>t ms ks. pairs_and_keys ex_vendors = Inr (t, ms, ks) \<and> distinct ks \<and> set ks = dom (content t)"
proof -
  have "\<exists>t ms ks. pairs_and_keys ex_vendors = Inr (t, ms, ks) \<and> distinct ks \<and> set ks = dom (content t) \<and>
    length ks = length ms"
    by (rule trading_pairs_keys_freed) (use ex_vendors_ok(1) in \<open>simp_all add: ex_vendors_ok(2)\<close>)
  then show ?thesis by blast
qed

text \<open>
  \<^verbatim>\<open>vendors_with_market\<close> returns, in order, the vendors that are initialised and trade the pair in one of the
  two directions; vendors that are not yet initialised are passed over.
\<close>

lemma vendors_with_market_filter:
  assumes "\<forall>v\<in>set vs. is_initialized v \<longrightarrow> (\<forall>m\<in>set (current_market v). named m)"
  shows "vendors_with_market vs base mkt =
    Inr (filter (\<lambda>v. is_initialized v \<and> (\<exists>m\<in>set (current_market v). is_pair base mkt m \<or> is_pair mkt base m)) vs)"
  using assms
proof (induction vs)
  case (Cons v vs)
  then have "vendors_with_market vs base mkt =
    Inr (filter (\<lambda>v. is_initialized v \<and> (\<exists>m\<in>set (current_market v). is_pair base mkt m \<or> is_pair mkt base m)) vs)"
    by simp
  moreover have "market_get (current_market v) b c = Inr (dropWhile (\<lambda>m. \<not> is_pair b c m) (current_market v))"
    if "is_initialized v" for b c
    using Cons.prems that by (intro market_get_named) simp
  ultimately show ?case by (auto simp: dropWhile_eq_Nil_conv)
qed simp

text \<open>
  Every vendor of \<^verbatim>\<open>vendors_get_all\<close> has all its function pointers set to the functions of its own exchange;
  the mock vendor has no trading functions, and a name \<^verbatim>\<open>vendor_get\<close> does not know leaves the pointer that the
  update thread follows unset.
\<close>

lemma vendor_get_functions:
  "map vendor_name vendors_get_all = [Some ''btc38'', Some ''bittrex'', Some ''poloniex''] \<and>
   map (\<lambda>v. (books_get v, markets_get v, limit_buy v, limit_sell v, market_buy v, market_sell v, balance_get v)) vendors_get_all =
     map (\<lambda>x. (Some x, Some x, Some x, Some x, Some x, Some x, Some x)) [Btc38, Bittrex, Poloniex] \<and>
   markets_get (vendor_get ''mock'') = Some Mock \<and> limit_buy (vendor_get ''mock'') = None \<and>
   (markets_get (vendor_get name) = None \<longleftrightarrow> name \<notin> {''mock'', ''bittrex'', ''btc38'', ''poloniex''})"
  by (simp add: vendors_get_all_def vendor_get_def all_functions_def vendor_set_name_def vendor_new_def Let_def)

end
