(* ===== verification/MarketPb.thy ===== *)
theory MarketPb
  imports Book
begin

section \<open>Markets as protobuf messages (\<^verbatim>\<open>book/market.c\<close>)\<close>

text \<open>
  Encoding of markets and lists of markets. The field encoders and decoders come from the library
  \<^verbatim>\<open>c-protobuf\<close>, which is not part of the program: they are the parameter \<open>pb\<close>, a record of functions. An
  encoder gets the field number, the value and the room left and returns the bytes it wrote, or \<open>None\<close> when the C
  function returns 0; a decoder gets the bytes from the read position on and the length it is told, and returns
  the value and the number of bytes read. The wire types are constants of the field tables and are left out.
\<close>

record protobuf =
  pb_string :: "nat \<Rightarrow> string \<Rightarrow> nat \<Rightarrow> byte list option"
  pb_varint :: "nat \<Rightarrow> nat \<Rightarrow> nat \<Rightarrow> byte list option"
  pb_delimited :: "nat \<Rightarrow> byte list \<Rightarrow> nat \<Rightarrow> byte list option"
  pb_field :: "byte list \<Rightarrow> nat \<Rightarrow> (nat \<times> nat) option"
  pb_get_string :: "byte list \<Rightarrow> nat \<Rightarrow> (string \<times> nat) option"
  pb_get_varint :: "byte list \<Rightarrow> nat \<Rightarrow> (nat \<times> nat) option"
  pb_get_delimited :: "byte list \<Rightarrow> nat \<Rightarrow> (byte list \<times> nat) option"

definition str_of :: "string option \<Rightarrow> string cres" where
  "str_of p = (case p of None \<Rightarrow> Inl BadPointer | Some s \<Rightarrow> Inr s)"

subsection \<open>Encoding\<close>

definition market_protobuf_encode_size :: "market \<Rightarrow> nat cres" where
  "market_protobuf_encode_size m =
     cbind (str_of (base_currency m)) (\<lambda>b. cbind (str_of (market_currency m)) (\<lambda>c.
       Inr ((length b + 11) + (length c + 11) + 11)))"

fun market_list_protobuf_encode_size :: "market list \<Rightarrow> nat cres" where
  "market_list_protobuf_encode_size [] = Inr 0"
| "market_list_protobuf_encode_size (m # ms) =
     cbind (market_protobuf_encode_size m) (\<lambda>n. cbind (market_list_protobuf_encode_size ms) (\<lambda>k. Inr (n + 11 + k)))"

text \<open>\<^verbatim>\<open>(unsigned long long)(market->fee * 1000)\<close>\<close>

definition fee_varint :: "double \<Rightarrow> nat cres" where
  "fee_varint d = dbl_to_u64 (dbl_mul d dbl_1000)"

text \<open>
  What an encoder leaves: whether it returned 1, and the \<^verbatim>\<open>bytes_written\<close> bytes at the front of its buffer. The
  next field is appended to the bytes written so far; when its encoder returns 0, the function returns 0.
\<close>

type_synonym encoded = "bool \<times> byte list"

definition put_field :: "byte list \<Rightarrow> nat \<Rightarrow> (nat \<Rightarrow> byte list option) \<Rightarrow> (byte list \<Rightarrow> encoded cres) \<Rightarrow> encoded cres" where
  "put_field out room enc go_on =
     (case enc (room - length out) of None \<Rightarrow> Inr (False, out) | Some bs \<Rightarrow> go_on (out @ bs))"

definition market_protobuf_encode :: "protobuf \<Rightarrow> market \<Rightarrow> nat \<Rightarrow> encoded cres" where
  "market_protobuf_encode pb m room =
     cbind (str_of (base_currency m)) (\<lambda>b. put_field [] room (pb_string pb 1 b) (\<lambda>out.
     cbind (str_of (market_currency m)) (\<lambda>c. put_field out room (pb_string pb 2 c) (\<lambda>out.
     cbind (fee_varint (fee m)) (\<lambda>v. put_field out room (pb_varint pb 3 v) (\<lambda>out.
       Inr (True, out)))))))"

fun encode_markets :: "protobuf \<Rightarrow> market list \<Rightarrow> nat \<Rightarrow> byte list \<Rightarrow> encoded cres" where
  "encode_markets pb [] room out = Inr (True, out)"
| "encode_markets pb (m # ms) room out =
     cbind (market_protobuf_encode_size m) (\<lambda>market_len.
     cbind (market_protobuf_encode pb m market_len) (\<lambda>(ok, bs).
       if \<not> ok then Inr (False, out)
       else put_field out room (pb_delimited pb 1 bs) (\<lambda>out. encode_markets pb ms room out)))"

definition market_list_protobuf_encode :: "protobuf \<Rightarrow> market list \<Rightarrow> nat \<Rightarrow> encoded cres" where
  "market_list_protobuf_encode pb ms room = encode_markets pb ms room []"

subsection \<open>Decoding\<close>

text \<open>\<^verbatim>\<open>buffer_length - pos\<close> on \<^verbatim>\<open>size_t\<close>\<close>

definition size_diff :: "nat \<Rightarrow> nat \<Rightarrow> nat" where
  "size_diff a b = (if b \<le> a then a - b else 2 ^ 64 + a - b)"

text \<open>
  One field of a market at \<open>pos\<close>: the market and the position behind the field. The field number is decoded with
  the length of the whole buffer. A field with another number is left where it is, its content unread.
\<close>

definition market_field :: "protobuf \<Rightarrow> byte list \<Rightarrow> nat \<Rightarrow> market \<Rightarrow> (market \<times> nat) option" where
  "market_field pb buf p m =
     (case pb_field pb (drop p buf) (length buf) of
        None \<Rightarrow> None
      | Some (field_no, n) \<Rightarrow>
          let p = p + n; rest = drop p buf; len = size_diff (length buf) p in
          if field_no = 1 then
            (case pb_get_string pb rest len of None \<Rightarrow> None | Some (s, k) \<Rightarrow> Some (m\<lparr>base_currency := Some s\<rparr>, p + k))
          else if field_no = 2 then
            (case pb_get_string pb rest len of None \<Rightarrow> None | Some (s, k) \<Rightarrow> Some (m\<lparr>market_currency := Some s\<rparr>, p + k))
          else if field_no = 3 then
            (case pb_get_varint pb rest len of
               None \<Rightarrow> None
             | Some (v, k) \<Rightarrow> Some (m\<lparr>fee := dbl_div_nat (dbl_of_nat v) 1000\<rparr>, p + k))
          else Some (m, p))"

text \<open>The loop; a pass that does not move the position repeats for ever, so the fuel is one more than the number
  of bytes.\<close>

fun decode_fields :: "protobuf \<Rightarrow> nat \<Rightarrow> byte list \<Rightarrow> nat \<Rightarrow> market \<Rightarrow> market option cres" where
  "decode_fields pb 0 buf p m = Inl Diverges"
| "decode_fields pb (Suc fuel) buf p m =
     (if p < length buf then
        (case market_field pb buf p m of None \<Rightarrow> Inr None | Some (m, p) \<Rightarrow> decode_fields pb fuel buf p m)
      else Inr (Some m))"

definition market_protobuf_decode :: "protobuf \<Rightarrow> byte list \<Rightarrow> market option cres" where
  "market_protobuf_decode pb buf = decode_fields pb (length buf + 1) buf 0 market_new"

text \<open>The list: every field number 1 holds a market. For another field \<^verbatim>\<open>bytes_read\<close> still has the size of the field
  number and is added a second time.\<close>

fun decode_markets :: "protobuf \<Rightarrow> nat \<Rightarrow> byte list \<Rightarrow> nat \<Rightarrow> market list \<Rightarrow> market list option cres" where
  "decode_markets pb 0 buf p ms = Inl Diverges"
| "decode_markets pb (Suc fuel) buf p ms =
     (if p < length buf then
        (case pb_field pb (drop p buf) (length buf) of
           None \<Rightarrow> Inr None
         | Some (field_no, n) \<Rightarrow>
             let p = p + n in
             if field_no = 1 then
               (case pb_get_delimited pb (drop p buf) (size_diff (length buf) p) of
                  None \<Rightarrow> Inr None
                | Some (bs, k) \<Rightarrow>
                    cbind (market_protobuf_decode pb bs) (\<lambda>r.
                      case r of None \<Rightarrow> Inr None | Some m \<Rightarrow> decode_markets pb fuel buf (p + k) (ms @ [m])))
             else decode_markets pb fuel buf (p + n) ms)
      else Inr (Some ms))"

definition market_list_protobuf_decode :: "protobuf \<Rightarrow> byte list \<Rightarrow> market list option cres" where
  "market_list_protobuf_decode pb buf = decode_markets pb (length buf + 1) buf 0 []"

end
