(* ===== verification/PbWire.thy ===== *)
theory PbWire
  imports MarketPb
begin

section \<open>The protobuf wire format\<close>

text \<open>
  What the program relies on in the protobuf library, as a hypothesis on the parameter \<open>pb\<close> (\<open>pb_laws\<close>), and an
  instance of the parameter, the public wire format, which shows that the hypothesis can hold.
\<close>

subsection \<open>The hypothesis\<close>

text \<open>
  An encoder writes the value \<open>v\<close> as field \<open>f\<close> whenever \<open>sz\<close> bytes are left, and never more than fit; a
  decoder that is told at least the length of the field reads back field number and value and stops behind it.
\<close>

definition encodes :: "protobuf \<Rightarrow> nat \<Rightarrow> (nat \<Rightarrow> byte list option) \<Rightarrow> (byte list \<Rightarrow> nat \<Rightarrow> ('v \<times> nat) option) \<Rightarrow>
    'v \<Rightarrow> nat \<Rightarrow> bool" where
  "encodes pb f enc get v sz \<longleftrightarrow>
     (\<forall>room\<ge>sz. enc room \<noteq> None) \<and>
     (\<forall>room bs. enc room = Some bs \<longrightarrow> length bs \<le> sz \<and> length bs \<le> room \<and>
        (\<exists>n. 0 < n \<and> n \<le> length bs \<and>
           (\<forall>rest len. length bs \<le> len \<longrightarrow> pb_field pb (bs @ rest) len = Some (f, n)) \<and>
           (\<forall>rest len. length bs - n \<le> len \<longrightarrow> get (drop n bs @ rest) len = Some (v, length bs - n))))"

definition pb_laws :: "protobuf \<Rightarrow> bool" where
  "pb_laws pb \<longleftrightarrow>
     (\<forall>f\<in>{1, 2}. \<forall>s. length s < 2 ^ 64 \<longrightarrow> encodes pb f (pb_string pb f s) (pb_get_string pb) s (length s + 11)) \<and>
     (\<forall>v<2 ^ 64. encodes pb 3 (pb_varint pb 3 v) (pb_get_varint pb) v 11) \<and>
     (\<forall>bs. length bs < 2 ^ 64 \<longrightarrow> encodes pb 1 (pb_delimited pb 1 bs) (pb_get_delimited pb) bs (length bs + 11))"

subsection \<open>Variable-length numbers\<close>

fun varint :: "nat \<Rightarrow> byte list" where
  "varint n = (if n < 128 then [word_of_nat n] else word_of_nat (128 + n mod 128) # varint (n div 128))"

declare varint.simps [simp del]

fun unvarint :: "byte list \<Rightarrow> (nat \<times> nat) option" where
  "unvarint [] = None"
| "unvarint (b # bs) =
     (if unat b < 128 then Some (unat b, 1)
      else map_option (\<lambda>(v, k). (unat b - 128 + 128 * v, k + 1)) (unvarint bs))"

lemma byte_of_nat: "k < 256 \<Longrightarrow> unat (word_of_nat k :: byte) = k"
  by (simp add: unsigned_of_nat take_bit_eq_mod)

lemma unvarint_varint: "unvarint (varint n @ rest) = Some (n, length (varint n))"
proof (induction n rule: varint.induct)
  case (1 n)
  show ?case
  proof (cases "n < 128")
    case True
    then show ?thesis by (simp add: varint.simps [of n] unsigned_of_nat take_bit_eq_mod)
  next
    case False
    have "unat (word_of_nat (128 + n mod 128) :: byte) = 128 + n mod 128"
      by (rule byte_of_nat) (simp add: add_strict_left_mono [of _ 128 128, simplified])
    then show ?thesis using 1 False by (simp add: varint.simps [of n])
  qed
qed

lemma varint_length: "n < 128 ^ k \<Longrightarrow> 0 < k \<Longrightarrow> length (varint n) \<le> k"
proof (induction k arbitrary: n)
  case (Suc k)
  show ?case
  proof (cases "n < 128")
    case True
    then show ?thesis by (simp add: varint.simps [of n])
  next
    case False
    then have "0 < k" using Suc.prems by (cases k) auto
    moreover have "n div 128 < 128 ^ k" using Suc.prems(1) by (simp add: less_mult_imp_div_less mult.commute)
    ultimately show ?thesis using Suc.IH False by (simp add: varint.simps [of n])
  qed
qed simp

lemma varint_pos: "0 < length (varint n)"
  by (simp add: varint.simps [of n])

lemma varint_10: "n < 2 ^ 64 \<Longrightarrow> length (varint n) \<le> 10"
  by (rule varint_length) simp_all

subsection \<open>Fields\<close>

text \<open>The tag holds the field number and the wire type: 0 for numbers, 2 for texts and embedded messages.\<close>

definition tag :: "nat \<Rightarrow> nat \<Rightarrow> byte list" where
  "tag f wire = varint (8 * f + wire)"

definition fits :: "nat \<Rightarrow> byte list \<Rightarrow> byte list option" where
  "fits room bs = (if length bs \<le> room then Some bs else None)"

definition wire_delimited :: "nat \<Rightarrow> byte list \<Rightarrow> nat \<Rightarrow> byte list option" where
  "wire_delimited f bs room = fits room (tag f 2 @ varint (length bs) @ bs)"

definition wire_get_delimited :: "byte list \<Rightarrow> nat \<Rightarrow> (byte list \<times> nat) option" where
  "wire_get_delimited bs len =
     (case unvarint (take len bs) of
        None \<Rightarrow> None
      | Some (l, k) \<Rightarrow> if k + l \<le> len \<and> k + l \<le> length bs then Some (take l (drop k bs), k + l) else None)"

definition wire :: protobuf where
  "wire = \<lparr>pb_string = (\<lambda>f s room. wire_delimited f (bytes_of s) room),
     pb_varint = (\<lambda>f v room. fits room (tag f 0 @ varint v)),
     pb_delimited = wire_delimited,
     pb_field = (\<lambda>bs len. map_option (\<lambda>(v, k). (v div 8, k)) (unvarint (take len bs))),
     pb_get_string = (\<lambda>bs len. map_option (\<lambda>(t, k). (text_of t, k)) (wire_get_delimited bs len)),
     pb_get_varint = (\<lambda>bs len. unvarint (take len bs)),
     pb_get_delimited = wire_get_delimited\<rparr>"

lemma take_unvarint: "length (varint n) \<le> len \<Longrightarrow> unvarint (take len (varint n @ rest)) = Some (n, length (varint n))"
  by (simp add: unvarint_varint)

lemma length_tag: "8 * f + w < 128 \<Longrightarrow> length (tag f w) = 1"
  by (simp add: tag_def varint.simps)

lemma wire_encodes:
  assumes "8 * f + w < 128" "w < 8" "length body \<le> sz - 1" "0 < sz"
    and get: "\<And>rest len. length body \<le> len \<Longrightarrow> get (body @ rest) len = Some (v, length body)"
  shows "encodes wire f (\<lambda>room. fits room (tag f w @ body)) get v sz"
proof -
  have t: "length (tag f w) = 1" by (rule length_tag [OF assms(1)])
  have "pb_field wire ((tag f w @ body) @ rest) len = Some (f, 1)" if "length (tag f w @ body) \<le> len" for rest len
    using that take_unvarint [of "8 * f + w" len "body @ rest"] t assms(2)
    by (simp add: wire_def tag_def)
  moreover have "drop 1 (tag f w @ body) = body" using t by simp
  ultimately show ?thesis
    unfolding encodes_def using t assms(3,4) get by (auto simp: fits_def intro!: exI [of _ 1] split: if_splits)
qed

lemma wire_get_delimited_ok:
  "length (varint (length bs) @ bs) \<le> len \<Longrightarrow>
    wire_get_delimited ((varint (length bs) @ bs) @ rest) len = Some (bs, length (varint (length bs) @ bs))"
  by (simp add: wire_get_delimited_def unvarint_varint)

lemma wire_laws: "pb_laws wire"
proof -
  have d: "encodes wire f (wire_delimited f bs) wire_get_delimited bs (length bs + 11)"
    if "f \<in> {1, 2}" "length bs < 2 ^ 64" for f bs
    using wire_encodes [of f 2 "varint (length bs) @ bs" "length bs + 11" wire_get_delimited bs] that varint_10 [OF that(2)]
      wire_get_delimited_ok [of bs]
    by (auto simp: wire_delimited_def [abs_def])
  have s: "encodes wire f (wire_delimited f (bytes_of s)) (pb_get_string wire) s (length s + 11)"
    if "f \<in> {1, 2}" "length s < 2 ^ 64" for f s
    using wire_encodes [of f 2 "varint (length (bytes_of s)) @ bytes_of s" "length s + 11" "pb_get_string wire" s] that
      varint_10 [OF that(2)] wire_get_delimited_ok [of "bytes_of s"]
    by (auto simp: wire_delimited_def [abs_def] wire_def)
  have v: "encodes wire 3 (\<lambda>room. fits room (tag 3 0 @ varint v)) (pb_get_varint wire) v 11" if "v < 2 ^ 64" for v
    using wire_encodes [of 3 0 "varint v" 11 "pb_get_varint wire" v] varint_10 [OF that] take_unvarint [of v]
    by (auto simp: wire_def)
  show ?thesis
    unfolding pb_laws_def using d s v by (simp add: wire_def)
qed

end
