(* ===== verification/DoubleBounds.thy ===== *)
theory DoubleBounds
  imports CDouble Complex_Main
begin

section \<open>What the rounding of doubles means in real numbers\<close>

text \<open>
  The value of a double as a real number, and the error of one rounding: at most one part in \<open>2 ^ 53\<close>, or
  at most \<open>2 ^ -1075\<close> for tiny results. With it the integer that the encoder sends for a fee
  (\<^verbatim>\<open>(unsigned long long)(fee * 1000)\<close>) is compared with a thousand times the fee in exact arithmetic,
  without any of the functions that compute it.
\<close>

definition dbl_val :: "double \<Rightarrow> real" where
  "dbl_val d = (case d of Fin m e \<Rightarrow> of_int m * 2 powi e | _ \<Rightarrow> 0)"

lemma dbl_val_Fin [simp]: "dbl_val (Fin m e) = of_int m * 2 powi e"
  by (simp add: dbl_val_def)

subsection \<open>Powers of two with integer exponents\<close>

lemma powi_nat: "(2 :: real) powi e = 2 ^ nat e / 2 ^ nat (- e)"
proof (cases "0 \<le> e")
  case True
  then show ?thesis by (simp add: power_int_def)
next
  case False
  then show ?thesis by (simp add: power_int_def power_one_over inverse_eq_divide)
qed

lemma powi_less: "(2 :: real) powi a < 2 powi b \<longleftrightarrow> a < b"
  by (metis not_less power_int_increasing power_int_strict_increasing one_le_numeral one_less_numeral_iff semiring_norm(76))

lemma powi_le: "(2 :: real) powi a \<le> 2 powi b \<longleftrightarrow> a \<le> b"
  by (simp add: power_int_increasing not_less [symmetric] powi_less)

lemma powi_add: "(2 :: real) powi (a + b) = 2 powi a * 2 powi b"
  by (simp add: power_int_add)

lemma strip2_val: "\<exists>m' e'. strip2 m e = Fin m' e' \<and> of_int m' * 2 powi e' = (of_int m * 2 powi e :: real) \<and> (0 \<le> m \<longrightarrow> 0 \<le> m')"
proof (induction m e rule: strip2.induct)
  case (1 m e)
  show ?case
  proof (cases "m = 0 \<or> odd m")
    case True
    then show ?thesis by (subst strip2.simps) auto
  next
    case False
    then obtain k where k: "m = 2 * k" "k \<noteq> 0" by auto
    have "strip2 m e = strip2 (m div 2) (e + 1)" using False by (subst strip2.simps) simp
    moreover have "of_int (m div 2) * 2 powi (e + 1) = (of_int m * 2 powi e :: real)"
      by (simp add: k powi_add)
    ultimately show ?thesis using 1 False by (simp add: pos_imp_zdiv_nonneg_iff)
  qed
qed

lemma ilog2_bounds: "0 < n \<Longrightarrow> 2 ^ ilog2 n \<le> n \<and> n < 2 ^ Suc (ilog2 n)"
proof (induction n rule: ilog2.induct)
  case (1 n)
  show ?case
  proof (cases "n \<le> 1")
    case True
    then have "n = 1" using "1.prems" by simp
    then show ?thesis by (simp add: ilog2.simps)
  next
    case False
    then have "ilog2 n = Suc (ilog2 (n div 2))" by (subst ilog2.simps) simp
    moreover have "2 ^ ilog2 (n div 2) \<le> n div 2 \<and> n div 2 < 2 ^ Suc (ilog2 (n div 2))"
      using 1 False by simp
    ultimately show ?thesis by auto
  qed
qed

lemma ilog2_real:
  assumes "0 < n"
  shows "2 powi int (ilog2 n) \<le> real n" "real n < 2 powi (int (ilog2 n) + 1)"
proof -
  have "real (2 ^ ilog2 n) \<le> real n" "real n < real (2 ^ Suc (ilog2 n))"
    using ilog2_bounds [OF assms] by (simp_all only: of_nat_le_iff of_nat_less_iff)
  then show "2 powi int (ilog2 n) \<le> real n" "real n < 2 powi (int (ilog2 n) + 1)"
    unfolding powi_add by simp_all
qed

subsection \<open>The error of one rounding\<close>

text \<open>The nearest integer to a quotient.\<close>

lemma nearest_quotient:
  fixes num den :: nat
  assumes "0 < den"
  defines "q \<equiv> num div den" and "r \<equiv> num mod den"
  shows "\<bar>real (if den < 2 * r \<or> (2 * r = den \<and> odd q) then q + 1 else q) - real num / real den\<bar> \<le> 1 / 2"
proof -
  have n: "real num = real q * real den + real r"
    unfolding q_def r_def using div_mult_mod_eq [of num den] by (metis of_nat_add of_nat_mult)
  have x: "real num / real den = real q + real r / real den" using assms(1) by (simp add: n field_simps)
  have r: "r < den" using assms(1) by (simp add: r_def)
  have "real r / real den \<le> 1 / 2" if "2 * r \<le> den"
  proof -
    have "2 * real r \<le> real den" using that by linarith
    then show ?thesis using assms(1) by (simp add: field_simps)
  qed
  moreover have "1 / 2 \<le> real r / real den" if "den \<le> 2 * r"
  proof -
    have "real den \<le> 2 * real r" using that by linarith
    then show ?thesis using assms(1) by (simp add: field_simps)
  qed
  moreover have "real r / real den \<le> 1" "0 \<le> real r / real den" using r assms(1) by (simp_all add: field_simps)
  ultimately show ?thesis unfolding x by (auto simp: abs_le_iff)
qed

text \<open>The exponent that \<open>round_frac\<close> finds is that of the fraction.\<close>

lemma fraction_exponent:
  fixes n d :: nat
  assumes "0 < n" "0 < d"
  defines "b \<equiv> int (ilog2 n) - int (ilog2 d)"
  defines "l \<equiv> (if d * 2 ^ nat b \<le> n * 2 ^ nat (- b) then b else b - 1)"
  shows "2 powi l \<le> real n / real d" "real n / real d < 2 powi (l + 1)"
proof -
  let ?x = "real n / real d"
  have d: "0 < real d" using assms(2) by simp
  note n1 = ilog2_real [OF assms(1)]
  note d1 = ilog2_real [OF assms(2)]
  have "2 powi (b - 1) * real d \<le> 2 powi (b - 1) * 2 powi (int (ilog2 d) + 1)"
    using d1(2) by (intro mult_left_mono) auto
  also have "\<dots> = 2 powi int (ilog2 n)" by (simp add: b_def flip: powi_add)
  also have "\<dots> \<le> real n" by (rule n1)
  finally have low: "2 powi (b - 1) \<le> ?x" using d by (simp add: pos_le_divide_eq)
  have "real n < 2 powi (int (ilog2 n) + 1)" by (rule n1)
  also have "\<dots> = 2 powi (b + 1) * 2 powi int (ilog2 d)" by (simp only: powi_add [symmetric]) (simp add: b_def)
  also have "\<dots> \<le> 2 powi (b + 1) * real d" using d1(1) by (intro mult_left_mono) auto
  finally have high: "?x < 2 powi (b + 1)" using d by (simp add: pos_divide_less_eq)
  have test: "d * 2 ^ nat b \<le> n * 2 ^ nat (- b) \<longleftrightarrow> 2 powi b \<le> ?x"
  proof -
    have "d * 2 ^ nat b \<le> n * 2 ^ nat (- b) \<longleftrightarrow> real d * 2 ^ nat b \<le> real n * 2 ^ nat (- b)"
      by (simp flip: of_nat_le_iff [where 'a = real])
    also have "\<dots> \<longleftrightarrow> 2 ^ nat b * real d \<le> real n * 2 ^ nat (- b)" by (simp only: mult.commute)
    also have "\<dots> \<longleftrightarrow> 2 ^ nat b / 2 ^ nat (- b) * real d \<le> real n"
      by (simp only: times_divide_eq_left) (simp add: pos_divide_le_eq)
    also have "\<dots> \<longleftrightarrow> 2 powi b \<le> ?x" unfolding powi_nat [of b] by (rule pos_le_divide_eq [OF d, symmetric])
    finally show ?thesis .
  qed
  show "2 powi l \<le> ?x" "?x < 2 powi (l + 1)" using test low high by (auto simp: l_def)
qed
text \<open>One rounding of a positive fraction below \<open>2 ^ 64\<close>.\<close>

lemma round_frac_close:
  assumes "0 < n" "0 < d" "real n / real d < 2 powi 64"
  obtains m e where "round_frac False n d = Fin m e" "0 \<le> m"
    "\<bar>of_int m * 2 powi e - real n / real d\<bar> \<le> real n / real d / 2 ^ 53 \<or>
     (real n / real d < 1 / 2 \<and> \<bar>of_int m * 2 powi e - real n / real d\<bar> \<le> 1 / 4)"
proof -
  let ?x = "real n / real d"
  define b where "b = int (ilog2 n) - int (ilog2 d)"
  define l where "l = (if d * 2 ^ nat b \<le> n * 2 ^ nat (- b) then b else b - 1)"
  define e where "e = max (l - 52) (- 1074)"
  define num where "num = n * 2 ^ nat (- e)"
  define den where "den = d * 2 ^ nat e"
  define q' where "q' = (if den < 2 * (num mod den) \<or> (2 * (num mod den) = den \<and> odd (num div den))
    then num div den + 1 else num div den)"
  have l: "2 powi l \<le> ?x" "?x < 2 powi (l + 1)"
    using fraction_exponent [OF assms(1,2)] unfolding l_def b_def by blast+
  have "2 powi l < (2 :: real) powi 64" using l(1) assms(3) by linarith
  then have "l < 64" by (simp only: powi_less)
  then have e: "e \<le> 11" by (simp add: e_def)
  have den: "0 < den" using assms(2) by (simp add: den_def)
  have scaled: "real num / real den * 2 powi e = ?x"
    by (simp add: num_def den_def powi_nat)
  have "\<bar>real q' - real num / real den\<bar> \<le> 1 / 2"
    unfolding q'_def by (rule nearest_quotient [OF den])
  then have "\<bar>real q' - real num / real den\<bar> * 2 powi e \<le> 1 / 2 * 2 powi e"
    by (rule mult_right_mono) simp
  moreover have "\<bar>real q' - real num / real den\<bar> * 2 powi e = \<bar>real q' * 2 powi e - ?x\<bar>"
    by (simp only: scaled [symmetric] left_diff_distrib [symmetric] abs_mult) simp
  ultimately have close: "\<bar>real q' * 2 powi e - ?x\<bar> \<le> 1 / 2 * 2 powi e" by linarith
  obtain m' e' where m': "strip2 (int q') e = Fin m' e'" "of_int m' * 2 powi e' = real q' * 2 powi e" "0 \<le> m'"
    using strip2_val [of "int q'" e] by auto
  have "round_frac False n d = Fin m' e'"
    using assms(1) e m'(1)
    unfolding round_frac_def b_def [symmetric] l_def [symmetric] Let_def e_def [symmetric]
      num_def [symmetric] den_def [symmetric] q'_def [symmetric] by simp
  moreover have "\<bar>of_int m' * 2 powi e' - ?x\<bar> \<le> ?x / 2 ^ 53 \<or>
      (?x < 1 / 2 \<and> \<bar>of_int m' * 2 powi e' - ?x\<bar> \<le> 1 / 4)"
  proof (cases "- 1074 \<le> l - 52")
    case True
    then have "(2 :: real) powi e = 2 powi l / 2 ^ 52"
      by (simp add: e_def power_int_diff)
    then have "1 / 2 * 2 powi e \<le> ?x / 2 ^ 53" using l(1) by simp
    then show ?thesis using close unfolding m'(2) by linarith
  next
    case False
    then have "e = - 1074" "l + 1 \<le> -1" by (simp_all add: e_def)
    then have "2 powi (l + 1) \<le> (2 :: real) powi (- 1)" "2 powi e \<le> (2 :: real) powi (- 1)" by (simp_all only: powi_le)
    then have "2 powi (l + 1) \<le> (1 / 2 :: real)" "2 powi e \<le> (1 / 2 :: real)" by simp_all
    then have "?x < 1 / 2" "1 / 2 * 2 powi e \<le> (1 / 4 :: real)" using l(2) by linarith+
    then show ?thesis using close unfolding m'(2) by linarith
  qed
  ultimately show ?thesis using that m'(3) by blast
qed

subsection \<open>Truncation\<close>

lemma dbl_to_u64_floor:
  assumes "0 \<le> m" "of_int m * 2 powi e < (2 ^ 64 :: real)"
  obtains k where "dbl_to_u64 (Fin m e) = Inr k" "k < 2 ^ 64" "real k \<le> of_int m * 2 powi e" "of_int m * 2 powi e < real k + 1"
proof -
  define a where "a = nat m * 2 ^ nat e"
  define c where "c = (2 ^ nat (- e) :: nat)"
  have c: "0 < c" by (simp add: c_def)
  have v: "of_int m * 2 powi e = real a / real c" using assms(1) by (simp add: a_def c_def powi_nat)
  have "\<lfloor>real a / real c\<rfloor> = int (a div c)" by (rule floor_divide_of_nat_eq)
  then have low: "real (a div c) \<le> real a / real c" and high: "real a / real c < real (a div c) + 1"
    using floor_correct [of "real a / real c"] by simp_all
  have "real (a div c) < 2 ^ 64" using low assms(2) v by linarith
  then have small: "a div c < 2 ^ 64" by (metis of_nat_less_iff of_nat_numeral of_nat_power)
  then have "dbl_to_u64 (Fin m e) = Inr (a div c)" using assms(1) by (simp add: a_def c_def)
  with small low high v show ?thesis using that by simp
qed

subsection \<open>A thousand times a fee\<close>

text \<open>A fee that can be sent: finite, not negative, and a thousand times it fits the integer also after
  rounding.\<close>

definition fee_ok :: "double \<Rightarrow> bool" where
  "fee_ok d \<longleftrightarrow> (case d of Fin m e \<Rightarrow> 0 \<le> m | _ \<Rightarrow> False) \<and> 1000 * dbl_val d * (1 + 1 / 2 ^ 53) < 2 ^ 64"

text \<open>\<open>k\<close> is the fee in thousandths, cut to an integer, up to the rounding error of one multiplication.\<close>

definition cut_to :: "double \<Rightarrow> nat \<Rightarrow> bool" where
  "cut_to d k \<longleftrightarrow> real k \<le> 1000 * dbl_val d * (1 + 1 / 2 ^ 53) \<and> 1000 * dbl_val d * (1 - 1 / 2 ^ 53) < real k + 1"

lemma dbl_mul_1000: "dbl_mul (Fin m e) dbl_1000 = round_dyadic (m * 125) (e + 3)"
  by (simp add: dbl_1000_def)

lemma fee_cut_exact:
  assumes "fee_ok d"
  obtains k where "dbl_to_u64 (dbl_mul d dbl_1000) = Inr k" "k < 2 ^ 64" "cut_to d k"
proof -
  obtain m e where d: "d = Fin m e" "0 \<le> m" using assms by (auto simp: fee_ok_def split: double.splits)
  let ?X = "1000 * dbl_val d"
  have X: "?X = of_int (m * 125) * 2 powi (e + 3)" by (simp add: d(1) powi_add)
  have pos: "0 \<le> ?X" using d(2) by (simp add: X)
  have small: "?X * (1 + 1 / 2 ^ 53) < 2 ^ 64" using assms by (simp add: fee_ok_def)
  show ?thesis
  proof (cases "m = 0")
    case True
    then have "dbl_to_u64 (dbl_mul d dbl_1000) = Inr 0" "cut_to d 0"
      by (simp_all add: d dbl_mul_1000 round_dyadic_def round_frac_def cut_to_def)
    then show ?thesis using that [of 0] by simp
  next
    case False
    define n where "n = nat (m * 125) * 2 ^ nat (e + 3)"
    define c where "c = (2 ^ nat (- (e + 3)) :: nat)"
    have nc: "0 < n" "0 < c" using d(2) False by (simp_all add: n_def c_def)
    have x: "real n / real c = ?X" unfolding X powi_nat using d(2) by (simp add: n_def c_def)
    have "?X \<le> ?X * (1 + 1 / 2 ^ 53)" using pos by (simp add: mult_le_cancel_left1)
    then have "real n / real c < 2 powi 64" using small x by simp
    from round_frac_close [OF nc this] obtain p q where
      r: "round_frac False n c = Fin p q" "0 \<le> p"
        "\<bar>of_int p * 2 powi q - ?X\<bar> \<le> ?X / 2 ^ 53 \<or> (?X < 1 / 2 \<and> \<bar>of_int p * 2 powi q - ?X\<bar> \<le> 1 / 4)"
      unfolding x by blast
    let ?v = "of_int p * 2 powi q :: real"
    have mul: "dbl_mul d dbl_1000 = Fin p q"
      using r(1) d(2) by (simp add: d(1) dbl_mul_1000 round_dyadic_def n_def c_def)
    have "?v < 2 ^ 64" if "\<bar>?v - ?X\<bar> \<le> ?X / 2 ^ 53" using that small by argo
    moreover have "?v < 2 ^ 64" if "?X < 1 / 2" "\<bar>?v - ?X\<bar> \<le> 1 / 4"
    proof -
      have "?v < 1" using that by argo
      also have "(1 :: real) < 2 ^ 64" by simp
      finally show ?thesis .
    qed
    ultimately have "?v < 2 ^ 64" using r(3) by blast
    from dbl_to_u64_floor [OF r(2) this] obtain k where
      k: "dbl_to_u64 (Fin p q) = Inr k" "k < 2 ^ 64" "real k \<le> ?v" "?v < real k + 1" by blast
    have "cut_to d k"
    proof (cases "?X < 1 / 2 \<and> \<bar>?v - ?X\<bar> \<le> 1 / 4")
      case True
      then have "real k < 1" using k(3) by linarith
      then have "k = 0" by simp
      moreover have "?X * (1 - 1 / 2 ^ 53) \<le> ?X" using pos by (simp add: mult_le_cancel_left2)
      ultimately show ?thesis using pos True by (simp add: cut_to_def)
    next
      case False
      then have "\<bar>?v - ?X\<bar> \<le> ?X / 2 ^ 53" using r(3) by blast
      then have "?v \<le> ?X * (1 + 1 / 2 ^ 53)" "?X * (1 - 1 / 2 ^ 53) \<le> ?v" by argo+
      then show ?thesis using k(3,4) unfolding cut_to_def by linarith
    qed
    then show ?thesis using that k mul by simp
  qed
qed

end
