(* ===== verification/MarketPbSpec.thy ===== *)
theory MarketPbSpec
  imports PbWire DoubleBounds
begin

section \<open>Encoding and decoding markets\<close>

text \<open>
  The size estimate is enough, and the decoder reads back what the encoder wrote, for any protobuf library
  that keeps \<open>pb_laws\<close>. What a market keeps on the way is \<open>wire_market\<close>: both names and the fee cut to a
  thousandth. What "cut to a thousandth" means is said without the encoder, in real numbers (\<open>cut_to\<close>).
\<close>

subsection \<open>One field\<close>

lemma encodes_put:
  assumes "encodes pb f enc get v sz" "length out + sz \<le> room"
  obtains bs where "put_field out room enc go = go (out @ bs)" "enc (room - length out) = Some bs"
    "length bs \<le> sz" "0 < length bs"
proof -
  obtain bs where bs: "enc (room - length out) = Some bs" using assms by (force simp: encodes_def)
  moreover have "length bs \<le> sz" "0 < length bs" using assms(1) bs by (force simp: encodes_def)+
  ultimately show ?thesis using that by (simp add: put_field_def)
qed

lemma encodes_get:
  assumes "encodes pb f enc get v sz" "enc room = Some bs"
  obtains n where "pb_field pb (drop (length pre) (pre @ bs @ post)) (length (pre @ bs @ post)) = Some (f, n)"
    "get (drop (length pre + n) (pre @ bs @ post)) (size_diff (length (pre @ bs @ post)) (length pre + n)) =
      Some (v, length bs - n)"
    "n \<le> length bs" "0 < n"
proof -
  obtain n where n: "0 < n" "n \<le> length bs"
      "\<And>rest len. length bs \<le> len \<Longrightarrow> pb_field pb (bs @ rest) len = Some (f, n)"
      "\<And>rest len. length bs - n \<le> len \<Longrightarrow> get (drop n bs @ rest) len = Some (v, length bs - n)"
    using assms unfolding encodes_def by blast
  have "length bs - n \<le> size_diff (length (pre @ bs @ post)) (length pre + n)"
    using n(2) by (simp add: size_diff_def)
  with n show ?thesis by (intro that [of n]) simp_all
qed

lemma market_field_string:
  assumes "encodes pb f enc (pb_get_string pb) s sz" "enc room = Some bs" "f = 1 \<or> f = 2"
  shows "market_field pb (pre @ bs @ post) (length pre) m =
    Some (if f = 1 then m\<lparr>base_currency := Some s\<rparr> else m\<lparr>market_currency := Some s\<rparr>, length pre + length bs)"
proof -
  define buf where "buf = pre @ bs @ post"
  obtain n where "pb_field pb (drop (length pre) buf) (length buf) = Some (f, n)"
    "pb_get_string pb (drop (length pre + n) buf) (size_diff (length buf) (length pre + n)) = Some (s, length bs - n)"
    "n \<le> length bs"
    by (rule encodes_get [OF assms(1,2), of pre post, folded buf_def]) (rule that)
  then show ?thesis
    unfolding buf_def [symmetric] using assms(3) by (auto simp: market_field_def Let_def)
qed

lemma market_field_fee:
  assumes "encodes pb 3 enc (pb_get_varint pb) v sz" "enc room = Some bs"
  shows "market_field pb (pre @ bs @ post) (length pre) m =
    Some (m\<lparr>fee := dbl_div_nat (dbl_of_nat v) 1000\<rparr>, length pre + length bs)"
proof -
  define buf where "buf = pre @ bs @ post"
  obtain n where "pb_field pb (drop (length pre) buf) (length buf) = Some (3, n)"
    "pb_get_varint pb (drop (length pre + n) buf) (size_diff (length buf) (length pre + n)) = Some (v, length bs - n)"
    "n \<le> length bs"
    by (rule encodes_get [OF assms, of pre post, folded buf_def]) (rule that)
  then show ?thesis
    unfolding buf_def [symmetric] by (simp add: market_field_def Let_def)
qed

lemma decode_fields_step:
  "market_field pb buf p m = Some (m', p') \<Longrightarrow> p < length buf \<Longrightarrow>
    decode_fields pb (Suc fuel) buf p m = decode_fields pb fuel buf p' m'"
  by simp

subsection \<open>One market\<close>

text \<open>The fee in thousandths: a thousand times the fee as a double, without its fraction.\<close>

definition thousandths :: "double \<Rightarrow> nat" where
  "thousandths d = (case dbl_to_u64 (dbl_mul d (Fin 125 3)) of Inl _ \<Rightarrow> 0 | Inr k \<Rightarrow> k)"

definition wire_fee :: "double \<Rightarrow> double" where
  "wire_fee d = dbl_div_nat (dbl_of_nat (thousandths d)) 1000"

definition wire_market :: "market \<Rightarrow> market" where
  "wire_market m = market_new\<lparr>base_currency := base_currency m, market_currency := market_currency m,
     fee := wire_fee (fee m)\<rparr>"

text \<open>A market that can be encoded: both names, and a fee that is finite, not negative and fits the integer.\<close>

definition sendable :: "market \<Rightarrow> bool" where
  "sendable m \<longleftrightarrow> named m \<and> fee_ok (fee m)"

lemma sendable_fee:
  assumes "sendable m"
  shows "fee_varint (fee m) = Inr (thousandths (fee m))" "thousandths (fee m) < 2 ^ 64" "cut_to (fee m) (thousandths (fee m))"
proof -
  obtain k where k: "dbl_to_u64 (dbl_mul (fee m) dbl_1000) = Inr k" "k < 2 ^ 64" "cut_to (fee m) k"
    using fee_cut_exact assms unfolding sendable_def by blast
  moreover have "thousandths (fee m) = k" using k(1) by (simp add: thousandths_def dbl_1000_def)
  ultimately show "fee_varint (fee m) = Inr (thousandths (fee m))" "thousandths (fee m) < 2 ^ 64"
    "cut_to (fee m) (thousandths (fee m))" by (simp_all add: fee_varint_def)
qed

definition name_size :: "market \<Rightarrow> nat" where
  "name_size m = length (the (base_currency m)) + length (the (market_currency m)) + 33"

lemma size_named: "named m \<Longrightarrow> market_protobuf_encode_size m = Inr (name_size m)"
  by (auto simp: named_def market_protobuf_encode_size_def str_of_def name_size_def)

lemma encode_decode_market:
  assumes laws: "pb_laws pb" and m: "sendable m" and small: "name_size m < 2 ^ 64"
  obtains bs where "market_protobuf_encode pb m (name_size m) = Inr (True, bs)" "length bs \<le> name_size m"
    "market_protobuf_decode pb bs = Inr (Some (wire_market m))"
proof -
  define v where "v = thousandths (fee m)"
  obtain b c where "base_currency m = Some b" "market_currency m = Some c"
    using m by (auto simp: sendable_def named_def)
  then have n: "base_currency m = Some b" "market_currency m = Some c" "fee_varint (fee m) = Inr v" "v < 2 ^ 64"
    using sendable_fee [OF m] by (simp_all add: v_def)
  let ?room = "name_size m"
  have room: "?room = length b + 11 + (length c + 11) + 11" using n by (simp add: name_size_def)
  have L: "encodes pb 1 (pb_string pb 1 b) (pb_get_string pb) b (length b + 11)"
      "encodes pb 2 (pb_string pb 2 c) (pb_get_string pb) c (length c + 11)"
      "encodes pb 3 (pb_varint pb 3 v) (pb_get_varint pb) v 11"
    using laws n(4) small room unfolding pb_laws_def by auto
  obtain x where x: "pb_string pb 1 b (?room - length ([] :: byte list)) = Some x" "length x \<le> length b + 11" "0 < length x"
    using encodes_put [OF L(1), of "[]" ?room] room by (metis le_add1 add.assoc list.size(3) add_0)
  obtain y where y: "pb_string pb 2 c (?room - length x) = Some y" "length y \<le> length c + 11" "0 < length y"
    by (rule encodes_put [OF L(2), of x ?room]) (use room x(2) in simp_all)
  obtain z where z: "pb_varint pb 3 v (?room - length (x @ y)) = Some z" "length z \<le> 11" "0 < length z"
    by (rule encodes_put [OF L(3), of "x @ y" ?room]) (use room x(2) y(2) in simp_all)
  have enc: "market_protobuf_encode pb m ?room = Inr (True, x @ y @ z)"
    using n x(1) y(1) z(1) by (simp add: market_protobuf_encode_def put_field_def str_of_def)
  let ?m1 = "market_new\<lparr>base_currency := Some b\<rparr>"
  let ?m2 = "?m1\<lparr>market_currency := Some c\<rparr>"
  let ?m3 = "?m2\<lparr>fee := dbl_div_nat (dbl_of_nat v) 1000\<rparr>"
  let ?buf = "x @ y @ z"
  have f1: "market_field pb ?buf 0 market_new = Some (?m1, length x)"
    using market_field_string [OF L(1) x(1), of "[]" "y @ z" market_new] by simp
  have f2: "market_field pb ?buf (length x) ?m1 = Some (?m2, length (x @ y))"
    using market_field_string [OF L(2) y(1), of x z ?m1] by simp
  have f3: "market_field pb ?buf (length (x @ y)) ?m2 = Some (?m3, length ?buf)"
    using market_field_fee [OF L(3) z(1), of "x @ y" "[]" ?m2] by simp
  have "4 \<le> length ?buf + 1" unfolding length_append using x(3) y(3) z(3) by linarith
  then obtain g where "length ?buf + 1 = 4 + g" using le_Suc_ex by blast
  then have g: "length ?buf + 1 = Suc (Suc (Suc (Suc g)))" by simp
  have "market_protobuf_decode pb ?buf = Inr (Some ?m3)"
    unfolding market_protobuf_decode_def g
    using decode_fields_step [OF f1] decode_fields_step [OF f2] decode_fields_step [OF f3] x(3) y(3) z(3) by simp
  moreover have "?m3 = wire_market m" using n by (simp add: wire_market_def wire_fee_def v_def)
  moreover have "length ?buf \<le> ?room" using x(2) y(2) z(2) room by simp
  ultimately show ?thesis using that enc by metis
qed

subsection \<open>Lists\<close>

fun list_size :: "market list \<Rightarrow> nat" where
  "list_size [] = 0"
| "list_size (m # ms) = name_size m + 11 + list_size ms"

lemma list_size_named: "\<forall>m\<in>set ms. named m \<Longrightarrow> market_list_protobuf_encode_size ms = Inr (list_size ms)"
  by (induction ms) (simp_all add: size_named)

lemma encode_decode_markets:
  "\<lbrakk>pb_laws pb; \<forall>m\<in>set ms. sendable m; length out + list_size ms \<le> room; room < 2 ^ 64\<rbrakk> \<Longrightarrow>
    \<exists>bs. encode_markets pb ms room out = Inr (True, out @ bs) \<and> length bs \<le> list_size ms \<and> length ms \<le> length bs \<and>
      (\<forall>pre acc fuel. length ms < fuel \<longrightarrow>
        decode_markets pb fuel (pre @ bs) (length pre) acc = Inr (Some (acc @ map wire_market ms)))"
proof (induction ms arbitrary: out)
  case Nil
  have "decode_markets pb fuel pre (length pre) acc = Inr (Some acc)" if "0 < fuel" for pre acc fuel
    using that by (cases fuel) simp_all
  then show ?case by (intro exI [of _ "[]"]) simp
next
  case (Cons m ms)
  have m: "sendable m" "named m" using Cons.prems(2) by (simp_all add: sendable_def)
  have small: "name_size m + 11 + list_size ms + length out < 2 ^ 64" using Cons.prems(3,4) by simp
  obtain bs where bs: "market_protobuf_encode pb m (name_size m) = Inr (True, bs)" "length bs \<le> name_size m"
      "market_protobuf_decode pb bs = Inr (Some (wire_market m))"
    by (rule encode_decode_market [OF Cons.prems(1) m(1)]) (use small in simp_all)
  have law: "encodes pb 1 (pb_delimited pb 1 bs) (pb_get_delimited pb) bs (length bs + 11)"
    using Cons.prems(1) bs(2) small by (simp add: pb_laws_def)
  obtain d where d: "pb_delimited pb 1 bs (room - length out) = Some d" "length d \<le> length bs + 11" "0 < length d"
    by (rule encodes_put [OF law, of out room]) (use Cons.prems(3) bs(2) in simp_all)
  have "length (out @ d) + list_size ms \<le> room" using d(2) bs(2) Cons.prems(3) by simp
  from Cons.IH [OF Cons.prems(1) _ this Cons.prems(4)] Cons.prems(2) obtain es where
    es: "encode_markets pb ms room (out @ d) = Inr (True, (out @ d) @ es)" "length es \<le> list_size ms" "length ms \<le> length es"
      "\<And>pre acc fuel. length ms < fuel \<Longrightarrow>
        decode_markets pb fuel (pre @ es) (length pre) acc = Inr (Some (acc @ map wire_market ms))" by auto
  have "decode_markets pb fuel (pre @ d @ es) (length pre) acc = Inr (Some (acc @ map wire_market (m # ms)))"
    if f: "length (m # ms) < fuel" for pre acc fuel
  proof -
    obtain g where g: "fuel = Suc g" "length ms < g" using f by (cases fuel) auto
    define buf where "buf = pre @ d @ es"
    obtain n where n: "pb_field pb (drop (length pre) buf) (length buf) = Some (1, n)"
      "pb_get_delimited pb (drop (length pre + n) buf) (size_diff (length buf) (length pre + n)) = Some (bs, length d - n)"
      "n \<le> length d"
      by (rule encodes_get [OF law d(1), of pre es, folded buf_def]) (rule that)
    have "length pre < length buf" using d(3) by (simp add: buf_def)
    moreover have "decode_markets pb g buf (length pre + length d) (acc @ [wire_market m]) =
        Inr (Some (acc @ map wire_market (m # ms)))"
      using es(4) [OF g(2), of "pre @ d" "acc @ [wire_market m]"] by (simp add: buf_def)
    ultimately show ?thesis
      unfolding buf_def [symmetric] using n bs(3) by (simp add: g(1) Let_def)
  qed
  moreover have "encode_markets pb (m # ms) room out = Inr (True, out @ d @ es)"
    using bs(1) d(1) es(1) by (simp add: size_named [OF m(2)] put_field_def)
  moreover have "length (d @ es) \<le> list_size (m # ms)" "length (m # ms) \<le> length (d @ es)"
    unfolding length_append list.size list_size.simps using d(2,3) es(2,3) bs(2) by linarith+
  ultimately show ?case by (intro exI [of _ "d @ es"]) simp
qed

subsection \<open>Properties\<close>

text \<open>
  C12. For any protobuf library that keeps the laws: the size estimate of a list of markets, all with names and with
  finite, non-negative fees that fit the integer, is enough for the encoder, which returns 1 and writes no more
  bytes, and the decoder reads back the same markets in order: their names, and as the fee a whole number of
  thousandths divided by 1000. That number is a thousand times the fee of the market, cut and not rounded, in real
  arithmetic and up to the rounding of one multiplication.
\<close>

theorem market_list_round_trip:
  assumes "pb_laws pb" "\<forall>m\<in>set ms. sendable m" "market_list_protobuf_encode_size ms = Inr n" "n < 2 ^ 64"
  shows "\<exists>bs. market_list_protobuf_encode pb ms n = Inr (True, bs) \<and> length bs \<le> n \<and>
    market_list_protobuf_decode pb bs = Inr (Some (map wire_market ms)) \<and>
    (\<forall>m\<in>set ms. cut_to (fee m) (thousandths (fee m)))"
proof -
  have n: "n = list_size ms" using list_size_named [of ms] assms(2,3) by (simp add: sendable_def)
  from encode_decode_markets [OF assms(1,2), of "[]" n] assms(4) obtain bs where
    bs: "encode_markets pb ms n [] = Inr (True, bs)" "length bs \<le> list_size ms" "length ms \<le> length bs"
      "\<And>pre acc fuel. length ms < fuel \<Longrightarrow>
        decode_markets pb fuel (pre @ bs) (length pre) acc = Inr (Some (acc @ map wire_market ms))"
    by (auto simp: n)
  then have "market_list_protobuf_decode pb bs = Inr (Some (map wire_market ms))"
    using bs(4) [of "length bs + 1" "[]" "[]"] by (simp add: market_list_protobuf_decode_def)
  moreover have "\<forall>m\<in>set ms. cut_to (fee m) (thousandths (fee m))" using assms(2) sendable_fee(3) by blast
  ultimately show ?thesis using bs(1,2) by (simp add: market_list_protobuf_encode_def n)
qed

definition ex_sent :: market where
  "ex_sent = market_new\<lparr>base_currency := Some ''BTC'', market_currency := Some ''LTC'', fee := dbl_0_7\<rparr>"

lemma fee_varint_0_7: "fee_varint dbl_0_7 = Inr 700"
  by code_simp

lemma thousandths_0_7: "thousandths dbl_0_7 = 700"
  by code_simp

lemma fee_ok_0_7: "fee_ok dbl_0_7"
  by (simp add: fee_ok_def dbl_0_7_def power_int_def power_one_over)

lemma fee_back: "dbl_div_nat (dbl_of_nat 700) 1000 = dbl_0_7"
  by code_simp

lemma wire_fee_0_7: "wire_fee dbl_0_7 = dbl_0_7"
  by (simp add: wire_fee_def thousandths_0_7 fee_back)

lemma ex_sent_ok: "sendable ex_sent" "market_list_protobuf_encode_size [ex_sent] = Inr 50"
  by (simp_all add: ex_sent_def sendable_def named_def fee_ok_0_7 market_protobuf_encode_size_def str_of_def)

lemma wire_ex_sent: "wire_market ex_sent = ex_sent"
  by (simp add: wire_market_def ex_sent_def wire_fee_0_7)

lemma market_list_round_trip_witness:
  "\<exists>bs. market_list_protobuf_encode wire [ex_sent] 50 = Inr (True, bs) \<and> length bs \<le> 50 \<and>
    market_list_protobuf_decode wire bs =
      Inr (Some [market_new\<lparr>base_currency := Some ''BTC'', market_currency := Some ''LTC'', fee := dbl_0_7\<rparr>]) \<and>
    cut_to dbl_0_7 700"
proof -
  have "\<exists>bs. market_list_protobuf_encode wire [ex_sent] 50 = Inr (True, bs) \<and> length bs \<le> 50 \<and>
    market_list_protobuf_decode wire bs = Inr (Some (map wire_market [ex_sent])) \<and>
    (\<forall>m\<in>set [ex_sent]. cut_to (fee m) (thousandths (fee m)))"
    by (rule market_list_round_trip [OF wire_laws]) (use ex_sent_ok in simp_all)
  moreover have "fee ex_sent = dbl_0_7" by (simp add: ex_sent_def)
  ultimately show ?thesis by (simp add: wire_ex_sent thousandths_0_7) (simp add: ex_sent_def)
qed

lemma fee_cut: "fee_varint (Fin 1 (-4)) = Inr 62" "fee_varint (Fin (-1) (-2)) = Inl BadConversion"
  by code_simp+

text \<open>
  The fee 0.7 that the program gives its markets survives the transfer unchanged; a fee with more than three
  decimals (0.0625) is cut, not rounded, and a negative fee (-0.25) has no encoding: its conversion to the
  unsigned integer is undefined.
\<close>

lemma fee_transfer:
  "wire_fee dbl_0_7 = dbl_0_7 \<and> fee_varint (Fin 1 (-4)) = Inr 62 \<and> fee_varint (Fin (-1) (-2)) = Inl BadConversion"
  by (simp add: wire_fee_0_7 fee_cut)

end
