(* ===== verification/Bridge.thy ===== *)
theory Bridge
  imports VendorSpec MarketPbSpec
begin

section \<open>The bridge server and its client (\<^verbatim>\<open>main/main.c\<close>, \<^verbatim>\<open>client/cgi_client.c\<close>)\<close>

text \<open>
  One connection from the first byte read to the answer, the accept loop, and what the CGI client makes of the
  answer. Sockets are given by what their calls return: the reads of a connection as a list (\<open>None\<close>: -1), the
  accepted connections as a list of events.
\<close>

subsection \<open>The command\<close>

text \<open>\<^verbatim>\<open>get_trading_pairs\<close>: the bytes at the result pointer, \<open>None\<close> for the null pointer. The return code of the
  encoder is not looked at.\<close>

definition get_trading_pairs :: "protobuf \<Rightarrow> vendor list \<Rightarrow> byte list option cres" where
  "get_trading_pairs pb vendor_list =
     cbind (vendor_get_all_trading_pairs vendor_list) (\<lambda>market_head.
       if market_head = [] then Inr None
       else
         cbind (market_list_protobuf_encode_size market_head) (\<lambda>len.
         cbind (market_list_protobuf_encode pb market_head len) (\<lambda>(ok, bs).
           Inr (Some bs))))"

text \<open>\<^verbatim>\<open>strncmp(buffer, s, n) == 0\<close> on a heap block; the literal \<open>s\<close> ends with a NUL.\<close>

fun strn_eq :: "block \<Rightarrow> string \<Rightarrow> nat \<Rightarrow> bool cres" where
  "strn_eq b s 0 = Inr True"
| "strn_eq [] s (Suc n) = Inl OutOfBounds"
| "strn_eq (None # b) s (Suc n) = Inl Uninit"
| "strn_eq (Some c # b) s (Suc n) =
     (if c \<noteq> js_at s 0 then Inr False else if c = NUL then Inr True else strn_eq b (tl s) n)"

text \<open>The only command is \<^verbatim>\<open>trading_pairs\<close>; \<^verbatim>\<open>False\<close> is the null pointer.\<close>

definition getCommand :: "block \<Rightarrow> bool cres" where
  "getCommand buffer = strn_eq buffer ''trading_pairs'' 13"

subsection \<open>Reading the request\<close>

text \<open>The request buffer: the block and the number of bytes received. \<^verbatim>\<open>malloc(0)\<close> gives an empty block.\<close>

definition buffer_append :: "block \<times> nat \<Rightarrow> string \<Rightarrow> block \<times> nat" where
  "buffer_append buf incoming =
     (case buf of (b, len) \<Rightarrow>
        if incoming \<noteq> [] then (take len b @ map Some incoming @ [Some NUL], len + length incoming) else (b, len))"

text \<open>
  The read loop: a chunk of 255 bytes is followed by another read, except when more than 65535 bytes have come.
  The result of a failed read, -1 as \<^verbatim>\<open>size_t\<close>, goes to \<^verbatim>\<open>memcpy\<close> as the number of bytes. When nothing more comes
  after a full chunk the loop waits.
\<close>

fun read_loop :: "block \<times> nat \<Rightarrow> string option list \<Rightarrow> (block \<times> nat) cres" where
  "read_loop buf [] = Inl Diverges"
| "read_loop buf (None # rs) = Inl OutOfBounds"
| "read_loop buf (Some incoming # rs) =
     (let buf = buffer_append buf incoming in
      if snd buf > 65535 then Inr buf
      else if length incoming = 255 then read_loop buf rs else Inr buf)"

subsection \<open>Answering\<close>

datatype reply =
    ShutDown            \<comment> \<open>\<^verbatim>\<open>run\<close> is cleared and the main socket woken up\<close>
  | Answer "byte list"
  | NoResults           \<comment> \<open>the text \<^verbatim>\<open>No Results\<close>\<close>
  | Silent              \<comment> \<open>nothing is written\<close>

definition respond :: "protobuf \<Rightarrow> vendor list \<Rightarrow> block \<Rightarrow> reply cres" where
  "respond pb vendor_list buffer =
     cbind (strn_eq buffer ''EXIT'' 4) (\<lambda>ex.
       if ex then Inr ShutDown
       else
         cbind (getCommand buffer) (\<lambda>known.
           if \<not> known then Inr Silent
           else cbind (get_trading_pairs pb vendor_list) (\<lambda>r.
             case r of None \<Rightarrow> Inr NoResults | Some bs \<Rightarrow> Inr (if bs = [] then NoResults else Answer bs))))"

definition do_connect :: "protobuf \<Rightarrow> vendor list \<Rightarrow> string option list \<Rightarrow> reply cres" where
  "do_connect pb vendor_list reads = cbind (read_loop ([], 0) reads) (\<lambda>(buffer, n). respond pb vendor_list buffer)"

subsection \<open>The accept loop\<close>

text \<open>
  What an \<^verbatim>\<open>accept\<close> brings, with the value of \<^verbatim>\<open>run\<close> when it returns (the signal handler and the threads that
  serve connections clear it): a connection whose thread starts or does not, or an error, at which the program
  exits.
\<close>

datatype accepted = Conn nat bool | AcceptFails

datatype service_end = Waiting | Terminated | Exited

fun accept_loop :: "bool \<Rightarrow> (bool \<times> accepted) list \<Rightarrow> nat list \<Rightarrow> service_end \<times> nat list" where
  "accept_loop False evs served = (Terminated, served)"
| "accept_loop True [] served = (Waiting, served)"
| "accept_loop True ((run, ev) # evs) served =
     (if \<not> run then accept_loop False evs served
      else case ev of
             AcceptFails \<Rightarrow> (Exited, served)
           | Conn fd started \<Rightarrow>
               if started then accept_loop True evs (served @ [fd])
               else accept_loop False evs served)"

text \<open>
  The whole service: a failure of \<^verbatim>\<open>socket\<close>, \<^verbatim>\<open>setsockopt\<close> or \<^verbatim>\<open>bind\<close> ends the program, the result of \<^verbatim>\<open>listen\<close> is
  not looked at. \<^verbatim>\<open>run\<close> may already be cleared by a signal. \<^verbatim>\<open>main\<close> needs the port as its argument.
\<close>

record set_up =
  socket_ok :: bool
  option_ok :: bool
  bind_ok :: bool

definition main_service_connections :: "set_up \<Rightarrow> bool \<Rightarrow> (bool \<times> accepted) list \<Rightarrow> service_end \<times> nat list" where
  "main_service_connections su run evs =
     (if \<not> socket_ok su then (Exited, [])
      else if \<not> option_ok su then (Exited, [])
      else if \<not> bind_ok su then (Exited, [])
      else accept_loop run evs [])"

definition main_program :: "nat \<Rightarrow> set_up \<Rightarrow> bool \<Rightarrow> (bool \<times> accepted) list \<Rightarrow> service_end \<times> nat list" where
  "main_program argc su run evs = (if argc < 2 then (Exited, []) else main_service_connections su run evs)"

subsection \<open>The CGI client\<close>

definition bridge_command :: string where
  "bridge_command = ''trading_pairs''"

definition parse_markets :: "protobuf \<Rightarrow> byte list \<Rightarrow> market list cres" where
  "parse_markets pb input =
     cbind (market_list_protobuf_decode pb input) (\<lambda>r. Inr (case r of None \<Rightarrow> [] | Some ms \<Rightarrow> ms))"

text \<open>
  The objects \<^verbatim>\<open>format_output\<close> hands to the JSON library: input coin, output coin and fee of each market. The
  library follows the name pointers.
\<close>

fun output_pairs :: "market list \<Rightarrow> (string \<times> string \<times> double) list cres" where
  "output_pairs [] = Inr []"
| "output_pairs (m # ms) =
     cbind (str_of (base_currency m)) (\<lambda>b. cbind (str_of (market_currency m)) (\<lambda>c.
     cbind (output_pairs ms) (\<lambda>ps. Inr ((b, c, fee m) # ps))))"

definition format_output :: "protobuf \<Rightarrow> byte list \<Rightarrow> (string \<times> string \<times> double) list cres" where
  "format_output pb input = cbind (parse_markets pb input) output_pairs"

definition reply_bytes :: "reply \<Rightarrow> byte list" where
  "reply_bytes r =
     (case r of Answer bs \<Rightarrow> bs | NoResults \<Rightarrow> map (\<lambda>c. word_of_nat (char_code c)) ''No Results'' | _ \<Rightarrow> [])"

text \<open>What the client prints: an error object or the pairs.\<close>

datatype cgi_output = ErrorMessage string | Pairs "(string \<times> string \<times> double) list"

definition send_error :: "string \<Rightarrow> cgi_output" where
  "send_error msg = ErrorMessage (''{ \"success\" : false, \"message\" : \"'' @ msg @ ''\" }'')"

text \<open>\<^verbatim>\<open>bridge_connect\<close>: the descriptor, or \<open>None\<close> when the socket, the host or the connection fails.\<close>

definition bridge_connect :: "nat option \<Rightarrow> bool \<Rightarrow> bool \<Rightarrow> nat option" where
  "bridge_connect sockfd host reached =
     (case sockfd of
        None \<Rightarrow> None
      | Some fd \<Rightarrow> if \<not> host then None else if \<not> reached then None else Some fd)"

text \<open>
  The main program of the client: one read of at most 5000 bytes; \<open>deliver\<close> says which part of the answer it gets.
  After a failed read (\<open>None\<close>) the -1 is the length of the answer, so bytes behind the buffer are read.
\<close>

definition cgi_main :: "protobuf \<Rightarrow> nat option \<Rightarrow> (string \<Rightarrow> reply cres) \<Rightarrow> (byte list \<Rightarrow> byte list option) \<Rightarrow> cgi_output cres" where
  "cgi_main pb sockfd server deliver =
     (case sockfd of
        None \<Rightarrow> Inr (send_error ''Unable to connect to bridge'')
      | Some fd \<Rightarrow>
          cbind (server bridge_command) (\<lambda>r.
          case deliver (take 5000 (reply_bytes r)) of
            None \<Rightarrow> Inl OutOfBounds
          | Some bs \<Rightarrow> cbind (format_output pb bs) (\<lambda>ps. Inr (Pairs ps))))"

subsection \<open>Lemmas\<close>

lemma strn_eq_empty: "0 < n \<Longrightarrow> strn_eq [] s n = Inl OutOfBounds"
  by (cases n) simp_all

lemma strn_eq_text:
  "NUL \<notin> set s \<Longrightarrow> NUL \<notin> set t \<Longrightarrow> strn_eq (map Some s @ Some NUL # b) t n = Inr (take n s = take n t)"
proof (induction s arbitrary: t n)
  case Nil
  show ?case
  proof (cases n)
    case (Suc k)
    then show ?thesis using Nil.prems by (cases t) (auto simp: js_at_def)
  qed simp
next
  case (Cons c s)
  show ?case
  proof (cases n)
    case (Suc k)
    then show ?thesis using Cons by (cases t) (auto simp: js_at_def)
  qed simp
qed

lemma read_once:
  "s \<noteq> [] \<Longrightarrow> length s < 255 \<Longrightarrow> read_loop ([], 0) (Some s # rs) = Inr (map Some s @ [Some NUL], length s)"
  by (simp add: buffer_append_def Let_def)

lemma do_connect_once:
  assumes "s \<noteq> []" "length s < 255" "NUL \<notin> set s"
  shows "do_connect pb vs [Some s] =
    (if take 4 s = ''EXIT'' then Inr ShutDown
     else if take 13 s = ''trading_pairs'' then
       cbind (get_trading_pairs pb vs) (\<lambda>r.
         case r of None \<Rightarrow> Inr NoResults | Some bs \<Rightarrow> Inr (if bs = [] then NoResults else Answer bs))
     else Inr Silent)"
  using strn_eq_text [OF assms(3), of "''EXIT''" "[]" 4] strn_eq_text [OF assms(3), of "''trading_pairs''" "[]" 13]
  by (simp add: do_connect_def read_once [OF assms(1,2)] respond_def getCommand_def NUL_def del: read_loop.simps)

lemma buffer_append_text:
  "buffer_append (map Some s @ z, length s) t = (if t = [] then (map Some s @ z, length s)
     else (map Some (s @ t) @ [Some NUL], length (s @ t)))"
  by (simp add: buffer_append_def)

lemma read_loop_chunks:
  "\<lbrakk>\<forall>c\<in>set cs. length c = 255; length last_chunk < 255; length s + length (concat cs) \<le> 65535;
    length s + length (concat cs) + length last_chunk \<le> 65535; s @ concat cs @ last_chunk \<noteq> [];
    s = [] \<or> z = [Some NUL]\<rbrakk> \<Longrightarrow>
    read_loop (map Some s @ z, length s) (map Some (cs @ [last_chunk])) =
      Inr (map Some (s @ concat cs @ last_chunk) @ [Some NUL], length (s @ concat cs @ last_chunk))"
proof (induction cs arbitrary: s z)
  case Nil
  then show ?case by (auto simp: buffer_append_text Let_def)
next
  case (Cons c cs)
  have c: "c \<noteq> []" "length c = 255" using Cons.prems(1) by auto
  have "read_loop (map Some (s @ c) @ [Some NUL], length (s @ c)) (map Some (cs @ [last_chunk])) =
      Inr (map Some ((s @ c) @ concat cs @ last_chunk) @ [Some NUL], length ((s @ c) @ concat cs @ last_chunk))"
    by (rule Cons.IH) (use Cons.prems c in auto)
  moreover have "length s + 255 \<le> 65535" using Cons.prems(3) c by simp
  ultimately show ?case using c by (simp add: buffer_append_text Let_def)
qed

subsection \<open>Properties\<close>

lemma client_prints_pairs:
  assumes laws: "pb_laws pb"
    and ms: "vendor_get_all_trading_pairs vs = Inr ms" "ms \<noteq> []" "\<forall>m\<in>set ms. sendable m"
    and n: "market_list_protobuf_encode_size ms = Inr n" "n \<le> 5000"
    and whole: "\<forall>bs. deliver bs = Some bs"
  shows "cgi_main pb (Some fd) (\<lambda>cmd. do_connect pb vs [Some cmd]) deliver =
    Inr (Pairs (map (\<lambda>m. (the (base_currency m), the (market_currency m), wire_fee (fee m))) ms))"
proof -
  have sz: "n = list_size ms" using list_size_named [of ms] ms(3) n(1) by (simp add: sendable_def)
  have n64: "[] = ([] :: byte list)" "length ([] :: byte list) + list_size ms \<le> n" "n < 2 ^ 64" using n(2) sz by simp_all
  obtain bs where bs: "encode_markets pb ms n [] = Inr (True, bs)" "length bs \<le> n" "length ms \<le> length bs"
      "\<And>pre acc fuel. length ms < fuel \<Longrightarrow>
        decode_markets pb fuel (pre @ bs) (length pre) acc = Inr (Some (acc @ map wire_market ms))"
    using encode_decode_markets [OF laws ms(3) n64(2,3)] sz by auto
  have "bs \<noteq> []" using bs(3) ms(2) by (cases ms) auto
  have "get_trading_pairs pb vs = Inr (Some bs)"
    using ms(1,2) n(1) bs(1) by (simp add: get_trading_pairs_def market_list_protobuf_encode_def)
  then have "do_connect pb vs [Some bridge_command] = Inr (Answer bs)"
    using \<open>bs \<noteq> []\<close> by (subst do_connect_once) (simp_all add: bridge_command_def NUL_def)
  moreover have "take 5000 bs = bs" using bs(2) n(2) by simp
  moreover have "market_list_protobuf_decode pb bs = Inr (Some (map wire_market ms))"
    using bs(4) [of "length bs + 1" "[]" "[]"] bs(3) by (simp add: market_list_protobuf_decode_def)
  moreover have "output_pairs (map wire_market ms) =
      Inr (map (\<lambda>m. (the (base_currency m), the (market_currency m), wire_fee (fee m))) ms)"
    using ms(3) by (induction ms) (auto simp: sendable_def named_def wire_market_def str_of_def)
  ultimately show ?thesis
    using whole by (simp add: cgi_main_def reply_bytes_def format_output_def parse_markets_def)
qed

text \<open>
  A request that arrives in full chunks of 255 bytes and a shorter last one, 65535 bytes at most, is put
  together completely: the buffer holds its bytes and a terminating NUL.
\<close>

lemma request_assembled:
  assumes "\<forall>c\<in>set cs. length c = 255" "length d < 255" "concat cs @ d \<noteq> []" "length (concat cs @ d) \<le> 65535"
  shows "read_loop ([], 0) (map Some (cs @ [d])) = Inr (map Some (concat cs @ d) @ [Some NUL], length (concat cs @ d))"
  using read_loop_chunks [of cs d "[]" "[]"] assms by simp

text \<open>
  A connection whose first read fails runs out of bounds, since the -1 is used as a length of \<^verbatim>\<open>memcpy\<close>; one that
  closes without sending anything makes the server read from the empty block of \<^verbatim>\<open>malloc(0)\<close>.
\<close>

lemma connection_faults:
  "do_connect pb vs (None # rs) = Inl OutOfBounds \<and> do_connect pb vs [Some []] = Inl OutOfBounds"
  by (simp add: do_connect_def buffer_append_def respond_def Let_def strn_eq_empty)

text \<open>Events at which the loop goes on, and the connection of such an event.\<close>

definition served_ok :: "bool \<times> accepted \<Rightarrow> bool" where
  "served_ok e \<longleftrightarrow> (case e of (run, Conn fd started) \<Rightarrow> run \<and> started | (run, AcceptFails) \<Rightarrow> False)"

fun conn_of :: "bool \<times> accepted \<Rightarrow> nat" where
  "conn_of (run, Conn fd started) = fd"
| "conn_of (run, AcceptFails) = 0"

lemma accept_loop_eq:
  "accept_loop True evs served =
     ((case dropWhile served_ok evs of
         [] \<Rightarrow> Waiting
       | (run, ev) # _ \<Rightarrow> if run \<and> ev = AcceptFails then Exited else Terminated),
      served @ map conn_of (takeWhile served_ok evs))"
proof (induction evs arbitrary: served)
  case (Cons e evs)
  obtain run ev where e: "e = (run, ev)" by fastforce
  show ?case
    using Cons by (cases ev; cases run) (auto simp: e served_ok_def)
qed simp

text \<open>
  With a port given and the socket set up, the accept loop serves each connection that comes in, in order and once, up to the first event at which
  \<^verbatim>\<open>run\<close> has been cleared, a thread does not start or \<^verbatim>\<open>accept\<close> fails; only the last ends the program with an error,
  and without such an event it goes on waiting.
\<close>

lemma accept_loop_serves:
  assumes "2 \<le> argc" "socket_ok su" "option_ok su" "bind_ok su"
  shows "main_program argc su True evs =
     ((case dropWhile served_ok evs of
         [] \<Rightarrow> Waiting
       | (run, ev) # _ \<Rightarrow> if run \<and> ev = AcceptFails then Exited else Terminated),
      map conn_of (takeWhile served_ok evs))"
  using assms accept_loop_eq [of evs "[]"] by (simp add: main_program_def main_service_connections_def)

end
