(* ===== verification/Pipeline.thy ===== *)
theory Pipeline
  imports BittrexSpec Btc38Spec PoloniexSpec Bridge
begin

section \<open>From the exchanges to the client\<close>

text \<open>
  The parts together: the answers of the three exchanges, parsed by their modules through the function pointers
  of the vendors, merged by the server and printed by its client.
\<close>

subsection \<open>The function pointers\<close>

text \<open>The call \<^verbatim>\<open>vendor->markets_get()\<close>; a pointer that was never assigned is followed.\<close>

definition call_markets_get :: "curl_perform \<Rightarrow> bool \<Rightarrow> jsmntok list \<Rightarrow> exchange option \<Rightarrow> market list cres" where
  "call_markets_get perform handle ts0 f =
     (case f of
        None \<Rightarrow> Inl BadPointer
      | Some Mock \<Rightarrow> Inr mock_get_markets
      | Some Bittrex \<Rightarrow> bittrex_get_markets perform handle ts0
      | Some Btc38 \<Rightarrow> btc38_get_markets perform handle ts0
      | Some Poloniex \<Rightarrow> poloniex_get_markets perform handle ts0)"

text \<open>What one pass of \<^verbatim>\<open>vendor_update_loop\<close> makes of the vendor, and the same for a list of vendors.\<close>

definition vendor_refresh :: "curl_perform \<Rightarrow> bool \<Rightarrow> jsmntok list \<Rightarrow> vendor \<Rightarrow> vendor cres" where
  "vendor_refresh perform handle ts0 v =
     cbind (call_markets_get perform handle ts0 (markets_get v)) (\<lambda>ms.
       Inr (v\<lparr>current_market := ms, is_initialized := True\<rparr>))"

fun refresh_all :: "curl_perform \<Rightarrow> bool \<Rightarrow> jsmntok list \<Rightarrow> vendor list \<Rightarrow> vendor list cres" where
  "refresh_all perform handle ts0 [] = Inr []"
| "refresh_all perform handle ts0 (v # vs) =
     cbind (vendor_refresh perform handle ts0 v) (\<lambda>v.
     cbind (refresh_all perform handle ts0 vs) (\<lambda>vs. Inr (v # vs)))"

subsection \<open>Documented answers\<close>

text \<open>What the three exchanges answer: the tickers of btc38 against BTC and CNY, the members around and the
  listings of bittrex, the tickers of poloniex.\<close>

record answers =
  at_btc :: "ticker list"
  at_cny :: "ticker list"
  listed_before :: "(string option \<times> jval) list"
  listed_success :: string
  listed_between :: "(string option \<times> jval) list"
  listed :: "listing list"
  listed_after :: "(string option \<times> jval) list"
  at_polo :: "ticker list"

definition listings_answer :: "answers \<Rightarrow> jval" where
  "listings_answer x =
     markets_answer (listed_before x) (listed_success x) (listed_between x) (listed x) (listed_after x)"

text \<open>The answers are well formed, short enough for the token array and arrive at the addresses the modules
  ask; every ticker of poloniex has its underscore.\<close>

definition btc38_answers :: "curl_perform \<Rightarrow> jsmntok list \<Rightarrow> answers \<Rightarrow> bool" where
  "btc38_answers perform ts0 x \<longleftrightarrow>
     serves perform ''http://api.btc38.com/v1/ticker.php?c=all&mk_type=btc'' (render (tickers_answer ''ticker'' (at_btc x))) \<and>
     serves perform ''http://api.btc38.com/v1/ticker.php?c=all&mk_type=cny'' (render (tickers_answer ''ticker'' (at_cny x))) \<and>
     val_ok (tickers_answer ''ticker'' (at_btc x)) \<and> ntoks (tickers_answer ''ticker'' (at_btc x)) \<le> length ts0 \<and>
     val_ok (tickers_answer ''ticker'' (at_cny x)) \<and> ntoks (tickers_answer ''ticker'' (at_cny x)) \<le> length ts0 \<and>
     list_all (ticker_ok ''ticker'') (at_btc x @ at_cny x) \<and> at_btc x \<noteq> []"

definition bittrex_answers :: "curl_perform \<Rightarrow> jsmntok list \<Rightarrow> answers \<Rightarrow> bool" where
  "bittrex_answers perform ts0 x \<longleftrightarrow>
     serves perform ''https://bittrex.com/api/v1.1/public/getmarkets'' (render (listings_answer x)) \<and>
     val_ok (listings_answer x) \<and> ntoks (listings_answer x) \<le> length ts0 \<and>
     free_of ''success'' (listed_before x) \<and>
     (case json_int_of (listed_success x) of Inl e \<Rightarrow> False | Inr z \<Rightarrow> z \<noteq> 0) \<and> list_all listing_ok (listed x) \<and>
     free_of ''MarketCurrency'' (listed_between x) \<and> free_of ''MarketCurrency'' (listed_after x)"

definition poloniex_answers :: "curl_perform \<Rightarrow> jsmntok list \<Rightarrow> answers \<Rightarrow> bool" where
  "poloniex_answers perform ts0 x \<longleftrightarrow>
     serves perform ''https://poloniex.com/public?command=returnTicker'' (render (tickers_answer ''id'' (at_polo x))) \<and>
     val_ok (tickers_answer ''id'' (at_polo x)) \<and> ntoks (tickers_answer ''id'' (at_polo x)) \<le> length ts0 \<and>
     list_all (ticker_ok ''id'') (at_polo x) \<and> list_all (\<lambda>t. CHR ''_'' \<in> set (fst t)) (at_polo x)"

text \<open>The markets of the answers, in the order of the vendors.\<close>

definition btc38_markets :: "answers \<Rightarrow> market list" where
  "btc38_markets x =
     map (\<lambda>t. btc38_market ''btc'' (fst t)) (at_btc x) @ map (\<lambda>t. btc38_market ''cny'' (fst t)) (at_cny x)"

definition bittrex_markets :: "answers \<Rightarrow> market list" where
  "bittrex_markets x = concat (map listing_market (listed x))"

definition poloniex_markets :: "answers \<Rightarrow> market list" where
  "poloniex_markets x = map (\<lambda>t. the (poloniex_market (fst t))) (at_polo x)"

definition all_markets :: "answers \<Rightarrow> market list" where
  "all_markets x = btc38_markets x @ bittrex_markets x @ poloniex_markets x"

subsection \<open>Fetching\<close>

lemma poloniex_market_split: "CHR ''_'' \<in> set s \<Longrightarrow> \<exists>m. poloniex_market s = Some m"
  by (cases "poloniex_market s") (auto simp: poloniex_market_def dropWhile_eq_Nil_conv split: list.splits)

definition fetched :: "answers \<Rightarrow> vendor list" where
  "fetched x = map (\<lambda>(v, ms). v\<lparr>current_market := ms, is_initialized := True\<rparr>)
     (zip vendors_get_all [btc38_markets x, bittrex_markets x, poloniex_markets x])"

lemma markets_fetched:
  "btc38_answers perform ts0 x \<Longrightarrow> btc38_get_markets perform True ts0 = Inr (btc38_markets x)"
  "bittrex_answers perform ts0 x \<Longrightarrow> bittrex_get_markets perform True ts0 = Inr (bittrex_markets x)"
  "poloniex_answers perform ts0 x \<Longrightarrow> poloniex_get_markets perform True ts0 = Inr (poloniex_markets x)"
proof -
  show "btc38_get_markets perform True ts0 = Inr (btc38_markets x)" if "btc38_answers perform ts0 x"
    using btc38_markets_listed [of perform "at_btc x" "at_cny x" ts0] that
    by (auto simp: btc38_answers_def btc38_markets_def list_all_iff)
  show "bittrex_get_markets perform True ts0 = Inr (bittrex_markets x)" if a: "bittrex_answers perform ts0 x"
  proof -
    obtain z where "json_int_of (listed_success x) = Inr z" "z \<noteq> 0"
      using a by (auto simp: bittrex_answers_def split: sum.splits)
    then show ?thesis
      using bittrex_markets_listed [of perform "listed_before x" "listed_success x" "listed_between x" "listed x" "listed_after x" ts0 z] a
      by (auto simp: bittrex_answers_def listings_answer_def bittrex_markets_def list_all_iff)
  qed
  show "poloniex_get_markets perform True ts0 = Inr (poloniex_markets x)" if a: "poloniex_answers perform ts0 x"
  proof -
    have "map (\<lambda>t. poloniex_market (fst t)) (at_polo x) = map Some (poloniex_markets x)"
      using a poloniex_market_split by (fastforce simp: poloniex_answers_def poloniex_markets_def list_all_iff)
    then show ?thesis
      using poloniex_markets_listed [of perform "at_polo x" ts0] a by (auto simp: poloniex_answers_def list_all_iff)
  qed
qed

lemma vendor_pointers [simp]:
  "vendors_get_all = [vendor_get ''btc38'', vendor_get ''bittrex'', vendor_get ''poloniex'']"
  "markets_get (vendor_get ''btc38'') = Some Btc38" "markets_get (vendor_get ''bittrex'') = Some Bittrex"
  "markets_get (vendor_get ''poloniex'') = Some Poloniex"
  by (simp_all add: vendors_get_all_def vendor_get_def all_functions_def Let_def)

lemma refresh_fetches:
  assumes "btc38_answers perform ts0 x" "bittrex_answers perform ts0 x" "poloniex_answers perform ts0 x"
  shows "refresh_all perform True ts0 vendors_get_all = Inr (fetched x)"
  using markets_fetched [of perform ts0 x] assms by (simp add: fetched_def vendor_refresh_def call_markets_get_def)

lemma fetched_markets: "concat (map current_market (fetched x)) = all_markets x"
  by (simp add: fetched_def vendors_get_all_def all_markets_def)

lemma fetched_initialised: "\<forall>v\<in>set (fetched x). is_initialized v"
  by (simp add: fetched_def vendors_get_all_def)

text \<open>Every market of an answer has both names and the fee of the exchanges.\<close>

lemma modules_named:
  "m \<in> set (btc38_markets x) \<Longrightarrow> named m \<and> fee m = dbl_0_7"
  "m \<in> set (bittrex_markets x) \<Longrightarrow> named m \<and> fee m = dbl_0_7"
  "list_all (\<lambda>t. CHR ''_'' \<in> set (fst t)) (at_polo x) \<Longrightarrow> m \<in> set (poloniex_markets x) \<Longrightarrow> named m \<and> fee m = dbl_0_7"
proof -
  have "named m' \<and> fee m' = dbl_0_7" if "poloniex_market s = Some m'" for s m'
    using that by (auto simp: poloniex_market_def named_def market_new_def split: list.splits)
  then have "named (the (poloniex_market s)) \<and> fee (the (poloniex_market s)) = dbl_0_7"
    if "CHR ''_'' \<in> set s" for s
    using that poloniex_market_split by fastforce
  then show "list_all (\<lambda>t. CHR ''_'' \<in> set (fst t)) (at_polo x) \<Longrightarrow> m \<in> set (poloniex_markets x) \<Longrightarrow> named m \<and> fee m = dbl_0_7"
    by (auto simp: poloniex_markets_def list_all_iff)
qed (auto simp: btc38_markets_def bittrex_markets_def btc38_market_def listing_market_def named_def Let_def
    market_new_def split: if_splits)

lemma listed_named:
  assumes "list_all (\<lambda>t. CHR ''_'' \<in> set (fst t)) (at_polo x)" "m \<in> set (all_markets x)"
  shows "named m \<and> fee m = dbl_0_7"
  using assms(2) modules_named(1,2) modules_named(3) [OF assms(1)] by (auto simp: all_markets_def)

lemma fee_sendable: "named m \<Longrightarrow> fee m = dbl_0_7 \<Longrightarrow> sendable m"
  by (simp add: sendable_def fee_ok_0_7)

subsection \<open>Sizes\<close>

lemma sum_list_distinct_le:
  fixes f :: "'a \<Rightarrow> nat"
  assumes "distinct xs" "set xs \<subseteq> set ys"
  shows "sum_list (map f xs) \<le> sum_list (map f ys)"
proof -
  have "sum_list (map f xs) = sum f (set xs)"
    using assms(1) by (simp add: sum_list_distinct_conv_sum_set)
  also have "\<dots> \<le> sum f (set ys)"
    by (rule sum_mono2) (use assms(2) in auto)
  also have "\<dots> \<le> sum_list (map f ys)"
  proof (induction ys)
    case (Cons y ys)
    then show ?case by (cases "y \<in> set ys") (simp_all add: insert_absorb)
  qed simp
  finally show ?thesis .
qed

text \<open>The size of a market on the wire depends on its key only, so leaving out repeated keys saves space.\<close>

lemma list_size_keys: "list_size ms = sum_list (map (\<lambda>k. length k + 43) (map key_of ms))"
  by (induction ms) (simp_all add: name_size_def key_of_def)

lemma list_size_le:
  "distinct (map key_of ms) \<Longrightarrow> key_of ` set ms \<subseteq> key_of ` set ns \<Longrightarrow> list_size ms \<le> list_size ns"
  unfolding list_size_keys by (rule sum_list_distinct_le) simp_all

lemma length_le_list_size: "length ms \<le> list_size ms"
  by (induction ms) simp_all

subsection \<open>From the vendors to the client\<close>

text \<open>Markets as the exchange modules make them: both names, no tilde in the base currency, the common fee.\<close>

definition plain :: "market \<Rightarrow> bool" where
  "plain m \<longleftrightarrow> named m \<and> no_tilde m \<and> fee m = dbl_0_7"

definition pair_out :: "market \<Rightarrow> string \<times> string \<times> double" where
  "pair_out m = (the (base_currency m), the (market_currency m), dbl_0_7)"

lemma pair_out_names:
  assumes "named m" "named n"
  shows "pair_out m = pair_out n \<longleftrightarrow> (base_currency m, market_currency m) = (base_currency n, market_currency n)"
  using assms by (auto simp: pair_out_def named_def)

lemma client_prints_all:
  assumes laws: "pb_laws pb" and whole: "\<forall>bs. deliver bs = Some bs"
    and vs: "\<forall>v\<in>set vs. is_initialized v \<and> (\<forall>m\<in>set (current_market v). plain m)"
    and all: "all = concat (map current_market vs)" "all \<noteq> []" "list_size all \<le> 5000"
  shows "\<exists>ps. cgi_main pb (Some fd) (\<lambda>cmd. do_connect pb vs [Some cmd]) deliver = Inr (Pairs ps) \<and>
    distinct ps \<and> set ps = pair_out ` set all"
proof -
  let ?names = "\<lambda>m. (base_currency m, market_currency m)"
  have ok: "\<forall>v\<in>set vs. is_initialized v \<and> (\<forall>m\<in>set (current_market v). named m \<and> no_tilde m)"
    using vs by (simp add: plain_def)
  have len: "length (concat (map current_market vs)) \<le> 2 ^ 30"
    using all(3) length_le_list_size [of all] unfolding all(1) by simp
  obtain ms where ms: "vendor_get_all_trading_pairs vs = Inr ms" "distinct (map key_of ms)"
      "\<forall>m\<in>set ms. \<exists>m'\<in>set all. m = pair_market m'" "distinct (map ?names ms)"
      "?names ` set ms = (\<Union>v\<in>set vs. ?names ` set (current_market v))"
    using pairs_complete [OF ok len, folded all(1)] by (elim exE conjE) (rule that)
  have plain: "plain m" if "m \<in> set all" for m
    using that vs unfolding all(1) by auto
  have fees: "named m \<and> fee m = dbl_0_7" if "m \<in> set ms" for m
    using ms(3) that plain by (auto simp: named_def plain_def)
  have names: "?names ` set ms = ?names ` set all"
    unfolding ms(5) all(1) by auto
  have send: "\<forall>m\<in>set ms. sendable m" using fees fee_sendable by blast
  have "key_of ` set ms \<subseteq> key_of ` set all" using ms(3) by fastforce
  then have "list_size ms \<le> 5000" using list_size_le [OF ms(2)] all(3) by (meson le_trans)
  moreover have "ms \<noteq> []" using names all(2) by auto
  ultimately have "cgi_main pb (Some fd) (\<lambda>cmd. do_connect pb vs [Some cmd]) deliver =
      Inr (Pairs (map (\<lambda>m. (the (base_currency m), the (market_currency m), wire_fee (fee m))) ms))"
    using send by (intro client_prints_pairs [OF laws ms(1)]) (auto simp: list_size_named sendable_def whole)
  also have "map (\<lambda>m. (the (base_currency m), the (market_currency m), wire_fee (fee m))) ms = map pair_out ms"
    using fees by (simp add: pair_out_def wire_fee_0_7)
  finally have out: "cgi_main pb (Some fd) (\<lambda>cmd. do_connect pb vs [Some cmd]) deliver = Inr (Pairs (map pair_out ms))" .
  have "inj_on pair_out (set ms)"
    using ms(4) fees pair_out_names by (auto simp: distinct_map inj_on_def)
  then have "distinct (map pair_out ms)"
    using ms(4) by (simp add: distinct_map)
  moreover have "pair_out ` set ms = (\<lambda>(b, c). (the b, the c, dbl_0_7)) ` ?names ` set ms"
    "pair_out ` set all = (\<lambda>(b, c). (the b, the c, dbl_0_7)) ` ?names ` set all"
    by (simp_all add: image_image pair_out_def)
  ultimately show ?thesis
    using out names by auto
qed

subsection \<open>Properties\<close>

text \<open>
  C4. End to end: when the three exchanges answer the market queries as documented, no base currency has a tilde
  in its name and the markets take at most the 5000 bytes of the client's buffer, then one round of the update
  threads succeeds and the CGI client prints exactly the pairs of currencies of the answers, each once, with
  the fee of the exchanges, whatever the answers hold besides, whatever the stack held, and whatever protobuf
  library keeps the laws.
\<close>

theorem exchanges_to_client:
  assumes "btc38_answers perform ts0 x" "bittrex_answers perform ts0 x" "poloniex_answers perform ts0 x"
    and "list_all no_tilde (all_markets x)" "list_size (all_markets x) \<le> 5000"
    and "pb_laws pb" "\<forall>bs. deliver bs = Some bs"
  shows "\<exists>vs ps. refresh_all perform True ts0 vendors_get_all = Inr vs \<and>
    cgi_main pb (Some fd) (\<lambda>cmd. do_connect pb vs [Some cmd]) deliver = Inr (Pairs ps) \<and>
    distinct ps \<and> set ps = pair_out ` set (all_markets x)"
proof -
  have polo: "list_all (\<lambda>t. CHR ''_'' \<in> set (fst t)) (at_polo x)"
    using assms(3) by (simp add: poloniex_answers_def)
  have "\<forall>v\<in>set (fetched x). is_initialized v \<and> (\<forall>m\<in>set (current_market v). plain m)"
  proof
    fix v assume v: "v \<in> set (fetched x)"
    then have "set (current_market v) \<subseteq> set (all_markets x)"
      unfolding fetched_markets [symmetric] by auto
    then show "is_initialized v \<and> (\<forall>m\<in>set (current_market v). plain m)"
      using v fetched_initialised listed_named [OF polo] assms(4) by (auto simp: list_all_iff plain_def)
  qed
  moreover have "all_markets x \<noteq> []"
    using assms(1) by (simp add: all_markets_def btc38_markets_def btc38_answers_def)
  ultimately show ?thesis
    using refresh_fetches [OF assms(1-3)] assms(5)
      client_prints_all [OF assms(6,7), of "fetched x" "all_markets x"] by (simp add: fetched_markets)
qed

definition ex_answers :: answers where
  "ex_answers = \<lparr>at_btc = [(''ltc'', JPrim ''1'', [])], at_cny = [(''btc'', JPrim ''2'', [])],
     listed_before = [], listed_success = ''true'', listed_between = [],
     listed = [\<lparr>gap0 = [], l_market = ''LTC'', gap1 = [], l_base = ''BTC'', gap2 = [], l_min = ''0.5'', gap3 = [],
       l_name = ''BTC-LTC'', gap4 = [], l_active = ''true'', gap5 = []\<rparr>],
     listed_after = [], at_polo = [(''BTC_LTC'', JPrim ''50'', [])]\<rparr>"

text \<open>A network that serves these answers.\<close>

definition ex_network :: curl_perform where
  "ex_network req = (True, [render
     (if req_url req = ''http://api.btc38.com/v1/ticker.php?c=all&mk_type=btc'' then tickers_answer ''ticker'' (at_btc ex_answers)
      else if req_url req = ''http://api.btc38.com/v1/ticker.php?c=all&mk_type=cny'' then tickers_answer ''ticker'' (at_cny ex_answers)
      else if req_url req = ''https://poloniex.com/public?command=returnTicker'' then tickers_answer ''id'' (at_polo ex_answers)
      else listings_answer ex_answers)])"

text \<open>Any network that agrees with it on the four addresses gives documented answers.\<close>

lemma ex_answered:
  assumes "\<And>req. req_url req \<in> {''http://api.btc38.com/v1/ticker.php?c=all&mk_type=btc'',
      ''http://api.btc38.com/v1/ticker.php?c=all&mk_type=cny'', ''https://poloniex.com/public?command=returnTicker'',
      ''https://bittrex.com/api/v1.1/public/getmarkets''} \<Longrightarrow> perform req = ex_network req"
    and "20 \<le> length ts0"
  shows "btc38_answers perform ts0 ex_answers" "bittrex_answers perform ts0 ex_answers"
    "poloniex_answers perform ts0 ex_answers"
proof -
  let ?x = ex_answers
  have sv: "serves perform ''http://api.btc38.com/v1/ticker.php?c=all&mk_type=btc'' (render (tickers_answer ''ticker'' (at_btc ?x)))"
      "serves perform ''http://api.btc38.com/v1/ticker.php?c=all&mk_type=cny'' (render (tickers_answer ''ticker'' (at_cny ?x)))"
      "serves perform ''https://poloniex.com/public?command=returnTicker'' (render (tickers_answer ''id'' (at_polo ?x)))"
      "serves perform ''https://bittrex.com/api/v1.1/public/getmarkets'' (render (listings_answer ?x))"
    using assms(1) by (simp_all add: serves_def get_request_def ex_network_def)
  have ok: "val_ok (tickers_answer ''ticker'' (at_btc ?x)) \<and> ntoks (tickers_answer ''ticker'' (at_btc ?x)) \<le> 20"
      "val_ok (tickers_answer ''ticker'' (at_cny ?x)) \<and> ntoks (tickers_answer ''ticker'' (at_cny ?x)) \<le> 20"
      "val_ok (tickers_answer ''id'' (at_polo ?x)) \<and> ntoks (tickers_answer ''id'' (at_polo ?x)) \<le> 20"
      "val_ok (listings_answer ?x) \<and> ntoks (listings_answer ?x) \<le> 20"
      "json_int_of (listed_success ?x) = Inr 1"
    by code_simp+
  have room: "n \<le> 20 \<Longrightarrow> n \<le> length ts0" for n
    using assms(2) by simp
  show "btc38_answers perform ts0 ?x"
    unfolding btc38_answers_def using sv(1,2) ok(1,2) room by (simp add: ex_answers_def ticker_ok_def)
  show "bittrex_answers perform ts0 ?x"
    unfolding bittrex_answers_def using sv(4) ok(4,5) room
    by (simp add: ex_answers_def listing_ok_def free_of_def json_int_of_def)
  show "poloniex_answers perform ts0 ?x"
    unfolding poloniex_answers_def using sv(3) ok(3) room by (simp add: ex_answers_def ticker_ok_def free_of_def)
qed

lemma ex_all_markets:
  "list_all no_tilde (all_markets ex_answers)" "list_size (all_markets ex_answers) \<le> 5000"
  "all_markets ex_answers \<noteq> []"
  "pair_out ` set (all_markets ex_answers) = {(''BTC'', ''LTC'', dbl_0_7), (''CNY'', ''BTC'', dbl_0_7)}"
proof -
  have m: "map (\<lambda>m. (base_currency m, market_currency m)) (all_markets ex_answers) =
      [(Some ''BTC'', Some ''LTC''), (Some ''CNY'', Some ''BTC''), (Some ''BTC'', Some ''LTC''), (Some ''BTC'', Some ''LTC'')]"
    by code_simp
  then show "all_markets ex_answers \<noteq> []" by auto
  show "list_all no_tilde (all_markets ex_answers)" "list_size (all_markets ex_answers) \<le> 5000" by code_simp+
  have "pair_out ` set (all_markets ex_answers) =
      (\<lambda>(b, c). (the b, the c, dbl_0_7)) ` set (map (\<lambda>m. (base_currency m, market_currency m)) (all_markets ex_answers))"
    by (simp add: image_image pair_out_def)
  then show "pair_out ` set (all_markets ex_answers) = {(''BTC'', ''LTC'', dbl_0_7), (''CNY'', ''BTC'', dbl_0_7)}"
    unfolding m by auto
qed

theorem exchanges_to_client_witness:
  "\<exists>vs ps. refresh_all ex_network True (replicate 20 stale) vendors_get_all = Inr vs \<and>
    cgi_main wire (Some 5) (\<lambda>cmd. do_connect wire vs [Some cmd]) Some = Inr (Pairs ps) \<and>
    set ps = {(''BTC'', ''LTC'', dbl_0_7), (''CNY'', ''BTC'', dbl_0_7)}"
proof -
  let ?x = ex_answers
  have a: "btc38_answers ex_network (replicate 20 stale) ?x" "bittrex_answers ex_network (replicate 20 stale) ?x"
      "poloniex_answers ex_network (replicate 20 stale) ?x"
    by (rule ex_answered; simp)+
  show ?thesis
    using exchanges_to_client [OF a ex_all_markets(1,2) wire_laws, of Some 5] ex_all_markets(4) by auto
qed

end
