(* ===== verification/VendorLoop.thy ===== *)
theory VendorLoop
  imports Book
begin

section \<open>The update thread of a vendor (\<^verbatim>\<open>vendor_update_loop\<close>, \<^verbatim>\<open>vendor_free\<close>)\<close>

text \<open>
  One thread per vendor replaces the market list every 180 seconds while the threads that serve requests read
  the list they found; \<^verbatim>\<open>vendor_free\<close> stops and joins the thread. The state machine has the market lists in a
  heap (\<open>None\<close>: freed or never allocated), a reader that holds a pointer, and one step for each statement of
  the loop. The pointer \<^verbatim>\<open>NULL\<close> is \<open>None\<close>; an empty list is the null pointer.
\<close>

subsection \<open>States and steps\<close>

text \<open>Where the thread is: at the head of the loop, after the old list was freed, before the transfer, in the
  waiting loop, at the loop condition, ended; then \<^verbatim>\<open>vendor_free\<close> after the join, or a crash of \<^verbatim>\<open>free\<close>.
  \<open>Lost\<close> is a call of \<^verbatim>\<open>markets_get\<close> that never comes back.\<close>

datatype pc = Top | Save | Fetch | Pause | Test | Done | Freed | Crash | Lost

record upd =
  pc :: pc
  heap :: "nat \<rightharpoonup> market list"
  current :: "nat option"
  to_be_deleted :: "nat option"
  initialised :: bool
  s_total :: nat
  run_flag :: bool
  held :: "nat option"
  held_for :: nat

definition market_timeout :: nat where "market_timeout = 180"

text \<open>The state when the thread starts; \<open>r\<close> is the value of \<^verbatim>\<open>running\<close>, which the build without threads
  leaves at 0.\<close>

definition upd_start :: "bool \<Rightarrow> upd" where
  "upd_start r = \<lparr>pc = Top, heap = Map.empty, current = None, to_be_deleted = None, initialised = False,
     s_total = 0, run_flag = r, held = None, held_for = 0\<rparr>"

text \<open>\<^verbatim>\<open>market_free\<close> of a list: nothing for the null pointer, a crash for a list that is not allocated.\<close>

definition free_list :: "nat option \<Rightarrow> upd \<Rightarrow> pc \<Rightarrow> upd" where
  "free_list p s next_pc =
     (case p of
        None \<Rightarrow> s\<lparr>pc := next_pc\<rparr>
      | Some a \<Rightarrow> if heap s a = None then s\<lparr>pc := Crash\<rparr>
                  else s\<lparr>heap := (heap s)(a := None), pc := next_pc\<rparr>)"

text \<open>What \<^verbatim>\<open>markets_get\<close> returned: a list at a fresh address, or the null pointer.\<close>

definition new_list :: "nat option \<Rightarrow> market list \<Rightarrow> upd \<Rightarrow> upd" where
  "new_list p ms s = (case p of None \<Rightarrow> s | Some a \<Rightarrow> s\<lparr>heap := (heap s)(a \<mapsto> ms)\<rparr>)\<lparr>current := p, initialised := True,
     s_total := 0, pc := Pause\<rparr>"

definition fresh_in :: "nat option \<Rightarrow> upd \<Rightarrow> bool" where
  "fresh_in p s \<longleftrightarrow> (\<forall>a\<in>set_option p. heap s a = None \<and> held s \<noteq> Some a)"

text \<open>The statements of the thread. The call of \<^verbatim>\<open>markets_get\<close> returns a list, or it does not return: the parser of
  poloniex can loop without end (theory PoloniexSpec), and a transfer has no time limit. A fault of a parser (theory
  Robust) ends the process, and with it the run.\<close>

inductive thread_step :: "upd \<Rightarrow> upd \<Rightarrow> bool" where
  free_old: "pc s = Top \<Longrightarrow> thread_step s (free_list (to_be_deleted s) s Save)"
| keep_old: "pc s = Save \<Longrightarrow> thread_step s (s\<lparr>to_be_deleted := current s, pc := Fetch\<rparr>)"
| fetch: "pc s = Fetch \<Longrightarrow> fresh_in p s \<Longrightarrow> thread_step s (new_list p ms s)"
| fetch_lost: "pc s = Fetch \<Longrightarrow> thread_step s (s\<lparr>pc := Lost\<rparr>)"
| tick: "pc s = Pause \<Longrightarrow> run_flag s \<Longrightarrow> s_total s < market_timeout \<Longrightarrow>
    thread_step s (s\<lparr>s_total := s_total s + 1, held_for := held_for s + 1\<rparr>)"
| leave: "pc s = Pause \<Longrightarrow> \<not> (run_flag s \<and> s_total s < market_timeout) \<Longrightarrow> thread_step s (s\<lparr>pc := Test\<rparr>)"
| again: "pc s = Test \<Longrightarrow> run_flag s \<Longrightarrow> thread_step s (s\<lparr>pc := Top\<rparr>)"
| finish: "pc s = Test \<Longrightarrow> \<not> run_flag s \<Longrightarrow> thread_step s (s\<lparr>pc := Done\<rparr>)"

text \<open>The other threads: a reader takes the pointer of an initialised vendor and lets it go; \<^verbatim>\<open>vendor_free\<close>
  clears \<^verbatim>\<open>running\<close> and, when the thread has ended, frees the current list.\<close>

inductive upd_step :: "upd \<Rightarrow> upd \<Rightarrow> bool" where
  thread: "thread_step s s' \<Longrightarrow> upd_step s s'"
| shut_down: "upd_step s (s\<lparr>run_flag := False\<rparr>)"
| free_vendor: "pc s = Done \<Longrightarrow> upd_step s (free_list (current s) s Freed)"
| acquire: "initialised s \<Longrightarrow> pc s \<noteq> Freed \<Longrightarrow> held s = None \<Longrightarrow>
    upd_step s (s\<lparr>held := current s, held_for := 0\<rparr>)"
| release: "upd_step s (s\<lparr>held := None\<rparr>)"

text \<open>\<open>fresh_in\<close> keeps a reader's pointer apart from new lists: whether the reader's list is still there is the
  question, not whether its address was used again.\<close>

inductive reachable :: "bool \<Rightarrow> upd \<Rightarrow> bool" for r where
  start: "reachable r (upd_start r)"
| move: "reachable r s \<Longrightarrow> upd_step s s' \<Longrightarrow> reachable r s'"

inductive_cases upd_stepE [elim?]: "upd_step s s'"
inductive_cases thread_stepE [elim?]: "thread_step s s'"

lemmas upd_defs = free_list_def new_list_def fresh_in_def market_timeout_def

subsection \<open>The invariant\<close>

definition reader_ok :: "upd \<Rightarrow> bool" where
  "reader_ok s \<longleftrightarrow> (\<forall>a. held s = Some a \<longrightarrow> market_timeout \<le> held_for s \<or> current s = Some a \<or>
     (to_be_deleted s = Some a \<and> pc s \<noteq> Save \<and> (pc s = Fetch \<or> pc s = Lost \<or> s_total s \<le> held_for s)))"

definition lists_ok :: "upd \<Rightarrow> bool" where
  "lists_ok s \<longleftrightarrow> dom (heap s) =
     (if pc s = Freed then {} else set_option (current s)) \<union> (if pc s = Save then {} else set_option (to_be_deleted s))"

definition apart :: "upd \<Rightarrow> bool" where
  "apart s \<longleftrightarrow> (pc s \<noteq> Fetch \<and> pc s \<noteq> Lost \<longrightarrow> current s = None \<or> current s \<noteq> to_be_deleted s) \<and>
     (pc s = Fetch \<or> pc s = Lost \<longrightarrow> to_be_deleted s = current s)"

definition waited :: "upd \<Rightarrow> bool" where
  "waited s \<longleftrightarrow> s_total s \<le> market_timeout \<and>
     (pc s = Test \<and> run_flag s \<or> pc s = Top \<and> to_be_deleted s \<noteq> None \<longrightarrow> s_total s = market_timeout)"

definition upd_inv :: "upd \<Rightarrow> bool" where
  "upd_inv s \<longleftrightarrow> pc s \<noteq> Crash \<and> lists_ok s \<and> apart s \<and> waited s \<and> (pc s = Freed \<or> reader_ok s)"

lemmas upd_inv_defs = upd_inv_def reader_ok_def lists_ok_def apart_def waited_def

lemma upd_inv_start: "upd_inv (upd_start r)"
  by (simp add: upd_inv_defs upd_start_def market_timeout_def)

lemma thread_step_inv: "thread_step s s' \<Longrightarrow> upd_inv s \<Longrightarrow> upd_inv s'"
proof (induction rule: thread_step.induct)
  case (free_old s)
  show ?case
  proof (cases "to_be_deleted s")
    case None
    then show ?thesis using free_old by (auto simp: upd_inv_defs upd_defs)
  next
    case (Some a)
    then have "heap s a \<noteq> None" using free_old by (auto simp: upd_inv_defs dom_def)
    then show ?thesis using free_old Some by (auto simp: upd_inv_defs upd_defs)
  qed
next
  case (fetch s p ms)
  have "current s \<noteq> Some a" if "p = Some a" for a
  proof
    assume "current s = Some a"
    then have "a \<in> dom (heap s)" using fetch by (simp add: upd_inv_def lists_ok_def)
    then show False using fetch that by (auto simp: fresh_in_def)
  qed
  then show ?case using fetch by (cases p) (auto simp: upd_inv_defs upd_defs)
qed (auto simp: upd_inv_defs)

lemma upd_step_inv: "upd_step s s' \<Longrightarrow> upd_inv s \<Longrightarrow> upd_inv s'"
proof (induction rule: upd_step.induct)
  case (thread s s')
  then show ?case by (rule thread_step_inv)
next
  case (free_vendor s)
  show ?case
  proof (cases "current s")
    case None
    then show ?thesis using free_vendor by (auto simp: upd_inv_defs upd_defs)
  next
    case (Some a)
    then have "heap s a \<noteq> None" using free_vendor by (auto simp: upd_inv_defs dom_def)
    then show ?thesis using free_vendor Some by (auto simp: upd_inv_defs upd_defs)
  qed
qed (auto simp: upd_inv_defs)

lemma reachable_inv: "reachable r s \<Longrightarrow> upd_inv s"
  by (induction rule: reachable.induct) (auto intro: upd_inv_start upd_step_inv)

text \<open>Runs of the thread for the examples.\<close>

lemma reachable_thread: "reachable r s \<Longrightarrow> thread_step s s' \<Longrightarrow> reachable r s'"
  by (blast intro: reachable.move upd_step.thread)

lemma reachable_ticks:
  "\<lbrakk>reachable r s; pc s = Pause; run_flag s; s_total s + n \<le> market_timeout\<rbrakk> \<Longrightarrow>
    reachable r (s\<lparr>s_total := s_total s + n, held_for := held_for s + n\<rparr>)"
proof (induction n)
  case (Suc n)
  let ?s = "s\<lparr>s_total := s_total s + n, held_for := held_for s + n\<rparr>"
  have "thread_step ?s (?s\<lparr>s_total := s_total ?s + 1, held_for := held_for ?s + 1\<rparr>)"
    by (rule thread_step.tick) (use Suc.prems in simp_all)
  moreover have "reachable r ?s" by (rule Suc.IH) (use Suc.prems in simp_all)
  ultimately have "reachable r (?s\<lparr>s_total := s_total ?s + 1, held_for := held_for ?s + 1\<rparr>)"
    by (rule reachable_thread [rotated])
  then show ?case by simp
qed simp

text \<open>A reader takes the first list just before it is replaced.\<close>

definition ex_round1 :: upd where
  "ex_round1 = \<lparr>pc = Pause, heap = [0 \<mapsto> [market_new]], current = Some 0, to_be_deleted = None, initialised = True,
     s_total = 0, run_flag = True, held = None, held_for = 0\<rparr>"

definition ex_round2 :: upd where
  "ex_round2 = \<lparr>pc = Pause, heap = [0 \<mapsto> [market_new], 1 \<mapsto> [market_new]], current = Some 1, to_be_deleted = Some 0,
     initialised = True, s_total = 0, run_flag = True, held = Some 0, held_for = 0\<rparr>"

lemma ex_round1: "reachable True ex_round1"
proof -
  have "reachable True (upd_start True)" by (rule reachable.start)
  from reachable_thread [OF this thread_step.free_old]
  have "reachable True ((upd_start True)\<lparr>pc := Save\<rparr>)" by (simp add: upd_start_def upd_defs)
  from reachable_thread [OF this thread_step.keep_old]
  have "reachable True ((upd_start True)\<lparr>pc := Fetch\<rparr>)" by (simp add: upd_start_def)
  from reachable_thread [OF this thread_step.fetch [of _ "Some 0" "[market_new]"]]
  show ?thesis by (simp add: upd_start_def upd_defs ex_round1_def)
qed

lemma ex_round2: "reachable True ex_round2"
proof -
  have "reachable True (ex_round1\<lparr>s_total := s_total ex_round1 + 180, held_for := held_for ex_round1 + 180\<rparr>)"
    by (rule reachable_ticks [OF ex_round1]) (simp_all add: ex_round1_def market_timeout_def)
  then have "reachable True (ex_round1\<lparr>s_total := 180, held_for := 180\<rparr>)" by (simp add: ex_round1_def)
  from reachable_thread [OF this thread_step.leave]
  have "reachable True (ex_round1\<lparr>s_total := 180, held_for := 180, pc := Test\<rparr>)"
    by (simp add: ex_round1_def market_timeout_def)
  from reachable_thread [OF this thread_step.again]
  have "reachable True (ex_round1\<lparr>s_total := 180, held_for := 180, pc := Top\<rparr>)" by (simp add: ex_round1_def)
  from reachable_thread [OF this thread_step.free_old]
  have "reachable True (ex_round1\<lparr>s_total := 180, held_for := 180, pc := Save\<rparr>)" by (simp add: ex_round1_def upd_defs)
  from reachable_thread [OF this thread_step.keep_old]
  have "reachable True (ex_round1\<lparr>s_total := 180, held_for := 180, pc := Fetch, to_be_deleted := Some 0\<rparr>)"
    by (simp add: ex_round1_def)
  from reachable.move [OF this upd_step.acquire]
  have "reachable True (ex_round1\<lparr>s_total := 180, held_for := 0, held := Some 0, pc := Fetch, to_be_deleted := Some 0\<rparr>)"
    by (simp add: ex_round1_def)
  from reachable_thread [OF this thread_step.fetch [of _ "Some 1" "[market_new]"]]
  show ?thesis by (simp add: ex_round1_def ex_round2_def upd_defs)
qed

subsection \<open>Properties\<close>

text \<open>
  A reader that took the market list of an initialised vendor may use it for 180 seconds: whatever the
  update thread does meanwhile, also when it replaced the list right after it was taken, the list is not freed
  before the thread has slept 180 times since, unless the vendor itself is freed.
\<close>

lemma reader_list_kept:
  assumes "reachable r s" "held s = Some a" "held_for s < market_timeout" "pc s \<noteq> Freed"
  shows "heap s a \<noteq> None"
proof -
  have "lists_ok s" "reader_ok s" using reachable_inv [OF assms(1)] assms(4) by (auto simp: upd_inv_def)
  then have "a \<in> dom (heap s)" using assms(2-4) by (auto simp: reader_ok_def lists_ok_def)
  then show ?thesis by blast
qed

text \<open>
  C34. The update thread never frees a list twice, and the lists of a vendor that are allocated are exactly those
  it has pointers to: the current list (until the vendor is freed) and the list kept for the readers (except
  between its freeing and the next assignment of the pointer). So at no time there are more than two.
\<close>

theorem update_frees_once:
  assumes "reachable r s"
  shows "pc s \<noteq> Crash \<and>
    dom (heap s) = (if pc s = Freed then {} else set_option (current s)) \<union>
      (if pc s = Save then {} else set_option (to_be_deleted s)) \<and>
    card (dom (heap s)) \<le> 2"
proof -
  have inv: "upd_inv s" by (rule reachable_inv [OF assms])
  then have dom: "dom (heap s) = (if pc s = Freed then {} else set_option (current s)) \<union>
      (if pc s = Save then {} else set_option (to_be_deleted s))" by (simp add: upd_inv_def lists_ok_def)
  let ?two = "set_option (current s) \<union> set_option (to_be_deleted s)"
  have sub: "dom (heap s) \<subseteq> ?two" unfolding dom by auto
  have "card ?two \<le> card (set_option (current s)) + card (set_option (to_be_deleted s))" by (rule card_Un_le)
  also have "\<dots> \<le> 2" by (cases "current s"; cases "to_be_deleted s"; simp)
  finally have "card (dom (heap s)) \<le> 2" using card_mono [OF _ sub] by fastforce
  then show ?thesis using inv dom by (simp add: upd_inv_def)
qed

lemma update_frees_once_witness:
  "reachable True ex_round2 \<and> dom (heap ex_round2) = {0, 1} \<and> card (dom (heap ex_round2)) \<le> 2 \<and> pc ex_round2 \<noteq> Crash"
proof -
  have "set_option (current ex_round2) \<union> set_option (to_be_deleted ex_round2) = {0, 1}" "pc ex_round2 = Pause"
    by (auto simp: ex_round2_def)
  then show ?thesis using update_frees_once [OF ex_round2] ex_round2 by simp
qed

text \<open>
  After \<^verbatim>\<open>vendor_free\<close> exactly the list the update thread kept for its readers is still allocated: when
  markets were fetched more than once, the old list is never freed.
\<close>

lemma vendor_free_leaks:
  assumes "reachable r s" "pc s = Freed"
  shows "dom (heap s) = set_option (to_be_deleted s)"
  using reachable_inv [OF assms(1)] assms(2) by (simp add: upd_inv_def lists_ok_def)

text \<open>How many steps the thread still makes after \<^verbatim>\<open>running\<close> is cleared.\<close>

fun steps_left :: "pc \<Rightarrow> nat" where
  "steps_left Top = 5"
| "steps_left Save = 4"
| "steps_left Fetch = 3"
| "steps_left Pause = 2"
| "steps_left Test = 1"
| "steps_left _ = 0"

text \<open>The size of a state is this number, so that runs of a thread that is to stop are measured by it.\<close>

instantiation upd_ext :: (type) size
begin

definition size_upd_ext :: "'a upd_ext \<Rightarrow> nat" where
  "size_upd_ext s = steps_left (pc s)"

instance ..

end

lemma size_upd: "size (s :: upd) = steps_left (pc s)"
  by (simp add: size_upd_ext_def)

lemma step_nearer:
  assumes "upd_inv s" "\<not> run_flag s" "thread_step s s'"
  shows "size s' < size s \<and> \<not> run_flag s' \<and> pc s' \<noteq> Freed"
proof -
  have "heap s a \<noteq> None" if "pc s = Top" "to_be_deleted s = Some a" for a
    using assms(1) that by (auto simp: upd_inv_def lists_ok_def)
  then show ?thesis using assms by (auto elim!: thread_stepE simp: size_upd upd_defs split: option.splits)
qed

lemma steps_bounded:
  "(thread_step ^^ n) s s' \<Longrightarrow> upd_inv s \<Longrightarrow> \<not> run_flag s \<Longrightarrow> n + size s' \<le> size s"
proof (induction n arbitrary: s)
  case (Suc n)
  obtain t where t: "thread_step s t" "(thread_step ^^ n) t s'" using relpowp_Suc_D2 [OF Suc.prems(1)] by blast
  note nearer = step_nearer [OF Suc.prems(2,3) t(1)]
  have "n + size s' \<le> size t"
    by (rule Suc.IH [OF t(2) thread_step_inv [OF t(1) Suc.prems(2)]]) (use nearer in blast)
  then show ?case using nearer by linarith
qed simp

text \<open>Where a thread that is to stop can no longer move: at its end, or in a call that does not return.\<close>

lemma stuck_ended:
  assumes "upd_inv s" "\<not> run_flag s" "pc s \<noteq> Freed"
  shows "(\<exists>t. thread_step s t) \<longleftrightarrow> pc s \<noteq> Done \<and> pc s \<noteq> Lost"
proof (cases "pc s")
  case Top
  then show ?thesis using thread_step.free_old by auto
next
  case Save
  then show ?thesis using thread_step.keep_old by auto
next
  case Fetch
  then show ?thesis using thread_step.fetch_lost by auto
next
  case Pause
  then show ?thesis using thread_step.leave assms(2) by auto
next
  case Test
  then show ?thesis using thread_step.finish assms(2) by auto
qed (use assms in \<open>auto elim!: thread_stepE simp: upd_inv_def\<close>)

lemma steps_alive:
  "(thread_step ^^ n) s s' \<Longrightarrow> upd_inv s \<Longrightarrow> \<not> run_flag s \<Longrightarrow> pc s \<noteq> Freed \<Longrightarrow>
    upd_inv s' \<and> \<not> run_flag s' \<and> pc s' \<noteq> Freed"
proof (induction n arbitrary: s)
  case (Suc n)
  obtain t where t: "thread_step s t" "(thread_step ^^ n) t s'" using relpowp_Suc_D2 [OF Suc.prems(1)] by blast
  show ?case
    by (rule Suc.IH [OF t(2) thread_step_inv [OF t(1) Suc.prems(2)]])
      (use step_nearer [OF Suc.prems(2,3) t(1)] in auto)
qed simp

text \<open>The way to the end allocates nothing: the last transfer returns, it may yield no markets.\<close>

definition quiet_step :: "upd \<Rightarrow> upd \<Rightarrow> bool" where
  "quiet_step s s' \<longleftrightarrow> thread_step s s' \<and> pc s' \<noteq> Lost \<and> (\<forall>a. heap s a = None \<longrightarrow> heap s' a = None)"

lemma quiet_fetch: "pc s = Fetch \<Longrightarrow> quiet_step s (new_list None [] s)"
  using thread_step.fetch [of s None "[]"] by (simp add: quiet_step_def fresh_in_def new_list_def)

lemma quiet_free: "pc s = Top \<Longrightarrow> quiet_step s (free_list (to_be_deleted s) s Save)"
  using thread_step.free_old [of s] by (auto simp: quiet_step_def free_list_def split: option.split)

lemma quiet_other:
  "pc s = Save \<Longrightarrow> quiet_step s (s\<lparr>to_be_deleted := current s, pc := Fetch\<rparr>)"
  "pc s = Pause \<Longrightarrow> \<not> run_flag s \<Longrightarrow> quiet_step s (s\<lparr>pc := Test\<rparr>)"
  "pc s = Test \<Longrightarrow> \<not> run_flag s \<Longrightarrow> quiet_step s (s\<lparr>pc := Done\<rparr>)"
  using thread_step.keep_old [of s] thread_step.leave [of s] thread_step.finish [of s]
  by (simp_all add: quiet_step_def)

lemma quiet_next:
  assumes "upd_inv s" "\<not> run_flag s" "pc s \<noteq> Freed" "pc s \<noteq> Done" "pc s \<noteq> Lost"
  shows "\<exists>t. quiet_step s t"
proof (cases "pc s")
  case Top
  then show ?thesis using quiet_free by blast
next
  case Fetch
  then show ?thesis using quiet_fetch by blast
qed (use assms quiet_other [of s] in \<open>auto simp: upd_inv_def\<close>)

lemma quiet_end:
  "upd_inv s \<Longrightarrow> \<not> run_flag s \<Longrightarrow> pc s \<noteq> Freed \<Longrightarrow> pc s \<noteq> Lost \<Longrightarrow> \<exists>n s'. (quiet_step ^^ n) s s' \<and> pc s' = Done"
proof (induction s rule: measure_induct_rule [of size])
  case (less s)
  show ?case
  proof (cases "pc s = Done")
    case True
    then show ?thesis by (intro exI [of _ 0] exI [of _ s]) simp
  next
    case False
    obtain t where q: "quiet_step s t"
      using quiet_next less.prems False by blast
    then have t: "thread_step s t" "pc t \<noteq> Lost" by (simp_all add: quiet_step_def)
    note nearer = step_nearer [OF less.prems(1,2) t(1)]
    obtain n s' where "(quiet_step ^^ n) t s'" "pc s' = Done"
      using less.IH [of t] nearer thread_step_inv [OF t(1) less.prems(1)] t(2) by blast
    then have "(quiet_step ^^ Suc n) s s'" using q by (blast intro: relpowp_Suc_I2)
    then show ?thesis using \<open>pc s' = Done\<close> by blast
  qed
qed

lemma reaches_end:
  assumes "upd_inv s" "\<not> run_flag s" "pc s \<noteq> Freed" "pc s \<noteq> Lost"
  shows "\<exists>n s'. (thread_step ^^ n) s s' \<and> pc s' = Done"
proof -
  obtain n s' where "(quiet_step ^^ n) s s'" "pc s' = Done"
    using quiet_end [OF assms] by blast
  moreover have "(quiet_step ^^ n) s s' \<Longrightarrow> (thread_step ^^ n) s s'"
    by (rule relpowp_mono [of quiet_step]) (simp_all add: quiet_step_def)
  ultimately show ?thesis by blast
qed

text \<open>A thread in a call that does not return makes no step.\<close>

lemma lost_stays: "(thread_step ^^ n) s s' \<Longrightarrow> pc s = Lost \<Longrightarrow> s' = s"
proof (cases n)
  case (Suc m)
  assume "(thread_step ^^ n) s s'" "pc s = Lost"
  then obtain t where "thread_step s t" using relpowp_Suc_D2 [of m thread_step s s'] Suc by blast
  then show ?thesis using \<open>pc s = Lost\<close> by (auto elim!: thread_stepE)
qed simp

text \<open>
  C20. Once \<^verbatim>\<open>running\<close> is cleared, every run of the thread is over after at most five steps, none of which sleeps:
  it has ended, so that the join of \<^verbatim>\<open>vendor_free\<close> returns, or it is in a call of \<^verbatim>\<open>markets_get\<close> that does not
  return. The thread can still end unless it already is in such a call; then it never ends and neither does the join.
\<close>

theorem update_thread_ends:
  assumes "reachable r s" "\<not> run_flag s" "pc s \<noteq> Freed"
  shows "(\<forall>n s'. (thread_step ^^ n) s s' \<longrightarrow> n \<le> 5 \<and> ((\<exists>t. thread_step s' t) \<or> pc s' = Done \<or> pc s' = Lost)) \<and>
    ((\<exists>n s'. (thread_step ^^ n) s s' \<and> pc s' = Done) \<longleftrightarrow> pc s \<noteq> Lost)"
proof (intro conjI allI impI)
  have inv: "upd_inv s" by (rule reachable_inv [OF assms(1)])
  fix n s' assume run: "(thread_step ^^ n) s s'"
  have "size s \<le> 5" by (cases "pc s") (simp_all add: size_upd)
  then show "n \<le> 5" using steps_bounded [OF run inv assms(2)] by simp
  show "(\<exists>t. thread_step s' t) \<or> pc s' = Done \<or> pc s' = Lost"
    using stuck_ended [of s'] steps_alive [OF run inv assms(2,3)] by blast
next
  have inv: "upd_inv s" by (rule reachable_inv [OF assms(1)])
  show "(\<exists>n s'. (thread_step ^^ n) s s' \<and> pc s' = Done) \<longleftrightarrow> pc s \<noteq> Lost"
    using reaches_end [OF inv assms(2,3)] lost_stays by fastforce
qed

lemma update_thread_ends_witness:
  "reachable True (ex_round2\<lparr>run_flag := False\<rparr>) \<and> (\<exists>n s'. (thread_step ^^ n) (ex_round2\<lparr>run_flag := False\<rparr>) s' \<and> pc s' = Done)"
proof -
  from reachable.move [OF ex_round2 upd_step.shut_down]
  have r: "reachable True (ex_round2\<lparr>run_flag := False\<rparr>)" by simp
  with update_thread_ends [OF r] show ?thesis by (simp add: ex_round2_def)
qed

end
