(* ===== verification/Server.thy ===== *)
theory Server
  imports Bridge VendorLoop
begin

section \<open>The running server (\<^verbatim>\<open>main/main.c\<close> with the threads of \<^verbatim>\<open>book/vendor.c\<close>)\<close>

text \<open>
  The threads of the process together: the main thread in its accept loop and its shut-down, one thread for
  each connection, and the update thread of each vendor (the machine of theory VendorLoop, one per vendor).
  A connection thread takes one chunk, one vendor or one market per step, so that the updates of the vendors
  and the shut-down come in between. The vendor list of the process is the list of its update machines; a
  vendor whose machine is at \<open>Freed\<close> has been released together with its list node. A vendor's thread may publish
  any list, also one the modules of the exchanges never make; theory Serving restricts the lists.
\<close>

subsection \<open>A connection thread\<close>

text \<open>Where a connection thread is: in the read loop, with the whole request, before the vendor of an index
  (or behind the last), in the market list at an address with the markets still to come, at its end, or in
  undefined behaviour.\<close>

datatype conn =
    Reading "block \<times> nat"
  | Asked block
  | NextVendor nat
  | Walking nat nat "market list"
  | Answered reply
  | Broken fault

text \<open>Beside the table and the keys of \<^verbatim>\<open>vendor_get_all_trading_pairs\<close> a thread records what it read from its
  socket, the market lists it took, and for how many seconds of their vendor it holds the last one.\<close>

record conn_thread =
  th_at :: conn
  th_table :: "market kh"
  th_keys :: "string list"
  th_age :: nat
  th_reads :: "string option list"
  th_seen :: "market list list"

definition conn_start :: conn_thread where
  "conn_start = \<lparr>th_at = Reading ([], 0), th_table = kh_init, th_keys = [], th_age = 0, th_reads = [],
     th_seen = []\<rparr>"

text \<open>One pass of the read loop of \<^verbatim>\<open>do_connect\<close>.\<close>

definition conn_read :: "block \<times> nat \<Rightarrow> string option \<Rightarrow> conn" where
  "conn_read buf r =
     (case r of
        None \<Rightarrow> Broken OutOfBounds
      | Some incoming \<Rightarrow>
          let buf = buffer_append buf incoming in
          if snd buf > 65535 then Asked (fst buf)
          else if length incoming = 255 then Reading buf else Asked (fst buf))"

text \<open>The decision on the request.\<close>

definition conn_decide :: "block \<Rightarrow> conn" where
  "conn_decide buffer =
     (case strn_eq buffer ''EXIT'' 4 of
        Inl f \<Rightarrow> Broken f
      | Inr ex \<Rightarrow>
          if ex then Answered ShutDown
          else case getCommand buffer of
                 Inl f \<Rightarrow> Broken f
               | Inr known \<Rightarrow> if known then NextVendor 0 else Answered Silent)"

text \<open>The vendor of the index: while it is not initialised the thread sleeps; then its list is taken.\<close>

definition conn_vendor :: "nat \<Rightarrow> upd \<Rightarrow> conn_thread \<Rightarrow> conn_thread" where
  "conn_vendor k v th =
     (if pc v = Freed then th\<lparr>th_at := Broken BadPointer\<rparr>
      else if \<not> initialised v then th
      else case current v of
             None \<Rightarrow> th\<lparr>th_at := NextVendor (k + 1), th_seen := th_seen th @ [[]]\<rparr>
           | Some a \<Rightarrow>
               (case heap v a of
                  None \<Rightarrow> th\<lparr>th_at := Broken BadPointer\<rparr>
                | Some ms \<Rightarrow> th\<lparr>th_at := Walking k a ms, th_age := 0, th_seen := th_seen th @ [ms]\<rparr>))"

text \<open>One market of the list, or the end of the list: then the next list node is read.\<close>

definition conn_walk :: "nat \<Rightarrow> nat \<Rightarrow> market list \<Rightarrow> upd \<Rightarrow> conn_thread \<Rightarrow> conn_thread" where
  "conn_walk k a ms v th =
     (case ms of
        [] \<Rightarrow> if pc v = Freed then th\<lparr>th_at := Broken BadPointer\<rparr> else th\<lparr>th_at := NextVendor (k + 1)\<rparr>
      | m # rest \<Rightarrow>
          if heap v a = None then th\<lparr>th_at := Broken BadPointer\<rparr>
          else case pairs_of_markets (th_table th) (th_keys th) [m] of
                 Inl f \<Rightarrow> th\<lparr>th_at := Broken f\<rparr>
               | Inr (t, ks) \<Rightarrow> th\<lparr>th_at := Walking k a rest, th_table := t, th_keys := ks\<rparr>)"

text \<open>Behind the last vendor: the list is built, encoded and written.\<close>

definition reply_of_pairs :: "protobuf \<Rightarrow> market list \<Rightarrow> reply cres" where
  "reply_of_pairs pb ms =
     (if ms = [] then Inr NoResults
      else cbind (market_list_protobuf_encode_size ms) (\<lambda>len.
           cbind (market_list_protobuf_encode pb ms len) (\<lambda>(ok, bs).
             Inr (if bs = [] then NoResults else Answer bs))))"

definition conn_answer :: "protobuf \<Rightarrow> market kh \<Rightarrow> conn" where
  "conn_answer pb t =
     (case cbind (kh_all_values t) (reply_of_pairs pb) of Inl f \<Rightarrow> Broken f | Inr r \<Rightarrow> Answered r)"

subsection \<open>The process\<close>

text \<open>The main thread: at the loop condition, in \<^verbatim>\<open>accept\<close>, before or in \<^verbatim>\<open>vendor_free\<close> of a vendor, returned, or
  stopped by \<^verbatim>\<open>error\<close>. \<open>sv_published\<close> records the lists each update thread has published.\<close>

datatype main_pc = Loop | Accept | Freeing nat | Joining nat | Returned | Stopped

record server =
  sv_run :: bool
  sv_main :: main_pc
  sv_vendors :: "upd list"
  sv_conns :: "nat \<rightharpoonup> conn_thread"
  sv_published :: "nat \<Rightarrow> market list list"

text \<open>\<^verbatim>\<open>main_init\<close>: the vendors with their update threads started.\<close>

definition main_init :: server where
  "main_init = \<lparr>sv_run = True, sv_main = Loop, sv_vendors = map (\<lambda>v. upd_start (running v)) vendors_get_all,
     sv_conns = Map.empty, sv_published = (\<lambda>k. [])\<rparr>"

text \<open>The handler of SIGTERM.\<close>

definition terminate :: "server \<Rightarrow> server" where
  "terminate s = s\<lparr>sv_run := False\<rparr>"

definition set_conn :: "nat \<Rightarrow> conn_thread \<Rightarrow> server \<Rightarrow> server" where
  "set_conn fd th s = s\<lparr>sv_conns := (sv_conns s)(fd \<mapsto> th)\<rparr>"

definition set_vendor :: "nat \<Rightarrow> upd \<Rightarrow> server \<Rightarrow> server" where
  "set_vendor k v s = s\<lparr>sv_vendors := (sv_vendors s)[k := v]\<rparr>"

text \<open>The list behind the pointer \<^verbatim>\<open>current_market\<close>.\<close>

definition published_list :: "upd \<Rightarrow> market list" where
  "published_list v = (case current v of None \<Rightarrow> [] | Some a \<Rightarrow> (case heap v a of None \<Rightarrow> [] | Some ms \<Rightarrow> ms))"

text \<open>The address of a list a thread holds of the vendor with an index.\<close>

definition holds :: "nat \<Rightarrow> conn_thread option \<Rightarrow> nat option" where
  "holds k th =
     (case th of
        None \<Rightarrow> None
      | Some t \<Rightarrow> (case th_at t of Walking k' a ms \<Rightarrow> if k' = k then Some a else None | _ \<Rightarrow> None))"

text \<open>A second of the vendor's thread makes the threads that walk its list one second older.\<close>

definition aged :: "nat \<Rightarrow> upd \<Rightarrow> upd \<Rightarrow> conn_thread \<Rightarrow> conn_thread" where
  "aged k v v' th =
     (if s_total v < s_total v' \<and> holds k (Some th) \<noteq> None then th\<lparr>th_age := th_age th + 1\<rparr> else th)"

text \<open>A step of the update thread of vendor \<open>k\<close>.\<close>

definition vendor_moves :: "nat \<Rightarrow> upd \<Rightarrow> server \<Rightarrow> server" where
  "vendor_moves k v' s =
     (let v = sv_vendors s ! k in
      (set_vendor k v' s)\<lparr>sv_conns := map_option (aged k v v') \<circ> sv_conns s,
        sv_published := (if pc v = Fetch \<and> pc v' \<noteq> Lost then (sv_published s)(k := sv_published s k @ [published_list v'])
                         else sv_published s)\<rparr>)"

text \<open>A new list does not get the address of a list that a thread still holds: as in VendorLoop, whether the
  list is still there is the question, not whether its address was used again.\<close>

definition keeps_apart :: "nat \<Rightarrow> upd \<Rightarrow> upd \<Rightarrow> server \<Rightarrow> bool" where
  "keeps_apart k v v' s \<longleftrightarrow> (\<forall>fd a. holds k (sv_conns s fd) = Some a \<longrightarrow> heap v a = None \<longrightarrow> heap v' a = None)"

inductive server_step :: "protobuf \<Rightarrow> server \<Rightarrow> server \<Rightarrow> bool" for pb where
  signal: "server_step pb s (terminate s)"
| loop_on: "sv_main s = Loop \<Longrightarrow> sv_run s \<Longrightarrow> server_step pb s (s\<lparr>sv_main := Accept\<rparr>)"
| loop_off: "sv_main s = Loop \<Longrightarrow> \<not> sv_run s \<Longrightarrow> server_step pb s (s\<lparr>sv_main := Freeing 0\<rparr>)"
| accept_late: "sv_main s = Accept \<Longrightarrow> \<not> sv_run s \<Longrightarrow> server_step pb s (s\<lparr>sv_main := Loop\<rparr>)"
| accept_conn: "sv_main s = Accept \<Longrightarrow> sv_run s \<Longrightarrow> sv_conns s fd = None \<Longrightarrow>
    server_step pb s (set_conn fd conn_start s\<lparr>sv_main := Loop\<rparr>)"
| accept_no_thread: "sv_main s = Accept \<Longrightarrow> sv_run s \<Longrightarrow>
    server_step pb s (s\<lparr>sv_main := Loop, sv_run := False\<rparr>)"
| accept_fails: "sv_main s = Accept \<Longrightarrow> sv_run s \<Longrightarrow> server_step pb s (s\<lparr>sv_main := Stopped\<rparr>)"
| stop_vendor: "sv_main s = Freeing k \<Longrightarrow> k < length (sv_vendors s) \<Longrightarrow>
    server_step pb s (set_vendor k ((sv_vendors s ! k)\<lparr>run_flag := False\<rparr>) s\<lparr>sv_main := Joining k\<rparr>)"
| free_vendor: "sv_main s = Joining k \<Longrightarrow> pc (sv_vendors s ! k) = Done \<Longrightarrow>
    server_step pb s (set_vendor k (free_list (current (sv_vendors s ! k)) (sv_vendors s ! k) Freed) s
      \<lparr>sv_main := Freeing (k + 1)\<rparr>)"
| main_end: "sv_main s = Freeing k \<Longrightarrow> k = length (sv_vendors s) \<Longrightarrow> server_step pb s (s\<lparr>sv_main := Returned\<rparr>)"
| vendor: "k < length (sv_vendors s) \<Longrightarrow> thread_step (sv_vendors s ! k) v' \<Longrightarrow>
    keeps_apart k (sv_vendors s ! k) v' s \<Longrightarrow> sv_main s \<notin> {Returned, Stopped} \<Longrightarrow>
    server_step pb s (vendor_moves k v' s)"
| conn_reads: "sv_conns s fd = Some th \<Longrightarrow> th_at th = Reading buf \<Longrightarrow> sv_main s \<notin> {Returned, Stopped} \<Longrightarrow>
    server_step pb s (set_conn fd (th\<lparr>th_at := conn_read buf r, th_reads := th_reads th @ [r]\<rparr>) s)"
| conn_decides: "sv_conns s fd = Some th \<Longrightarrow> th_at th = Asked b \<Longrightarrow> sv_main s \<notin> {Returned, Stopped} \<Longrightarrow>
    server_step pb s (set_conn fd (th\<lparr>th_at := conn_decide b\<rparr>) s
      \<lparr>sv_run := sv_run s \<and> conn_decide b \<noteq> Answered ShutDown\<rparr>)"
| conn_takes: "sv_conns s fd = Some th \<Longrightarrow> th_at th = NextVendor k \<Longrightarrow> k < length (sv_vendors s) \<Longrightarrow>
    sv_main s \<notin> {Returned, Stopped} \<Longrightarrow> server_step pb s (set_conn fd (conn_vendor k (sv_vendors s ! k) th) s)"
| conn_walks: "sv_conns s fd = Some th \<Longrightarrow> th_at th = Walking k a ms \<Longrightarrow> sv_main s \<notin> {Returned, Stopped} \<Longrightarrow>
    server_step pb s (set_conn fd (conn_walk k a ms (sv_vendors s ! k) th) s)"
| conn_answers: "sv_conns s fd = Some th \<Longrightarrow> th_at th = NextVendor k \<Longrightarrow> k = length (sv_vendors s) \<Longrightarrow>
    sv_main s \<notin> {Returned, Stopped} \<Longrightarrow>
    server_step pb s (set_conn fd (th\<lparr>th_at := conn_answer pb (th_table th)\<rparr>) s)"

inductive_cases server_stepE [elim?]: "server_step pb s s'"

text \<open>The states of a run that starts after \<^verbatim>\<open>main_init\<close>.\<close>

definition server_reaches :: "protobuf \<Rightarrow> server \<Rightarrow> bool" where
  "server_reaches pb s \<longleftrightarrow> (server_step pb)\<^sup>*\<^sup>* main_init s"

lemma server_reaches_induct [consumes 1, case_names start step]:
  assumes "server_reaches pb s" "P main_init"
    "\<And>s s'. server_reaches pb s \<Longrightarrow> P s \<Longrightarrow> server_step pb s s' \<Longrightarrow> P s'"
  shows "P s"
  using assms(1) unfolding server_reaches_def
  by (induction rule: rtranclp_induct) (auto intro: assms(2,3) simp: server_reaches_def)

lemma server_reaches_start: "server_reaches pb main_init"
  by (simp add: server_reaches_def)

lemma server_reaches_step: "server_reaches pb s \<Longrightarrow> server_step pb s s' \<Longrightarrow> server_reaches pb s'"
  unfolding server_reaches_def by (rule rtranclp.rtrancl_into_rtrancl)

end
