(* ===== verification/ServerInv.thy ===== *)
theory ServerInv
  imports Server
begin

section \<open>Invariants of the running server\<close>

text \<open>
  What holds in every state the server can reach: each connection thread is a reader the invariant of
  VendorLoop covers, the vendors are freed in their order and only by the main thread, every list a thread took
  was published by that vendor, and what a thread has computed is what the sequential code computes on the
  lists it took.
\<close>

subsection \<open>The market lists and their readers\<close>

text \<open>
  Each connection thread is the reader of the machine of VendorLoop: seen with the list the thread holds, the
  machine of every vendor satisfies the invariant proved there.
\<close>

definition reader_view :: "nat \<Rightarrow> conn_thread option \<Rightarrow> upd \<Rightarrow> upd" where
  "reader_view k th v = v\<lparr>held := holds k th, held_for := (case th of None \<Rightarrow> 0 | Some t \<Rightarrow> th_age t)\<rparr>"

definition views_ok :: "server \<Rightarrow> bool" where
  "views_ok s \<longleftrightarrow> (\<forall>k<length (sv_vendors s). \<forall>fd. upd_inv (reader_view k (sv_conns s fd) (sv_vendors s ! k)))"

lemma holds_aged [simp]: "holds k (map_option (aged j v v') th) = holds k th"
  by (cases th) (simp_all add: holds_def aged_def)

text \<open>A thread may let its list go, keep it, or take the current one.\<close>

lemma view_change:
  assumes "upd_inv (reader_view k th v)"
    "holds k th' = None \<or> holds k th' = current v \<or>
      holds k th' = holds k th \<and> map_option th_age th' = map_option th_age th"
  shows "upd_inv (reader_view k th' v)"
proof -
  have base: "pc v \<noteq> Crash" "lists_ok v" "apart v" "waited v" "pc v = Freed \<or> reader_ok (reader_view k th v)"
    using assms(1) by (auto simp: upd_inv_defs reader_view_def)
  have "pc v = Freed \<or> reader_ok (reader_view k th' v)"
    using assms(2)
  proof (elim disjE)
    assume same: "holds k th' = holds k th \<and> map_option th_age th' = map_option th_age th"
    then have "reader_view k th' v = reader_view k th v"
      by (cases th; cases th') (simp_all add: reader_view_def)
    then show ?thesis using base(5) by simp
  qed (auto simp: reader_ok_def reader_view_def)
  then show ?thesis
    using base by (auto simp: upd_inv_defs reader_view_def)
qed

text \<open>A statement of the update thread is one of the machine with the reader.\<close>

lemma thread_step_view:
  assumes "thread_step v v'" "\<And>a. h = Some a \<Longrightarrow> heap v a = None \<Longrightarrow> heap v' a = None"
  shows "thread_step (v\<lparr>held := h, held_for := n\<rparr>)
    (v'\<lparr>held := h, held_for := if s_total v < s_total v' then n + 1 else n\<rparr>)"
  using assms
proof (induction rule: thread_step.induct)
  case (free_old s)
  have "free_list (to_be_deleted s) (s\<lparr>held := h, held_for := n\<rparr>) Save =
      (free_list (to_be_deleted s) s Save)\<lparr>held := h, held_for := n\<rparr>"
    "s_total (free_list (to_be_deleted s) s Save) = s_total s"
    by (simp_all add: free_list_def split: option.split)
  then show ?case
    using thread_step.free_old [of "s\<lparr>held := h, held_for := n\<rparr>"] free_old.hyps by simp
next
  case (keep_old s)
  then show ?case
    using thread_step.keep_old [of "s\<lparr>held := h, held_for := n\<rparr>"] by (cases s) simp
next
  case (fetch s p ms)
  have "h \<noteq> Some a" if "p = Some a" for a
    using fetch.prems(1) [of a] fetch.hyps that by (auto simp: new_list_def fresh_in_def)
  then have "fresh_in p (s\<lparr>held := h, held_for := n\<rparr>)"
    using fetch.hyps by (auto simp: fresh_in_def)
  moreover have "new_list p ms (s\<lparr>held := h, held_for := n\<rparr>) = (new_list p ms s)\<lparr>held := h, held_for := n\<rparr>"
    "s_total (new_list p ms s) = 0"
    by (simp_all add: new_list_def split: option.split)
  ultimately show ?case
    using thread_step.fetch [of "s\<lparr>held := h, held_for := n\<rparr>" p ms] fetch.hyps by simp
next
  case (fetch_lost s)
  then show ?case
    using thread_step.fetch_lost [of "s\<lparr>held := h, held_for := n\<rparr>"] by (cases s) simp
next
  case (tick s)
  then show ?case
    using thread_step.tick [of "s\<lparr>held := h, held_for := n\<rparr>"] by (cases s) simp
next
  case (leave s)
  then show ?case
    using thread_step.leave [of "s\<lparr>held := h, held_for := n\<rparr>"] by (cases s) simp
next
  case (again s)
  then show ?case
    using thread_step.again [of "s\<lparr>held := h, held_for := n\<rparr>"] by (cases s) simp
next
  case (finish s)
  then show ?case
    using thread_step.finish [of "s\<lparr>held := h, held_for := n\<rparr>"] by (cases s) simp
qed

lemma thread_step_reader:
  assumes "upd_inv (reader_view k th v)" "thread_step v v'"
    "\<And>a. holds k th = Some a \<Longrightarrow> heap v a = None \<Longrightarrow> heap v' a = None"
  shows "upd_inv (reader_view k (map_option (aged k v v') th) v')"
proof -
  let ?n = "case th of None \<Rightarrow> 0 | Some t \<Rightarrow> th_age t"
  let ?w = "v'\<lparr>held := holds k th, held_for := if s_total v < s_total v' then ?n + 1 else ?n\<rparr>"
  have "thread_step (reader_view k th v) ?w"
    unfolding reader_view_def by (rule thread_step_view [OF assms(2,3)])
  then have w: "upd_inv ?w"
    using assms(1) by (rule thread_step_inv)
  show ?thesis
  proof (cases "holds k th")
    case None
    then show ?thesis
      using w by (auto simp: upd_inv_defs reader_view_def)
  next
    case (Some a)
    then obtain t where "th = Some t" by (cases th) (simp_all add: holds_def)
    then have "reader_view k (map_option (aged k v v') th) v' = ?w"
      using Some by (simp add: reader_view_def aged_def) (simp add: holds_def)
    then show ?thesis using w by simp
  qed
qed

lemma upd_inv_free_list:
  "upd_inv (reader_view k th v) \<Longrightarrow> pc v = Done \<Longrightarrow>
    upd_inv (reader_view k th (free_list (current v) v Freed))"
proof -
  assume a: "upd_inv (reader_view k th v)" "pc v = Done"
  have "free_list (current v) (reader_view k th v) Freed = reader_view k th (free_list (current v) v Freed)"
    by (simp add: free_list_def reader_view_def split: option.split)
  moreover have "upd_step (reader_view k th v) (free_list (current v) (reader_view k th v) Freed)"
    using upd_step.free_vendor [of "reader_view k th v"] a(2) by (simp add: reader_view_def)
  ultimately show ?thesis
    using upd_step_inv a(1) by metis
qed

lemma upd_inv_stop:
  "upd_inv (reader_view k th v) \<Longrightarrow> upd_inv (reader_view k th (v\<lparr>run_flag := False\<rparr>))"
  using upd_step_inv [OF upd_step.shut_down, of "reader_view k th v"]
  by (auto simp: reader_view_def upd_inv_defs)

lemma views_ok_vendor:
  assumes "views_ok s" "\<And>fd. k < length (sv_vendors s) \<Longrightarrow> upd_inv (reader_view k (sv_conns s fd) v)"
  shows "views_ok (set_vendor k v s)"
  unfolding views_ok_def
proof (intro allI impI)
  fix j fd assume "j < length (sv_vendors (set_vendor k v s))"
  then show "upd_inv (reader_view j (sv_conns (set_vendor k v s) fd) (sv_vendors (set_vendor k v s) ! j))"
    using assms by (cases "j = k") (simp_all add: views_ok_def set_vendor_def)
qed

lemma views_ok_conn:
  assumes "views_ok s" "\<And>k. k < length (sv_vendors s) \<Longrightarrow> holds k (Some th) = None \<or>
    holds k (Some th) = current (sv_vendors s ! k) \<or>
    holds k (Some th) = holds k (sv_conns s fd) \<and> Some (th_age th) = map_option th_age (sv_conns s fd)"
  shows "views_ok (set_conn fd th s)"
  unfolding views_ok_def
proof (intro allI impI)
  fix k g assume k: "k < length (sv_vendors (set_conn fd th s))"
  have old: "upd_inv (reader_view k (sv_conns s g) (sv_vendors s ! k))" for g
    using assms(1) k by (simp add: views_ok_def set_conn_def)
  have "upd_inv (reader_view k (Some th) (sv_vendors s ! k))"
    by (rule view_change [OF old [of fd]]) (use assms(2) [of k] k in \<open>auto simp: set_conn_def\<close>)
  then show "upd_inv (reader_view k (sv_conns (set_conn fd th s) g) (sv_vendors (set_conn fd th s) ! k))"
    using old [of g] by (simp add: set_conn_def)
qed

lemma views_ok_main [simp]:
  "views_ok (s\<lparr>sv_main := m\<rparr>) = views_ok s" "views_ok (s\<lparr>sv_run := b\<rparr>) = views_ok s"
  "views_ok (s\<lparr>sv_main := m, sv_run := b\<rparr>) = views_ok s" "views_ok (terminate s) = views_ok s"
  by (simp_all add: views_ok_def terminate_def)

lemma conn_decide_holds [simp]: "holds k (Some (th\<lparr>th_at := conn_decide b\<rparr>)) = None"
  by (auto simp: holds_def conn_decide_def split: sum.split)

lemma conn_read_holds [simp]: "holds k (Some (th\<lparr>th_at := conn_read buf r, th_reads := rs\<rparr>)) = None"
  by (auto simp: holds_def conn_read_def Let_def split: option.split)

lemma conn_answer_holds [simp]: "holds k (Some (th\<lparr>th_at := conn_answer pb t\<rparr>)) = None"
  by (auto simp: holds_def conn_answer_def split: sum.split)

lemma conn_vendor_holds:
  "th_at th = NextVendor k \<Longrightarrow>
    holds j (Some (conn_vendor k v th)) = None \<or> j = k \<and> holds j (Some (conn_vendor k v th)) = current v"
  by (auto simp: holds_def conn_vendor_def split: option.split)

lemma conn_walk_holds:
  "th_at th = Walking k a ms \<Longrightarrow> holds j (Some (conn_walk k a ms v th)) = None \<or>
    holds j (Some (conn_walk k a ms v th)) = holds j (Some th) \<and> th_age (conn_walk k a ms v th) = th_age th"
  by (auto simp: holds_def conn_walk_def split: list.split sum.split)

lemma views_ok_moves:
  assumes "views_ok s" "k < length (sv_vendors s)" "thread_step (sv_vendors s ! k) v'"
    "keeps_apart k (sv_vendors s ! k) v' s"
  shows "views_ok (vendor_moves k v' s)"
  unfolding views_ok_def
proof (intro allI impI)
  fix j fd
  assume j: "j < length (sv_vendors (vendor_moves k v' s))"
  let ?v = "sv_vendors s ! k" and ?th = "sv_conns s fd"
  have old: "upd_inv (reader_view j ?th (sv_vendors s ! j))"
    using assms(1) j by (simp add: views_ok_def vendor_moves_def set_vendor_def Let_def)
  show "upd_inv (reader_view j (sv_conns (vendor_moves k v' s) fd) (sv_vendors (vendor_moves k v' s) ! j))"
  proof (cases "j = k")
    case True
    have "upd_inv (reader_view k (map_option (aged k ?v v') ?th) v')"
      by (rule thread_step_reader) (use old True assms(3,4) in \<open>auto simp: keeps_apart_def\<close>)
    then show ?thesis
      using True assms(2) by (simp add: vendor_moves_def set_vendor_def Let_def)
  next
    case False
    have "holds j ?th = None \<or> map_option (aged k ?v v') ?th = ?th"
      using False by (cases ?th) (auto simp: aged_def holds_def split: conn.splits)
    then have "upd_inv (reader_view j (map_option (aged k ?v v') ?th) (sv_vendors s ! j))"
      using view_change [OF old, of "map_option (aged k ?v v') ?th"] old by auto
    then show ?thesis
      using False by (simp add: vendor_moves_def set_vendor_def Let_def)
  qed
qed

lemma vendors_main [simp]:
  "sv_vendors (set_conn fd th s) = sv_vendors s" "sv_conns (set_vendor k v s) = sv_conns s"
  by (simp_all add: set_conn_def set_vendor_def)

lemma views_ok_step: "server_step pb s s' \<Longrightarrow> views_ok s \<Longrightarrow> views_ok s'"
proof (induction rule: server_step.induct)
  case (accept_conn s fd)
  have "holds k (Some conn_start) = None" for k
    by (simp add: holds_def conn_start_def)
  then show ?case
    using accept_conn by (auto intro!: views_ok_conn)
next
  case (stop_vendor s k)
  then have "upd_inv (reader_view k (sv_conns s fd) ((sv_vendors s ! k)\<lparr>run_flag := False\<rparr>))" for fd
    by (intro upd_inv_stop) (simp add: views_ok_def)
  then show ?case
    using stop_vendor by (auto intro!: views_ok_vendor)
next
  case (free_vendor s k)
  then have "upd_inv (reader_view k (sv_conns s fd) (free_list (current (sv_vendors s ! k)) (sv_vendors s ! k) Freed))"
    if "k < length (sv_vendors s)" for fd
    using that by (intro upd_inv_free_list) (simp_all add: views_ok_def)
  then show ?case
    using free_vendor by (auto intro!: views_ok_vendor)
next
  case (vendor k s v')
  then show ?case by (simp add: views_ok_moves)
next
  case (conn_takes s fd th k)
  then show ?case
    using conn_vendor_holds [OF conn_takes.hyps(2)] by (blast intro!: views_ok_conn)
next
  case (conn_walks s fd th k a ms)
  show ?case
  proof (rule views_ok_conn [OF conn_walks.prems])
    fix j
    show "holds j (Some (conn_walk k a ms (sv_vendors s ! k) th)) = None \<or>
        holds j (Some (conn_walk k a ms (sv_vendors s ! k) th)) = current (sv_vendors s ! j) \<or>
        holds j (Some (conn_walk k a ms (sv_vendors s ! k) th)) = holds j (sv_conns s fd) \<and>
        Some (th_age (conn_walk k a ms (sv_vendors s ! k) th)) = map_option th_age (sv_conns s fd)"
      using conn_walk_holds [OF conn_walks.hyps(2), of j "sv_vendors s ! k"] conn_walks.hyps(1) by auto
  qed
qed (auto intro!: views_ok_conn)

lemma main_init_simps [simp]:
  "sv_vendors main_init = replicate 3 (upd_start True)" "sv_conns main_init = Map.empty"
  "sv_run main_init" "sv_main main_init = Loop" "sv_published main_init = (\<lambda>k. [])"
  by (simp_all add: main_init_def vendors_get_all_def vendor_get_def Let_def all_functions_def vendor_set_name_def
      numeral_eq_Suc)

lemma views_ok_reaches: "server_reaches pb s \<Longrightarrow> views_ok s"
proof (induction rule: server_reaches_induct)
  case start
  have "upd_inv (reader_view k None (upd_start True))" for k
    by (simp add: upd_inv_defs reader_view_def holds_def upd_start_def market_timeout_def)
  then show ?case
    by (simp add: views_ok_def)
qed (rule views_ok_step)

subsection \<open>The vendors and the main thread\<close>

text \<open>How many of the three vendors the main thread has freed; the vendors are freed in their order.\<close>

definition freed_count :: "server \<Rightarrow> nat" where
  "freed_count s =
     (case sv_main s of Freeing k \<Rightarrow> k | Joining k \<Rightarrow> k | Returned \<Rightarrow> 3 | _ \<Rightarrow> 0)"

definition main_ok :: "server \<Rightarrow> bool" where
  "main_ok s \<longleftrightarrow> length (sv_vendors s) = 3 \<and> freed_count s \<le> 3 \<and>
     (\<forall>k. sv_main s = Joining k \<longrightarrow> k < 3 \<and> \<not> run_flag (sv_vendors s ! k)) \<and>
     (\<forall>k<3. held (sv_vendors s ! k) = None \<and> (pc (sv_vendors s ! k) = Freed \<longleftrightarrow> k < freed_count s))"

lemma free_list_simps [simp]:
  "initialised (free_list p v q) = initialised v" "current (free_list p v q) = current v"
  "run_flag (free_list p v q) = run_flag v" "held (free_list p v q) = held v" "s_total (free_list p v q) = s_total v"
  by (simp_all add: free_list_def split: option.split)

lemma free_list_pc: "pc (free_list p v q) = q \<or> pc (free_list p v q) = Crash"
  by (simp add: free_list_def split: option.split)

lemma free_list_ran: "ran (heap (free_list p v q)) \<subseteq> ran (heap v)"
  by (auto simp: free_list_def ran_def split: option.split if_splits)

lemma thread_step_alive: "thread_step v v' \<Longrightarrow> pc v \<noteq> Freed \<and> pc v' \<noteq> Freed \<and> run_flag v' = run_flag v \<and> held v' = held v"
  using free_list_pc [of "to_be_deleted v" v Save]
  by (auto elim!: thread_stepE simp: new_list_def split: option.splits)

lemma vendor_moves_simps [simp]:
  "sv_main (vendor_moves k v' s) = sv_main s" "sv_run (vendor_moves k v' s) = sv_run s"
  "sv_vendors (vendor_moves k v' s) = (sv_vendors s)[k := v']"
  "dom (sv_conns (vendor_moves k v' s)) = dom (sv_conns s)"
  by (auto simp: vendor_moves_def set_vendor_def Let_def dom_def)

lemma set_simps [simp]:
  "sv_main (set_conn fd th s) = sv_main s" "sv_run (set_conn fd th s) = sv_run s"
  "sv_conns (set_conn fd th s) = (sv_conns s)(fd \<mapsto> th)" "sv_published (set_conn fd th s) = sv_published s"
  "sv_main (set_vendor k v s) = sv_main s" "sv_run (set_vendor k v s) = sv_run s"
  "sv_vendors (set_vendor k v s) = (sv_vendors s)[k := v]" "sv_published (set_vendor k v s) = sv_published s"
  "sv_main (terminate s) = sv_main s" "\<not> sv_run (terminate s)" "sv_vendors (terminate s) = sv_vendors s"
  "sv_conns (terminate s) = sv_conns s" "sv_published (terminate s) = sv_published s"
  by (simp_all add: set_conn_def set_vendor_def terminate_def)

lemma freed_count_moves: "freed_count (vendor_moves k v' s) = freed_count s"
  by (simp add: freed_count_def)

lemma main_ok_cong:
  "main_ok s \<Longrightarrow> sv_vendors s' = sv_vendors s \<Longrightarrow> freed_count s' = freed_count s \<Longrightarrow>
    (\<And>k. sv_main s' = Joining k \<Longrightarrow> sv_main s = Joining k) \<Longrightarrow> main_ok s'"
  by (auto simp: main_ok_def)

lemma main_ok_step: "server_step pb s s' \<Longrightarrow> views_ok s \<Longrightarrow> main_ok s \<Longrightarrow> main_ok s'"
proof (induction rule: server_step.induct)
  case (stop_vendor s k)
  then show ?case
    by (auto simp: main_ok_def freed_count_def nth_list_update)
next
  case (free_vendor s k)
  let ?v = "sv_vendors s ! k"
  have k: "k < length (sv_vendors s)"
    using free_vendor by (auto simp: main_ok_def)
  then have "upd_inv (reader_view k None ?v)"
    using free_vendor(3) view_change [of k "sv_conns s 0" ?v None] by (simp add: views_ok_def holds_def)
  from upd_inv_free_list [OF this free_vendor(2)]
  have "pc (free_list (current ?v) ?v Freed) \<noteq> Crash"
    by (simp add: upd_inv_def reader_view_def)
  then have "pc (free_list (current ?v) ?v Freed) = Freed"
    using free_list_pc by blast
  then show ?case
    using free_vendor k by (auto simp: main_ok_def freed_count_def nth_list_update)
next
  case (vendor k s v')
  then show ?case
    using thread_step_alive [OF vendor.hyps(2)] freed_count_moves [of k v' s]
    by (auto simp: main_ok_def nth_list_update)
qed (auto simp: freed_count_def main_ok_def elim!: main_ok_cong)

lemma main_ok_reaches: "server_reaches pb s \<Longrightarrow> main_ok s"
proof (induction rule: server_reaches_induct)
  case start
  then show ?case
    by (auto simp: main_ok_def freed_count_def upd_start_def)
next
  case (step s s')
  then show ?case using main_ok_step views_ok_reaches by blast
qed

text \<open>Without a reader the machine of a vendor satisfies the invariant of VendorLoop.\<close>

lemma vendor_inv:
  assumes "server_reaches pb s" "k < 3"
  shows "upd_inv (sv_vendors s ! k)"
proof -
  have "upd_inv (reader_view k (sv_conns s 0) (sv_vendors s ! k))" "held (sv_vendors s ! k) = None"
    using views_ok_reaches [OF assms(1)] main_ok_reaches [OF assms(1)] assms(2)
    by (auto simp: views_ok_def main_ok_def)
  then show ?thesis
    by (auto simp: upd_inv_defs reader_view_def)
qed

text \<open>What a vendor's thread has published covers every list that is allocated.\<close>

definition covers :: "market list set \<Rightarrow> upd \<Rightarrow> bool" where
  "covers P v \<longleftrightarrow> ran (heap v) \<subseteq> P \<and> (initialised v \<and> current v = None \<longrightarrow> [] \<in> P)"

definition published_ok :: "server \<Rightarrow> bool" where
  "published_ok s \<longleftrightarrow> (\<forall>k<length (sv_vendors s). covers (set (sv_published s k)) (sv_vendors s ! k))"

lemma covers_free: "covers P v \<Longrightarrow> covers P (free_list p v q)"
  using free_list_ran [of p v q] by (auto simp: covers_def)

lemma covers_thread_step:
  assumes "thread_step v v'" "covers P v" "pc v = Fetch \<and> pc v' \<noteq> Lost \<longrightarrow> published_list v' \<in> P'" "P \<subseteq> P'"
  shows "covers P' v'"
  using assms
proof (induction rule: thread_step.induct)
  case (free_old s)
  then have "covers P' s" by (auto simp: covers_def)
  then show ?case by (rule covers_free)
next
  case (fetch s p ms)
  then show ?case
    by (cases p) (auto simp: covers_def new_list_def published_list_def ran_def split: if_splits)
qed (auto simp: covers_def)

lemma published_ok_vendor:
  "published_ok s \<Longrightarrow> (k < length (sv_vendors s) \<Longrightarrow> covers (set (sv_published s k)) v) \<Longrightarrow>
    published_ok (set_vendor k v s)"
  unfolding published_ok_def by (simp, metis nth_list_update_eq nth_list_update_neq)

lemma published_ok_step: "server_step pb s s' \<Longrightarrow> published_ok s \<Longrightarrow> published_ok s'"
proof (induction rule: server_step.induct)
  case (stop_vendor s k)
  then show ?case
    by (auto simp: published_ok_def nth_list_update covers_def)
next
  case (free_vendor s k)
  then show ?case
    using published_ok_vendor [of s k] covers_free by (auto simp: published_ok_def)
next
  case (vendor k s v')
  let ?P' = "if pc (sv_vendors s ! k) = Fetch \<and> pc v' \<noteq> Lost then sv_published s k @ [published_list v'] else sv_published s k"
  have "covers (set ?P') v'"
    by (rule covers_thread_step [OF vendor.hyps(2), of "set (sv_published s k)"])
      (use vendor in \<open>auto simp: published_ok_def\<close>)
  then show ?case
    using vendor by (auto simp: published_ok_def vendor_moves_def Let_def nth_list_update)
qed (auto simp: published_ok_def)

lemma published_ok_reaches: "server_reaches pb s \<Longrightarrow> published_ok s"
proof (induction rule: server_reaches_induct)
  case start
  show ?case by (simp add: published_ok_def covers_def upd_start_def)
qed (rule published_ok_step)

lemma published_grows: "server_step pb s s' \<Longrightarrow> set (sv_published s k) \<subseteq> set (sv_published s' k)"
  by (auto elim!: server_stepE simp: vendor_moves_def Let_def)

subsection \<open>What a connection thread computes\<close>

text \<open>A vendor as the sequential code sees it at the moment its list is taken.\<close>

definition snapshot :: "market list \<Rightarrow> vendor" where
  "snapshot ms = vendor_new\<lparr>is_initialized := True, current_market := ms\<rparr>"

lemma pairs_of_markets_append:
  "pairs_of_markets t ks (xs @ ys) = cbind (pairs_of_markets t ks xs) (\<lambda>(t, ks). pairs_of_markets t ks ys)"
proof (induction xs arbitrary: t ks)
  case (Cons m xs)
  have tail: "cbind (kh_set_value t i (pair_market m)) (\<lambda>t. pairs_of_markets t ks (xs @ ys)) =
      cbind (cbind (kh_set_value t i (pair_market m)) (\<lambda>t. pairs_of_markets t ks xs))
        (\<lambda>(t, ks). pairs_of_markets t ks ys)" for t i ks
    by (simp add: cbind_assoc Cons)
  show ?case
    by (auto simp: cbind_assoc Cons tail intro!: cbind_cong)
qed simp

lemma pairs_of_vendors_append:
  "pairs_of_vendors t ks (vs @ ws) = cbind (pairs_of_vendors t ks vs) (\<lambda>(t, ks). pairs_of_vendors t ks ws)"
proof (induction vs arbitrary: t ks)
  case (Cons v vs)
  show ?case
    by (cases "pairs_of_markets t ks (current_market v)") (auto simp: Cons split: prod.splits)
qed simp

lemma do_connect_decided:
  assumes "read_loop ([], 0) rs = Inr (b, m)"
  shows "conn_decide b = Answered r \<Longrightarrow> do_connect pb vs rs = Inr r"
    and "conn_decide b = NextVendor 0 \<Longrightarrow>
      do_connect pb vs rs = cbind (vendor_get_all_trading_pairs vs) (reply_of_pairs pb)"
proof -
  show "do_connect pb vs rs = Inr r" if "conn_decide b = Answered r"
    using that by (auto simp: do_connect_def assms respond_def conn_decide_def split: sum.splits if_splits)
  show "do_connect pb vs rs = cbind (vendor_get_all_trading_pairs vs) (reply_of_pairs pb)"
    if "conn_decide b = NextVendor 0"
  proof -
    have "do_connect pb vs rs = cbind (get_trading_pairs pb vs) (\<lambda>r.
        case r of None \<Rightarrow> Inr NoResults | Some bs \<Rightarrow> Inr (if bs = [] then NoResults else Answer bs))"
      using that by (auto simp: do_connect_def assms respond_def conn_decide_def split: sum.splits if_splits)
    also have "\<dots> = cbind (vendor_get_all_trading_pairs vs) (reply_of_pairs pb)"
      unfolding get_trading_pairs_def cbind_assoc
      by (rule cbind_cong [OF refl]) (auto simp: reply_of_pairs_def cbind_assoc intro!: cbind_cong)
    finally show ?thesis .
  qed
qed

text \<open>
  The invariant of a thread among \<open>n\<close> vendors: what it read so far is the request as the sequential read loop
  would have it, its table is that of the sequential loops over the lists it took, and its reply is the
  reply of the sequential handler for vendors with these lists.
\<close>

definition untouched :: "conn_thread \<Rightarrow> bool" where
  "untouched th \<longleftrightarrow> th_table th = kh_init \<and> th_keys th = [] \<and> th_seen th = []"

definition asked_pairs :: "conn_thread \<Rightarrow> bool" where
  "asked_pairs th \<longleftrightarrow> (\<exists>b m. read_loop ([], 0) (th_reads th) = Inr (b, m) \<and> conn_decide b = NextVendor 0)"

definition built :: "conn_thread \<Rightarrow> market list list \<Rightarrow> bool" where
  "built th mss \<longleftrightarrow> pairs_of_vendors kh_init [] (map snapshot mss) = Inr (th_table th, th_keys th)"

fun conn_at :: "protobuf \<Rightarrow> nat \<Rightarrow> conn_thread \<Rightarrow> conn \<Rightarrow> bool" where
  "conn_at pb n th (Reading buf) \<longleftrightarrow> untouched th \<and>
     (\<forall>rs. read_loop ([], 0) (th_reads th @ rs) = read_loop buf rs)"
| "conn_at pb n th (Asked b) \<longleftrightarrow> untouched th \<and> (\<exists>m. read_loop ([], 0) (th_reads th) = Inr (b, m))"
| "conn_at pb n th (NextVendor k) \<longleftrightarrow> asked_pairs th \<and> k \<le> n \<and> length (th_seen th) = k \<and> built th (th_seen th)"
| "conn_at pb n th (Walking k a ms) \<longleftrightarrow> asked_pairs th \<and> k < n \<and>
     (\<exists>old done. th_seen th = old @ [done @ ms] \<and> length old = k \<and> built th (old @ [done]))"
| "conn_at pb n th (Answered r) \<longleftrightarrow> do_connect pb (map snapshot (th_seen th)) (th_reads th) = Inr r \<and>
     (r = ShutDown \<or> r = Silent \<or> length (th_seen th) = n)"
| "conn_at pb n th (Broken f) \<longleftrightarrow> True"

definition conn_ok :: "protobuf \<Rightarrow> nat \<Rightarrow> conn_thread \<Rightarrow> bool" where
  "conn_ok pb n th \<longleftrightarrow> conn_at pb n th (th_at th)"

lemma conn_ok_start: "conn_ok pb n conn_start"
  by (simp add: conn_ok_def conn_start_def untouched_def)

lemma conn_ok_read:
  assumes "conn_ok pb n th" "th_at th = Reading buf"
  shows "conn_ok pb n (th\<lparr>th_at := conn_read buf r, th_reads := th_reads th @ [r]\<rparr>)"
proof (cases r)
  case None
  then show ?thesis by (simp add: conn_ok_def conn_read_def)
next
  case (Some incoming)
  have loop: "read_loop ([], 0) (th_reads th @ r # rs) = read_loop buf (r # rs)" for rs
    using assms by (simp add: conn_ok_def)
  have "untouched th" using assms by (simp add: conn_ok_def)
  then show ?thesis
    using loop [of "[]"] loop by (auto simp: conn_ok_def conn_read_def Let_def Some untouched_def prod_eq_iff)
qed

lemma conn_ok_decide:
  assumes "conn_ok pb n th" "th_at th = Asked b"
  shows "conn_ok pb n (th\<lparr>th_at := conn_decide b\<rparr>)"
proof -
  obtain m where m: "read_loop ([], 0) (th_reads th) = Inr (b, m)" and u: "untouched th"
    using assms by (auto simp: conn_ok_def)
  have "(\<exists>f. conn_decide b = Broken f) \<or> conn_decide b = Answered ShutDown \<or> conn_decide b = Answered Silent \<or>
      conn_decide b = NextVendor 0"
    by (auto simp: conn_decide_def split: sum.split)
  then show ?thesis
  proof (elim disjE exE)
    assume d: "conn_decide b = NextVendor 0"
    then have "asked_pairs th" using m by (auto simp: asked_pairs_def)
    then show ?thesis
      using d u by (simp add: conn_ok_def asked_pairs_def untouched_def built_def)
  qed (use do_connect_decided(1) [OF m] in \<open>auto simp: conn_ok_def\<close>)
qed

lemma conn_ok_vendor:
  assumes "conn_ok pb n th" "th_at th = NextVendor k" "k < n"
  shows "conn_ok pb n (conn_vendor k v th)"
proof -
  have th: "asked_pairs th" "length (th_seen th) = k" "built th (th_seen th)"
    using assms by (auto simp: conn_ok_def)
  have "built th (th_seen th @ [[]])"
    using th(3) by (simp add: built_def pairs_of_vendors_append snapshot_def)
  then show ?thesis
    using assms th
    by (auto simp: conn_vendor_def conn_ok_def asked_pairs_def built_def split: option.split)
qed

lemma built_walk:
  assumes "built th (old @ [done])" "pairs_of_markets (th_table th) (th_keys th) [m] = Inr (t, ks)"
  shows "built (th\<lparr>th_at := c, th_table := t, th_keys := ks\<rparr>) (old @ [done @ [m]])"
proof -
  obtain t0 ks0 where old: "pairs_of_vendors kh_init [] (map snapshot old) = Inr (t0, ks0)"
    using assms(1) by (auto simp: built_def pairs_of_vendors_append cbind_Inr_iff)
  then have "pairs_of_markets t0 ks0 done = Inr (th_table th, th_keys th)"
    using assms(1) by (auto simp: built_def pairs_of_vendors_append cbind_Inr_iff snapshot_def)
  then have "pairs_of_markets t0 ks0 (done @ [m]) = Inr (t, ks)"
    using assms(2) by (simp add: pairs_of_markets_append del: pairs_of_markets.simps)
  then show ?thesis
    using old by (simp add: built_def pairs_of_vendors_append snapshot_def)
qed

lemma conn_ok_walk:
  assumes "conn_ok pb n th" "th_at th = Walking k a ms"
  shows "conn_ok pb n (conn_walk k a ms v th)"
proof -
  obtain old don where th: "asked_pairs th" "k < n" "th_seen th = old @ [don @ ms]" "length old = k"
      "built th (old @ [don])"
    using assms by (auto simp: conn_ok_def)
  show ?thesis
  proof (cases ms)
    case Nil
    then show ?thesis
      using th by (auto simp: conn_walk_def conn_ok_def asked_pairs_def built_def)
  next
    case (Cons m rest)
    show ?thesis
    proof (cases "heap v a = None \<or> (\<exists>f. pairs_of_markets (th_table th) (th_keys th) [m] = Inl f)")
      case True
      then show ?thesis
        by (auto simp: conn_walk_def conn_ok_def Cons)
    next
      case False
      then obtain t ks where ok: "heap v a \<noteq> None" "pairs_of_markets (th_table th) (th_keys th) [m] = Inr (t, ks)"
        by (metis old.sum.exhaust surj_pair)
      then have w: "conn_walk k a ms v th = th\<lparr>th_at := Walking k a rest, th_table := t, th_keys := ks\<rparr>"
        by (auto simp: conn_walk_def Cons simp del: pairs_of_markets.simps)
      have "th_seen th = old @ [(don @ [m]) @ rest]"
        using th(3) Cons by simp
      then show ?thesis
        using built_walk [OF th(5) ok(2), of "Walking k a rest"] th(1,2,4)
        unfolding w conn_ok_def by (auto simp: asked_pairs_def)
    qed
  qed
qed

lemma conn_ok_answer:
  assumes "conn_ok pb n th" "th_at th = NextVendor n"
  shows "conn_ok pb n (th\<lparr>th_at := conn_answer pb (th_table th)\<rparr>)"
proof -
  obtain b m where b: "read_loop ([], 0) (th_reads th) = Inr (b, m)" "conn_decide b = NextVendor 0"
    and th: "length (th_seen th) = n" "built th (th_seen th)"
    using assms by (auto simp: conn_ok_def asked_pairs_def)
  have "vendor_get_all_trading_pairs (map snapshot (th_seen th)) = kh_all_values (th_table th)"
    using th(2) by (cases "kh_all_values (th_table th)")
      (simp_all add: vendor_get_all_trading_pairs_def pairs_and_keys_def built_def)
  then show ?thesis
    using do_connect_decided(2) [OF b, of pb "map snapshot (th_seen th)"] th(1)
    by (auto simp: conn_ok_def conn_answer_def split: sum.split)
qed

lemma conn_ok_aged [simp]: "conn_ok pb n (aged k v v' th) = conn_ok pb n th"
  by (cases "th_at th") (simp_all add: conn_ok_def aged_def untouched_def asked_pairs_def built_def)

text \<open>All threads, with the lists they took: each was published by the vendor it was taken from, and as
  long as it is allocated it is still the list that was taken.\<close>

definition taken_ok :: "server \<Rightarrow> conn_thread \<Rightarrow> bool" where
  "taken_ok s th \<longleftrightarrow> (\<forall>k<length (th_seen th). th_seen th ! k \<in> set (sv_published s k)) \<and>
     (\<forall>k a ms x. th_at th = Walking k a ms \<longrightarrow> heap (sv_vendors s ! k) a = Some x \<longrightarrow> x = last (th_seen th))"

definition conns_ok :: "protobuf \<Rightarrow> server \<Rightarrow> bool" where
  "conns_ok pb s \<longleftrightarrow>
     (\<forall>fd th. sv_conns s fd = Some th \<longrightarrow> conn_ok pb (length (sv_vendors s)) th \<and> taken_ok s th)"

lemma conns_ok_conn:
  assumes "conns_ok pb s" "conn_ok pb (length (sv_vendors s)) th" "taken_ok s th"
  shows "conns_ok pb (set_conn fd th s)"
  using assms by (auto simp: conns_ok_def taken_ok_def)

lemma conns_ok_main [simp]:
  "conns_ok pb (s\<lparr>sv_main := m\<rparr>) = conns_ok pb s" "conns_ok pb (s\<lparr>sv_run := b\<rparr>) = conns_ok pb s"
  "conns_ok pb (s\<lparr>sv_main := m, sv_run := b\<rparr>) = conns_ok pb s" "conns_ok pb (terminate s) = conns_ok pb s"
  by (simp_all add: conns_ok_def taken_ok_def)

lemma taken_ok_main [simp]:
  "taken_ok (s\<lparr>sv_main := m\<rparr>) th = taken_ok s th" "taken_ok (s\<lparr>sv_run := b\<rparr>) th = taken_ok s th"
  by (simp_all add: taken_ok_def)

lemma thread_step_heap:
  "thread_step v v' \<Longrightarrow> heap v' a = Some x \<Longrightarrow> heap v a = Some x \<or> heap v a = None"
  by (auto elim!: thread_stepE simp: free_list_def new_list_def fresh_in_def split: option.splits if_splits)

lemma free_list_heap: "heap (free_list p v q) a = Some x \<Longrightarrow> heap v a = Some x"
  by (auto simp: free_list_def split: option.splits if_splits)

lemma conns_ok_vendor:
  assumes "conns_ok pb s" "\<And>a x. heap v a = Some x \<Longrightarrow> heap (sv_vendors s ! k) a = Some x"
  shows "conns_ok pb (set_vendor k v s)"
  unfolding conns_ok_def
proof (intro allI impI)
  fix fd th assume "sv_conns (set_vendor k v s) fd = Some th"
  then have th: "conn_ok pb (length (sv_vendors s)) th" "taken_ok s th"
    using assms(1) by (auto simp: conns_ok_def)
  have "heap ((sv_vendors s)[k := v] ! j) a = Some x \<Longrightarrow> heap (sv_vendors s ! j) a = Some x" for j a x
    using assms(2) by (cases "k < length (sv_vendors s)"; cases "j = k") (auto simp: list_update_beyond)
  then show "conn_ok pb (length (sv_vendors (set_vendor k v s))) th \<and> taken_ok (set_vendor k v s) th"
    using th by (auto simp: taken_ok_def)
qed

lemma conns_ok_moves:
  assumes "conns_ok pb s" "k < length (sv_vendors s)" "thread_step (sv_vendors s ! k) v'"
    "keeps_apart k (sv_vendors s ! k) v' s"
  shows "conns_ok pb (vendor_moves k v' s)"
  unfolding conns_ok_def
proof (intro allI impI)
  let ?v = "sv_vendors s ! k"
  fix fd t assume "sv_conns (vendor_moves k v' s) fd = Some t"
  then obtain th where th: "sv_conns s fd = Some th" "t = aged k ?v v' th"
    by (auto simp: vendor_moves_def Let_def)
  then have ok: "conn_ok pb (length (sv_vendors s)) th" "taken_ok s th"
    using assms(1) by (auto simp: conns_ok_def)
  have same: "th_at t = th_at th" "th_seen t = th_seen th"
    using th(2) by (simp_all add: aged_def)
  have "x = last (th_seen th)"
    if w: "th_at th = Walking j a ms" "heap ((sv_vendors s)[k := v'] ! j) a = Some x" for j a ms x
  proof (cases "j = k")
    case True
    then have "heap v' a = Some x" using w(2) assms(2) by simp
    moreover have "holds k (sv_conns s fd) = Some a" using th(1) w(1) True by (simp add: holds_def)
    ultimately have "heap ?v a = Some x"
      using thread_step_heap [OF assms(3)] assms(4) unfolding keeps_apart_def by (metis option.distinct(1))
    then show ?thesis using ok(2) w(1) True by (auto simp: taken_ok_def)
  next
    case False
    then show ?thesis using ok(2) w by (auto simp: taken_ok_def)
  qed
  moreover have "set (sv_published s j) \<subseteq> set (sv_published (vendor_moves k v' s) j)" for j
    by (auto simp: vendor_moves_def Let_def)
  ultimately have "taken_ok (vendor_moves k v' s) t"
    using ok(2) unfolding taken_ok_def same by (simp add: subset_iff)
  then show "conn_ok pb (length (sv_vendors (vendor_moves k v' s))) t \<and> taken_ok (vendor_moves k v' s) t"
    using ok(1) th(2) by simp
qed

lemma taken_ok_idle:
  "taken_ok s th \<Longrightarrow> th_seen th' = th_seen th \<Longrightarrow> (\<And>k a ms. th_at th' \<noteq> Walking k a ms) \<Longrightarrow> taken_ok s th'"
  by (simp add: taken_ok_def)

lemma taken_ok_take:
  assumes "taken_ok s th" "published_ok s" "th_at th = NextVendor k" "length (th_seen th) = k" "k < length (sv_vendors s)"
  shows "taken_ok s (conn_vendor k (sv_vendors s ! k) th)"
proof -
  let ?v = "sv_vendors s ! k"
  have c: "covers (set (sv_published s k)) ?v"
    using assms(2,5) by (simp add: published_ok_def)
  then have "heap ?v a = Some ms \<Longrightarrow> ms \<in> set (sv_published s k)" for a ms
    by (auto simp: covers_def ran_def)
  then show ?thesis
    using assms c by (auto simp: conn_vendor_def taken_ok_def nth_append less_Suc_eq covers_def split: option.split)
qed

lemma taken_ok_walk:
  assumes "taken_ok s th" "th_at th = Walking k a ms"
  shows "taken_ok s (conn_walk k a ms v th)"
  using assms by (auto simp: conn_walk_def taken_ok_def split: list.split sum.split)

lemma conns_ok_step:
  "server_step pb s s' \<Longrightarrow> published_ok s \<Longrightarrow> conns_ok pb s \<Longrightarrow> conns_ok pb s'"
proof (induction rule: server_step.induct)
  case (accept_conn s fd)
  then show ?case
    using conn_ok_start by (auto intro!: conns_ok_conn) (simp add: taken_ok_def conn_start_def)
next
  case (stop_vendor s k)
  then show ?case by (auto intro!: conns_ok_vendor)
next
  case (free_vendor s k)
  then show ?case by (auto intro!: conns_ok_vendor dest: free_list_heap)
next
  case (vendor k s v')
  then show ?case by (simp add: conns_ok_moves)
next
  case (conn_reads s fd th buf r)
  then have th: "conn_ok pb (length (sv_vendors s)) th" "taken_ok s th" by (auto simp: conns_ok_def)
  show ?case
    by (rule conns_ok_conn [OF conn_reads.prems(2) conn_ok_read [OF th(1) conn_reads.hyps(2)] taken_ok_idle [OF th(2)]])
      (auto simp: conn_read_def Let_def split: option.split if_splits)
next
  case (conn_decides s fd th b)
  then have th: "conn_ok pb (length (sv_vendors s)) th" "taken_ok s th" by (auto simp: conns_ok_def)
  have "taken_ok s (th\<lparr>th_at := conn_decide b\<rparr>)"
    by (rule taken_ok_idle [OF th(2)]) (auto simp: conn_decide_def split: sum.splits if_splits)
  then show ?case
    using conn_decides.prems(2) conn_ok_decide [OF th(1) conn_decides.hyps(2)] by (auto intro!: conns_ok_conn)
next
  case (conn_takes s fd th k)
  then have th: "conn_ok pb (length (sv_vendors s)) th" "taken_ok s th" by (auto simp: conns_ok_def)
  then show ?case
    using conn_takes by (auto intro!: conns_ok_conn conn_ok_vendor taken_ok_take simp: conn_ok_def)
next
  case (conn_walks s fd th k a ms)
  then have th: "conn_ok pb (length (sv_vendors s)) th" "taken_ok s th" by (auto simp: conns_ok_def)
  show ?case
    by (rule conns_ok_conn [OF conn_walks.prems(2) conn_ok_walk [OF th(1) conn_walks.hyps(2)]
        taken_ok_walk [OF th(2) conn_walks.hyps(2)]])
next
  case (conn_answers s fd th k)
  then have th: "conn_ok pb (length (sv_vendors s)) th" "taken_ok s th" by (auto simp: conns_ok_def)
  have "taken_ok s (th\<lparr>th_at := conn_answer pb (th_table th)\<rparr>)"
    by (rule taken_ok_idle [OF th(2)]) (auto simp: conn_answer_def split: sum.splits)
  then show ?case
    using conn_answers th(1) by (auto intro!: conns_ok_conn conn_ok_answer)
qed simp_all

lemma conns_ok_reaches: "server_reaches pb s \<Longrightarrow> conns_ok pb s"
proof (induction rule: server_reaches_induct)
  case start
  show ?case by (simp add: conns_ok_def)
next
  case (step s s')
  then show ?case using conns_ok_step published_ok_reaches by blast
qed

end
