(* ===== verification/ServerSpec.thy ===== *)
theory ServerSpec
  imports ServerInv
begin

section \<open>What the running server guarantees\<close>

subsection \<open>Replies\<close>

lemma server_reply:
  assumes "server_reaches pb s" "sv_conns s fd = Some th" "th_at th = Answered r"
  shows "do_connect pb (map snapshot (th_seen th)) (th_reads th) = Inr r \<and>
    list_all (\<lambda>k. th_seen th ! k \<in> set (sv_published s k)) [0..<length (th_seen th)] \<and>
    (r = ShutDown \<or> r = Silent \<or> length (th_seen th) = 3)"
proof -
  have "conn_ok pb 3 th" "taken_ok s th"
    using conns_ok_reaches [OF assms(1)] main_ok_reaches [OF assms(1)] assms(2)
    by (auto simp: conns_ok_def main_ok_def)
  then show ?thesis
    using assms(3) by (simp add: conn_ok_def taken_ok_def list_all_iff)
qed

text \<open>
  C5. Whatever the update threads, the other connections and the main thread do meanwhile, a reply of the
  running server is the one \<^verbatim>\<open>do_connect\<close> gives when run alone on what the connection sent, with each vendor's
  market list replaced by a list that this vendor's thread really published; a reply to \<^verbatim>\<open>trading_pairs\<close> has
  one such list for each of the three vendors.
\<close>

theorem server_replies:
  assumes "server_reaches pb s" "sv_conns s fd = Some th" "th_at th = Answered r"
  shows "do_connect pb (map snapshot (th_seen th)) (th_reads th) = Inr r \<and>
    list_all (\<lambda>k. th_seen th ! k \<in> set (sv_published s k)) [0..<length (th_seen th)] \<and>
    (r = ShutDown \<or> r = Silent \<or> length (th_seen th) = 3)"
  by (rule server_reply [OF assms])

text \<open>A run to a reply: a connection asks before the vendors have published anything, waits for them and is
  answered.\<close>

lemma reaches_loop_on: "server_reaches pb s \<Longrightarrow> sv_main s = Loop \<Longrightarrow> sv_run s \<Longrightarrow> server_reaches pb (s\<lparr>sv_main := Accept\<rparr>)"
  by (rule server_reaches_step [OF _ server_step.loop_on])

lemma reaches_accept:
  "server_reaches pb s \<Longrightarrow> sv_main s = Accept \<Longrightarrow> sv_run s \<Longrightarrow> sv_conns s fd = None \<Longrightarrow>
    server_reaches pb (set_conn fd conn_start s\<lparr>sv_main := Loop\<rparr>)"
  by (rule server_reaches_step [OF _ server_step.accept_conn])

definition ex_asked :: conn_thread where
  "ex_asked = conn_start\<lparr>th_at := NextVendor 0, th_reads := [Some bridge_command]\<rparr>"

definition ex_waiting :: server where
  "ex_waiting = main_init\<lparr>sv_conns := [7 \<mapsto> ex_asked]\<rparr>"

lemma ex_waiting_reached: "server_reaches pb ex_waiting"
proof -
  let ?b = "map Some bridge_command @ [Some NUL]"
  have "server_reaches pb (main_init\<lparr>sv_main := Accept\<rparr>)"
    by (rule reaches_loop_on [OF server_reaches_start]) simp_all
  from reaches_accept [OF this, of 7]
  have "server_reaches pb (main_init\<lparr>sv_conns := [7 \<mapsto> conn_start]\<rparr>)"
    by (simp add: set_conn_def main_init_def)
  from server_reaches_step [OF this server_step.conn_reads [of _ 7 conn_start "([], 0)" _ "Some bridge_command"]]
  have "server_reaches pb (main_init\<lparr>sv_conns :=
      [7 \<mapsto> conn_start\<lparr>th_at := conn_read ([], 0) (Some bridge_command), th_reads := [Some bridge_command]\<rparr>]\<rparr>)"
    by (simp add: set_conn_def conn_start_def)
  moreover have "conn_read ([], 0) (Some bridge_command) = Asked ?b"
    by (simp add: conn_read_def buffer_append_def bridge_command_def)
  ultimately have "server_reaches pb (main_init\<lparr>sv_conns :=
      [7 \<mapsto> conn_start\<lparr>th_at := Asked ?b, th_reads := [Some bridge_command]\<rparr>]\<rparr>)"
    by simp
  from server_reaches_step [OF this server_step.conn_decides [of _ 7 "conn_start\<lparr>th_at := Asked ?b, th_reads := [Some bridge_command]\<rparr>" ?b]]
  have "server_reaches pb (main_init\<lparr>sv_conns := [7 \<mapsto> conn_start\<lparr>th_at := conn_decide ?b, th_reads := [Some bridge_command]\<rparr>],
      sv_run := True \<and> conn_decide ?b \<noteq> Answered ShutDown\<rparr>)"
    by (simp add: set_conn_def conn_start_def)
  moreover have "conn_decide ?b = NextVendor 0"
    using strn_eq_text [of bridge_command "''EXIT''" "[]" 4] strn_eq_text [of bridge_command "''trading_pairs''" "[]" 13]
    by (simp add: conn_decide_def getCommand_def bridge_command_def NUL_def)
  ultimately show ?thesis
    by (simp add: ex_waiting_def ex_asked_def main_init_def)
qed

text \<open>Steps of a vendor's thread that are no seconds leave the connections alone.\<close>

lemma vendor_moves_idle:
  assumes "s_total v' \<le> s_total (sv_vendors s ! k)"
  shows "vendor_moves k v' s = set_vendor k v' s\<lparr>sv_published :=
    (if pc (sv_vendors s ! k) = Fetch \<and> pc v' \<noteq> Lost then (sv_published s)(k := sv_published s k @ [published_list v'])
     else sv_published s)\<rparr>"
proof -
  have "map_option (aged k (sv_vendors s ! k) v') th = th" for th
    using assms by (cases th) (simp_all add: aged_def)
  then have "map_option (aged k (sv_vendors s ! k) v') \<circ> sv_conns s = sv_conns s"
    by (simp add: fun_eq_iff)
  then show ?thesis
    by (simp add: vendor_moves_def Let_def set_vendor_def)
qed

lemma reaches_vendor:
  assumes "server_reaches pb s" "k < length (sv_vendors s)" "thread_step (sv_vendors s ! k) v'"
    "keeps_apart k (sv_vendors s ! k) v' s" "s_total v' \<le> s_total (sv_vendors s ! k)"
    "sv_main s \<notin> {Returned, Stopped}"
  shows "server_reaches pb (set_vendor k v' s\<lparr>sv_published :=
    (if pc (sv_vendors s ! k) = Fetch \<and> pc v' \<noteq> Lost then (sv_published s)(k := sv_published s k @ [published_list v'])
     else sv_published s)\<rparr>)"
  unfolding vendor_moves_idle [OF assms(5), symmetric]
  by (rule server_reaches_step [OF assms(1) server_step.vendor [OF assms(2-4,6)]])

text \<open>A vendor's thread that starts and finds a list of markets (\<open>None\<close>: none), while no connection walks a
  list of the vendor.\<close>

definition found :: "nat option \<Rightarrow> market list \<Rightarrow> upd" where
  "found p ms = new_list p ms ((upd_start True)\<lparr>pc := Fetch\<rparr>)"

abbreviation no_markets :: upd where
  "no_markets \<equiv> found None []"

lemma no_markets_simps [simp]: "published_list no_markets = []" "current no_markets = None" "initialised no_markets"
  by (simp_all add: found_def new_list_def upd_start_def published_list_def)

lemma found_pc [simp]: "pc (found p ms) = Pause" "s_total (found p ms) = 0"
  by (simp_all add: found_def new_list_def split: option.split)

lemma reaches_fetching:
  assumes "server_reaches pb s" "k < length (sv_vendors s)" "sv_vendors s ! k = upd_start True"
    "sv_main s \<notin> {Returned, Stopped}" "\<And>fd. holds k (sv_conns s fd) = None"
  shows "server_reaches pb (s\<lparr>sv_vendors := (sv_vendors s)[k := (upd_start True)\<lparr>pc := Fetch\<rparr>]\<rparr>)"
proof -
  let ?v = "upd_start True"
  have apart: "keeps_apart k v v' (s\<lparr>sv_vendors := vs\<rparr>)" "keeps_apart k v v' s" for v v' vs
    using assms(5) by (simp_all add: keeps_apart_def)
  have "thread_step ?v (?v\<lparr>pc := Save\<rparr>)"
    using thread_step.free_old [of ?v] by (simp add: upd_start_def free_list_def)
  with reaches_vendor [OF assms(1,2), of "?v\<lparr>pc := Save\<rparr>"] assms apart
  have 1: "server_reaches pb (s\<lparr>sv_vendors := (sv_vendors s)[k := ?v\<lparr>pc := Save\<rparr>]\<rparr>)"
    by (simp add: set_vendor_def upd_start_def)
  have "thread_step (?v\<lparr>pc := Save\<rparr>) (?v\<lparr>pc := Fetch\<rparr>)"
    using thread_step.keep_old [of "?v\<lparr>pc := Save\<rparr>"] by (simp add: upd_start_def)
  with reaches_vendor [OF 1, of k "?v\<lparr>pc := Fetch\<rparr>"] assms apart
  show ?thesis by (simp add: set_vendor_def upd_start_def)
qed

lemma reaches_published:
  assumes "server_reaches pb s" "k < length (sv_vendors s)" "sv_vendors s ! k = upd_start True"
    "sv_main s \<notin> {Returned, Stopped}" "\<And>fd. holds k (sv_conns s fd) = None"
  shows "server_reaches pb (s\<lparr>sv_vendors := (sv_vendors s)[k := found p ms],
    sv_published := (sv_published s)(k := sv_published s k @ [published_list (found p ms)])\<rparr>)"
proof -
  have apart: "keeps_apart k v v' (s\<lparr>sv_vendors := vs\<rparr>)" for v v' vs
    using assms(5) by (simp add: keeps_apart_def)
  have "thread_step ((upd_start True)\<lparr>pc := Fetch\<rparr>) (found p ms)"
    unfolding found_def by (rule thread_step.fetch) (simp_all add: upd_start_def fresh_in_def)
  then show ?thesis
    using reaches_vendor [OF reaches_fetching [OF assms], of k "found p ms"] assms apart
    by (simp add: set_vendor_def)
qed

text \<open>A vendor's thread that starts and is lost in its first transfer.\<close>

lemma reaches_lost:
  assumes "server_reaches pb s" "k < length (sv_vendors s)" "sv_vendors s ! k = upd_start True"
    "sv_main s \<notin> {Returned, Stopped}" "\<And>fd. holds k (sv_conns s fd) = None"
  shows "server_reaches pb (s\<lparr>sv_vendors := (sv_vendors s)[k := (upd_start True)\<lparr>pc := Lost\<rparr>]\<rparr>)"
proof -
  let ?v = "(upd_start True)\<lparr>pc := Lost\<rparr>"
  have apart: "keeps_apart k v v' (s\<lparr>sv_vendors := vs\<rparr>)" for v v' vs
    using assms(5) by (simp add: keeps_apart_def)
  have "thread_step ((upd_start True)\<lparr>pc := Fetch\<rparr>) ?v"
    using thread_step.fetch_lost [of "(upd_start True)\<lparr>pc := Fetch\<rparr>"] by simp
  then show ?thesis
    using reaches_vendor [OF reaches_fetching [OF assms], of k ?v] assms apart
    by (simp add: set_vendor_def)
qed

definition ex_ready :: server where
  "ex_ready = ex_waiting\<lparr>sv_vendors := replicate 3 no_markets, sv_published := (\<lambda>k. if k < 3 then [[]] else [])\<rparr>"

lemma ex_ready_reached: "server_reaches pb ex_ready"
proof -
  let ?u = "upd_start True"
  have 0: "sv_vendors ex_waiting = [?u, ?u, ?u]" "sv_main ex_waiting = Loop" "sv_published ex_waiting = (\<lambda>k. [])"
    by (simp_all add: ex_waiting_def numeral_eq_Suc)
  have idle: "holds k (sv_conns ex_waiting fd) = None" for k fd
    by (simp add: ex_waiting_def ex_asked_def holds_def)
  from reaches_published [OF ex_waiting_reached, of 0 pb None "[]"] 0 idle
  have "server_reaches pb (ex_waiting\<lparr>sv_vendors := [no_markets, ?u, ?u], sv_published := (\<lambda>k. [])(0 := [[]])\<rparr>)"
    by simp
  from reaches_published [OF this, of 1 None "[]"] 0 idle
  have "server_reaches pb (ex_waiting\<lparr>sv_vendors := [no_markets, no_markets, ?u],
      sv_published := (\<lambda>k. [])(0 := [[]], 1 := [[]])\<rparr>)"
    by simp
  from reaches_published [OF this, of 2 None "[]"] 0 idle
  have "server_reaches pb (ex_waiting\<lparr>sv_vendors := [no_markets, no_markets, no_markets],
      sv_published := (\<lambda>k. [])(0 := [[]], 1 := [[]], 2 := [[]])\<rparr>)"
    by simp
  moreover have "(\<lambda>k. [])(0 := [[]], 1 := [[]], 2 := [[]]) = (\<lambda>k::nat. if k < 3 then [[]] else ([] :: market list list))"
    by (auto simp: fun_eq_iff)
  ultimately show ?thesis
    by (simp add: ex_ready_def numeral_eq_Suc)
qed

text \<open>The connection passes a vendor without markets.\<close>

lemma reaches_pass:
  assumes "server_reaches pb s" "sv_conns s fd = Some th" "th_at th = NextVendor k" "k < length (sv_vendors s)"
    "sv_vendors s ! k = no_markets" "sv_main s \<notin> {Returned, Stopped}"
  shows "server_reaches pb (set_conn fd (th\<lparr>th_at := NextVendor (k + 1), th_seen := th_seen th @ [[]]\<rparr>) s)"
  using server_reaches_step [OF assms(1) server_step.conn_takes [OF assms(2,3,4,6)]] assms(5)
  by (simp add: conn_vendor_def)

definition ex_reply :: server where
  "ex_reply = ex_ready\<lparr>sv_conns := [7 \<mapsto> ex_asked\<lparr>th_at := Answered NoResults, th_seen := [[], [], []]\<rparr>]\<rparr>"

lemma ex_reply_reached: "server_reaches pb ex_reply"
proof -
  let ?s = "\<lambda>th. ex_ready\<lparr>sv_conns := [7 \<mapsto> th]\<rparr>"
  let ?th = "\<lambda>k. ex_asked\<lparr>th_at := NextVendor k, th_seen := replicate k []\<rparr>"
  have 0: "?s (?th 0) = ex_ready"
    by (simp add: ex_ready_def ex_waiting_def ex_asked_def conn_start_def)
  have v: "sv_vendors (?s th) ! k = no_markets" "k < length (sv_vendors (?s th))" "sv_main (?s th) = Loop"
    if "k < 3" for k th
    using that by (simp_all add: ex_ready_def ex_waiting_def)
  have onward: "server_reaches pb (?s (?th (k + 1)))" if "server_reaches pb (?s (?th k))" "k < 3" for k
    using reaches_pass [OF that(1), of 7 "?th k" k] v [OF that(2)]
    by (simp add: set_conn_def replicate_append_same)
  have "server_reaches pb (?s (?th 3))"
    using onward [of 0] onward [of 1] onward [of 2] ex_ready_reached [of pb] 0 by (simp add: numeral_eq_Suc)
  moreover have "conn_answer pb kh_init = Answered NoResults"
  proof -
    have "kh_all_values kh_init = Inr ([] :: market list)" by code_simp
    then show ?thesis by (simp add: conn_answer_def reply_of_pairs_def)
  qed
  ultimately show ?thesis
    using server_reaches_step [OF _ server_step.conn_answers [of "?s (?th 3)" 7 "?th 3" 3 pb]]
    by (simp add: v ex_ready_def ex_reply_def ex_asked_def conn_start_def set_conn_def ex_waiting_def numeral_eq_Suc)
qed

theorem server_replies_witness:
  "server_reaches wire ex_reply \<and> do_connect wire (map snapshot [[], [], []]) [Some bridge_command] = Inr NoResults \<and>
    [] \<in> set (sv_published ex_reply 2)"
  using server_replies [OF ex_reply_reached, of 7 _ NoResults wire] ex_reply_reached
  by (simp add: ex_reply_def ex_asked_def conn_start_def numeral_eq_Suc)

subsection \<open>Readers of the lists\<close>

text \<open>
  C8. As long as the main thread has not begun to free the vendor whose list a connection walks, the list is
  still allocated and is the list that was taken, for 180 seconds of that vendor's thread after it was taken,
  whatever all threads do.
\<close>

theorem server_reader_safe:
  assumes "server_reaches pb s" "sv_conns s fd = Some th" "th_at th = Walking k a ms"
    "th_age th < market_timeout" "freed_count s \<le> k"
  shows "heap (sv_vendors s ! k) a = Some (last (th_seen th)) \<and> pc (sv_vendors s ! k) \<noteq> Freed"
proof -
  let ?v = "sv_vendors s ! k"
  have main: "main_ok s" and ok: "conn_ok pb 3 th" "taken_ok s th"
    using conns_ok_reaches [OF assms(1)] main_ok_reaches [OF assms(1)] assms(2)
    by (auto simp: conns_ok_def main_ok_def)
  then have k: "k < 3" using assms(3) by (simp add: conn_ok_def)
  then have alive: "pc ?v \<noteq> Freed" using main assms(5) by (simp add: main_ok_def)
  have inv: "upd_inv (reader_view k (Some th) ?v)"
    using views_ok_reaches [OF assms(1)] main k assms(2) unfolding views_ok_def main_ok_def by metis
  then have "lists_ok ?v" "reader_ok (reader_view k (Some th) ?v)"
    using alive by (auto simp: upd_inv_defs reader_view_def)
  then have "a \<in> dom (heap ?v)"
    using assms(3,4) alive by (auto simp: lists_ok_def reader_ok_def reader_view_def holds_def)
  then show ?thesis
    using ok(2) assms(3) alive by (auto simp: taken_ok_def)
qed

definition ex_walk :: server where
  "ex_walk = ex_waiting\<lparr>sv_vendors := [found (Some 0) [market_new], upd_start True, upd_start True],
     sv_published := (\<lambda>k. [])(0 := [[market_new]]),
     sv_conns := [7 \<mapsto> ex_asked\<lparr>th_at := Walking 0 0 [market_new], th_seen := [[market_new]]\<rparr>]\<rparr>"

lemma ex_walk_reached: "server_reaches pb ex_walk"
proof -
  have 0: "sv_vendors ex_waiting = replicate 3 (upd_start True)" "sv_main ex_waiting = Loop"
      "sv_published ex_waiting = (\<lambda>k. [])" "holds 0 (sv_conns ex_waiting fd) = None" for fd
    by (simp_all add: ex_waiting_def ex_asked_def holds_def)
  have f: "published_list (found (Some 0) [market_new]) = [market_new]" "initialised (found (Some 0) [market_new])"
      "current (found (Some 0) [market_new]) = Some 0" "heap (found (Some 0) [market_new]) 0 = Some [market_new]"
      "pc (found (Some 0) [market_new]) = Pause"
    by (simp_all add: found_def new_list_def published_list_def)
  let ?s = "ex_waiting\<lparr>sv_vendors := [found (Some 0) [market_new], upd_start True, upd_start True],
     sv_published := (\<lambda>k. [])(0 := [[market_new]])\<rparr>"
  have r: "server_reaches pb ?s"
    using reaches_published [OF ex_waiting_reached, of 0 pb "Some 0" "[market_new]"] 0 f(1)
    by (simp add: numeral_eq_Suc)
  have th: "sv_conns ?s 7 = Some ex_asked" "th_at ex_asked = NextVendor 0"
    by (simp_all add: ex_waiting_def ex_asked_def)
  show ?thesis
    using server_reaches_step [OF r server_step.conn_takes [OF th]] f
    by (simp add: conn_vendor_def set_conn_def ex_walk_def ex_waiting_def ex_asked_def conn_start_def)
qed

theorem server_reader_safe_witness:
  "server_reaches wire ex_walk \<and> heap (sv_vendors ex_walk ! 0) 0 = Some [market_new]"
  using server_reader_safe [OF ex_walk_reached, of 7 _ 0 0 "[market_new]"] ex_walk_reached
  by (simp add: ex_walk_def ex_waiting_def ex_asked_def conn_start_def market_timeout_def freed_count_def)

subsection \<open>The end of the server\<close>

text \<open>The freeing of the vendors in their order can always be carried to its end.\<close>

lemma reaches_quiet:
  assumes "(quiet_step ^^ n) (sv_vendors s ! k) v'" "k < length (sv_vendors s)" "\<not> run_flag (sv_vendors s ! k)"
    "sv_main s = Joining k" "\<not> sv_run s"
  shows "\<exists>s'. (server_step pb)\<^sup>*\<^sup>* s s' \<and> sv_vendors s' = (sv_vendors s)[k := v'] \<and> sv_main s' = Joining k \<and>
    \<not> sv_run s' \<and> sv_conns s' = sv_conns s"
  using assms
proof (induction n arbitrary: s)
  case 0
  then show ?case by (intro exI [of _ s]) auto
next
  case (Suc n)
  obtain t where t: "quiet_step (sv_vendors s ! k) t" "(quiet_step ^^ n) t v'"
    using relpowp_Suc_D2 [OF Suc.prems(1)] by blast
  let ?s = "vendor_moves k t s"
  have step: "thread_step (sv_vendors s ! k) t" and keep: "keeps_apart k (sv_vendors s ! k) t s"
    using t(1) by (auto simp: quiet_step_def keeps_apart_def)
  have "s_total t \<le> s_total (sv_vendors s ! k)"
    using step Suc.prems(3) by (auto elim!: thread_stepE simp: new_list_def)
  then have conns: "sv_conns ?s = sv_conns s" by (simp add: vendor_moves_idle)
  have move: "server_step pb s ?s"
    by (rule server_step.vendor [OF Suc.prems(2) step keep]) (simp add: Suc.prems(4))
  obtain s' where "(server_step pb)\<^sup>*\<^sup>* ?s s'" "sv_vendors s' = (sv_vendors ?s)[k := v']" "sv_main s' = Joining k"
      "\<not> sv_run s'" "sv_conns s' = sv_conns ?s"
    using Suc.IH [of ?s] t(2) Suc.prems thread_step_alive [OF step] by auto
  then show ?case
    using move conns by (intro exI [of _ s']) (auto intro: converse_rtranclp_into_rtranclp)
qed

text \<open>The join of a vendor whose thread can still end: the main thread waits for it, then frees the vendor.\<close>

lemma reaches_joined:
  assumes "server_reaches pb s" "sv_main s = Freeing k" "k < 3" "\<not> sv_run s" "pc (sv_vendors s ! k) \<noteq> Lost"
  obtains s' v' where "(server_step pb)\<^sup>*\<^sup>* s s'" "sv_main s' = Joining k" "\<not> sv_run s'" "sv_conns s' = sv_conns s"
    "sv_vendors s' = (sv_vendors s)[k := v']" "pc v' = Done"
proof -
  have len: "k < length (sv_vendors s)" using main_ok_reaches [OF assms(1)] assms(3) by (simp add: main_ok_def)
  let ?s = "set_vendor k ((sv_vendors s ! k)\<lparr>run_flag := False\<rparr>) s\<lparr>sv_main := Joining k\<rparr>"
  have stop: "server_step pb s ?s" by (rule server_step.stop_vendor [OF assms(2) len])
  have r: "server_reaches pb ?s" by (rule server_reaches_step [OF assms(1) stop])
  have v: "sv_vendors ?s ! k = (sv_vendors s ! k)\<lparr>run_flag := False\<rparr>" using len by simp
  have inv: "upd_inv (sv_vendors ?s ! k)" by (rule vendor_inv [OF r assms(3)])
  have alive: "pc (sv_vendors ?s ! k) \<noteq> Freed" "pc (sv_vendors ?s ! k) \<noteq> Lost"
    using main_ok_reaches [OF assms(1)] assms(2,3,5) v by (simp_all add: main_ok_def freed_count_def)
  obtain n v' where q: "(quiet_step ^^ n) (sv_vendors ?s ! k) v'" "pc v' = Done"
    using quiet_end [OF inv _ alive] v by auto
  obtain s1 where "(server_step pb)\<^sup>*\<^sup>* ?s s1" "sv_vendors s1 = (sv_vendors ?s)[k := v']" "sv_main s1 = Joining k"
      "\<not> sv_run s1" "sv_conns s1 = sv_conns ?s"
    using reaches_quiet [OF q(1), of pb] v len assms(4) by auto
  then show ?thesis
    using that [of s1 v'] stop q(2) by (simp add: converse_rtranclp_into_rtranclp)
qed

lemma reaches_freed:
  assumes "server_reaches pb s" "sv_main s = Freeing k" "k < 3" "\<not> sv_run s" "pc (sv_vendors s ! k) \<noteq> Lost"
  shows "\<exists>s' v'. (server_step pb)\<^sup>*\<^sup>* s s' \<and> sv_main s' = Freeing (k + 1) \<and> \<not> sv_run s' \<and> sv_conns s' = sv_conns s \<and>
    sv_vendors s' = (sv_vendors s)[k := v']"
proof -
  have len: "k < length (sv_vendors s)" using main_ok_reaches [OF assms(1)] assms(3) by (simp add: main_ok_def)
  obtain s1 v1 where s1: "(server_step pb)\<^sup>*\<^sup>* s s1" "sv_main s1 = Joining k" "\<not> sv_run s1" "sv_conns s1 = sv_conns s"
      "sv_vendors s1 = (sv_vendors s)[k := v1]" "pc v1 = Done"
    by (rule reaches_joined [OF assms])
  let ?s2 = "set_vendor k (free_list (current (sv_vendors s1 ! k)) (sv_vendors s1 ! k) Freed) s1\<lparr>sv_main := Freeing (k + 1)\<rparr>"
  have "server_step pb s1 ?s2" by (rule server_step.free_vendor [OF s1(2)]) (simp add: s1(5,6) len)
  then have "(server_step pb)\<^sup>*\<^sup>* s ?s2"
    using s1(1) by (rule rtranclp.rtrancl_into_rtrancl [rotated])
  then show ?thesis
    using s1(3-5) by (intro exI [of _ ?s2]) auto
qed

lemma server_reaches_trans: "server_reaches pb s \<Longrightarrow> (server_step pb)\<^sup>*\<^sup>* s s' \<Longrightarrow> server_reaches pb s'"
  by (simp add: server_reaches_def)

lemma reaches_all_freed:
  assumes "server_reaches pb s" "sv_main s = Freeing k" "k \<le> 3" "\<not> sv_run s" "\<forall>j<3. pc (sv_vendors s ! j) \<noteq> Lost"
  shows "\<exists>s'. (server_step pb)\<^sup>*\<^sup>* s s' \<and> sv_main s' = Freeing 3 \<and> \<not> sv_run s' \<and> sv_conns s' = sv_conns s"
  using assms
proof (induction "3 - k" arbitrary: k s)
  case 0
  then show ?case by auto
next
  case (Suc d)
  then have k: "k < 3" and d: "d = 3 - (k + 1)" by simp_all
  obtain s1 v1 where s1: "(server_step pb)\<^sup>*\<^sup>* s s1" "sv_main s1 = Freeing (k + 1)" "\<not> sv_run s1"
      "sv_conns s1 = sv_conns s" "sv_vendors s1 = (sv_vendors s)[k := v1]"
    using reaches_freed [OF Suc.prems(1,2) k Suc.prems(4)] Suc.prems(5) k by blast
  have r1: "server_reaches pb s1" by (rule server_reaches_trans [OF Suc.prems(1) s1(1)])
  have "pc (sv_vendors s1 ! k) = Freed" using main_ok_reaches [OF r1] s1(2) k by (auto simp: main_ok_def freed_count_def)
  then have "\<forall>j<3. pc (sv_vendors s1 ! j) \<noteq> Lost"
    using Suc.prems(5) s1(5) by (metis nth_list_update_neq pc.distinct)
  then obtain s' where "(server_step pb)\<^sup>*\<^sup>* s1 s'" "sv_main s' = Freeing 3" "\<not> sv_run s'" "sv_conns s' = sv_conns s1"
    using Suc.hyps(1) [OF d r1 s1(2) _ s1(3)] k by auto
  then show ?case using s1 by (metis rtranclp_trans)
qed

text \<open>From the accept loop: with \<^verbatim>\<open>run\<close> cleared the main thread comes to the freeing, once \<^verbatim>\<open>accept\<close> returns.\<close>

lemma reaches_freeing:
  assumes "server_reaches pb s" "\<not> sv_run s" "sv_main s = Loop \<or> sv_main s = Accept"
  shows "\<exists>s'. (server_step pb)\<^sup>*\<^sup>* s s' \<and> sv_main s' = Freeing 0 \<and> \<not> sv_run s' \<and> sv_conns s' = sv_conns s \<and>
    sv_vendors s' = sv_vendors s"
proof -
  have loop: "(server_step pb)\<^sup>*\<^sup>* (s\<lparr>sv_main := Loop\<rparr>) (s\<lparr>sv_main := Freeing 0\<rparr>)"
    using server_step.loop_off [of "s\<lparr>sv_main := Loop\<rparr>" pb] assms(2) by auto
  have "(server_step pb)\<^sup>*\<^sup>* s (s\<lparr>sv_main := Loop\<rparr>)"
  proof (cases "sv_main s = Accept")
    case True
    then show ?thesis using server_step.accept_late [of s pb] assms(2) by auto
  next
    case False
    then have "s\<lparr>sv_main := Loop\<rparr> = s" using assms(3) by simp
    then show ?thesis by simp
  qed
  from rtranclp_trans [OF this loop] show ?thesis
    using assms(2) by (intro exI [of _ "s\<lparr>sv_main := Freeing 0\<rparr>"]) simp
qed

text \<open>A vendor whose update thread is in a call that does not return stays so; the main thread cannot pass it.\<close>

lemma server_step_lost:
  "server_step pb s s' \<Longrightarrow> k < length (sv_vendors s) \<Longrightarrow> pc (sv_vendors s ! k) = Lost \<Longrightarrow>
    k < length (sv_vendors s') \<and> pc (sv_vendors s' ! k) = Lost"
proof (induction rule: server_step.induct)
  case (free_vendor s j)
  then have "j \<noteq> k" by auto
  then show ?case using free_vendor.prems by simp
next
  case (vendor j s v')
  then have "j \<noteq> k" by (auto elim!: thread_stepE)
  then show ?case using vendor.prems by simp
qed (auto simp: nth_list_update)

lemma server_lost:
  "(server_step pb)\<^sup>*\<^sup>* s s' \<Longrightarrow> k < length (sv_vendors s) \<Longrightarrow> pc (sv_vendors s ! k) = Lost \<Longrightarrow>
    k < length (sv_vendors s') \<and> pc (sv_vendors s' ! k) = Lost"
  by (induction rule: rtranclp_induct) (auto dest: server_step_lost)

lemma lost_no_return:
  assumes "server_reaches pb s" "k < 3" "pc (sv_vendors s ! k) = Lost" "(server_step pb)\<^sup>*\<^sup>* s s'"
  shows "sv_main s' \<noteq> Returned"
proof
  assume ret: "sv_main s' = Returned"
  have "k < length (sv_vendors s)" using main_ok_reaches [OF assms(1)] assms(2) by (simp add: main_ok_def)
  then have "pc (sv_vendors s' ! k) = Lost" using server_lost [OF assms(4)] assms(3) by blast
  moreover have "pc (sv_vendors s' ! k) = Freed"
    using main_ok_reaches [OF server_reaches_trans [OF assms(1,4)]] ret assms(2) by (simp add: main_ok_def freed_count_def)
  ultimately show False by simp
qed

lemma can_return:
  assumes "server_reaches pb s" "\<not> sv_run s" "sv_main s = Loop \<or> sv_main s = Accept" "\<forall>k<3. pc (sv_vendors s ! k) \<noteq> Lost"
  shows "\<exists>s'. (server_step pb)\<^sup>*\<^sup>* s s' \<and> sv_main s' = Returned \<and> map pc (sv_vendors s') = replicate 3 Freed \<and>
    sv_conns s' = sv_conns s"
proof -
  obtain s1 where s1: "(server_step pb)\<^sup>*\<^sup>* s s1" "sv_main s1 = Freeing 0" "\<not> sv_run s1" "sv_conns s1 = sv_conns s"
      "sv_vendors s1 = sv_vendors s"
    using reaches_freeing [OF assms(1-3)] by blast
  obtain s2 where s2: "(server_step pb)\<^sup>*\<^sup>* s1 s2" "sv_main s2 = Freeing 3" "sv_conns s2 = sv_conns s1"
    using reaches_all_freed [OF server_reaches_trans [OF assms(1) s1(1)] s1(2) _ s1(3)] assms(4) s1(5) by auto
  have r2: "server_reaches pb s2" using server_reaches_trans assms(1) s1(1) s2(1) by blast
  have len: "length (sv_vendors s2) = 3" and fr: "\<forall>k<3. pc (sv_vendors s2 ! k) = Freed"
    using main_ok_reaches [OF r2] s2(2) by (auto simp: main_ok_def freed_count_def)
  have "map pc (sv_vendors s2) = replicate 3 Freed"
    using len fr by (intro nth_equalityI) simp_all
  moreover have "(server_step pb)\<^sup>*\<^sup>* s (s2\<lparr>sv_main := Returned\<rparr>)"
    by (rule rtranclp.rtrancl_into_rtrancl [OF rtranclp_trans [OF s1(1) s2(1)]], rule server_step.main_end [OF s2(2)])
      (simp add: len)
  ultimately show ?thesis
    using s1(4) s2(3) by (intro exI [of _ "s2\<lparr>sv_main := Returned\<rparr>"]) simp
qed

text \<open>
  C37. Once \<^verbatim>\<open>run\<close> is cleared while the main thread is in its accept loop, the shut-down depends on the update
  threads. If none of them is in a call of \<^verbatim>\<open>markets_get\<close> that does not return, there is a way on which \<^verbatim>\<open>main\<close>
  returns with all vendors freed, without a new connection thread and without any step of the others (on this way
  \<^verbatim>\<open>accept\<close> returns, interrupted or with a last connection, and so do the last calls of \<^verbatim>\<open>markets_get\<close>). If one of
  them is, \<^verbatim>\<open>main\<close> never returns, whatever the threads do: the join of \<^verbatim>\<open>vendor_free\<close> waits for ever.
\<close>

theorem server_shuts_down:
  assumes "server_reaches pb s" "\<not> sv_run s" "sv_main s = Loop \<or> sv_main s = Accept"
  shows "if Lost \<in> pc ` set (sv_vendors s) then \<forall>s'. (server_step pb)\<^sup>*\<^sup>* s s' \<longrightarrow> sv_main s' \<noteq> Returned
    else \<exists>s'. (server_step pb)\<^sup>*\<^sup>* s s' \<and> sv_main s' = Returned \<and> map pc (sv_vendors s') = replicate 3 Freed \<and>
      sv_conns s' = sv_conns s"
proof -
  have len: "length (sv_vendors s) = 3" using main_ok_reaches [OF assms(1)] by (simp add: main_ok_def)
  show ?thesis
  proof (cases "Lost \<in> pc ` set (sv_vendors s)")
    case True
    then obtain k where "k < 3" "pc (sv_vendors s ! k) = Lost"
      using len by (auto simp: in_set_conv_nth)
    then show ?thesis using True lost_no_return [OF assms(1)] by simp
  next
    case False
    then have "\<forall>k<3. pc (sv_vendors s ! k) \<noteq> Lost" using len by (metis image_eqI nth_mem)
    then show ?thesis using False can_return [OF assms] by simp
  qed
qed

text \<open>The parser of poloniex hangs before the connections and the shut-down.\<close>

definition ex_lost :: server where
  "ex_lost = main_init\<lparr>sv_vendors := [upd_start True, upd_start True, (upd_start True)\<lparr>pc := Lost\<rparr>]\<rparr>"

lemma ex_lost_reached: "server_reaches pb ex_lost"
  using reaches_lost [OF server_reaches_start, of 2 pb] by (simp add: ex_lost_def holds_def numeral_eq_Suc)

theorem server_shuts_down_witness:
  "(\<exists>s'. (server_step wire)\<^sup>*\<^sup>* (terminate ex_reply) s' \<and> sv_main s' = Returned \<and>
      map pc (sv_vendors s') = replicate 3 Freed \<and> sv_conns s' = sv_conns ex_reply) \<and>
    server_reaches wire ex_lost \<and> (\<nexists>s'. (server_step wire)\<^sup>*\<^sup>* (terminate ex_lost) s' \<and> sv_main s' = Returned)"
  using server_shuts_down [OF server_reaches_step [OF ex_reply_reached server_step.signal], of wire]
    server_shuts_down [OF server_reaches_step [OF ex_lost_reached server_step.signal], of wire] ex_lost_reached
  by (simp add: ex_reply_def ex_ready_def ex_waiting_def ex_lost_def terminate_def)

lemma server_step_stopped:
  "server_step pb s s' \<Longrightarrow> \<not> sv_run s \<Longrightarrow> \<not> sv_run s' \<and> dom (sv_conns s') = dom (sv_conns s)"
  by (induction rule: server_step.induct) auto

text \<open>
  When \<^verbatim>\<open>run\<close> is cleared it stays cleared, no connection is accepted from then on, and the threads of the
  connections and vendors are the only ones that go on.
\<close>

lemma server_stays_stopped:
  assumes "(server_step pb)\<^sup>*\<^sup>* s s'" "\<not> sv_run s"
  shows "\<not> sv_run s' \<and> dom (sv_conns s') = dom (sv_conns s)"
  using assms
proof (induction rule: rtranclp_induct)
  case (step s1 s2)
  then show ?case using server_step_stopped [OF step.hyps(2)] by auto
qed simp

text \<open>A connection before a vendor: whatever the threads did, taking the list faults exactly when the main
  thread has freed this vendor.\<close>

lemma conn_vendor_faults:
  assumes "server_reaches pb s" "th_at th = NextVendor k" "k < 3"
  shows "th_at (conn_vendor k (sv_vendors s ! k) th) = Broken BadPointer \<longleftrightarrow> k < freed_count s"
proof -
  let ?v = "sv_vendors s ! k"
  have freed: "pc ?v = Freed \<longleftrightarrow> k < freed_count s"
    using main_ok_reaches [OF assms(1)] assms(3) by (simp add: main_ok_def)
  have inv: "upd_inv ?v" by (rule vendor_inv [OF assms(1,3)])
  show ?thesis
  proof (cases "pc ?v = Freed \<or> current ?v = None")
    case True
    then show ?thesis using assms(2) unfolding freed [symmetric] by (auto simp: conn_vendor_def)
  next
    case False
    then obtain a where a: "current ?v = Some a" "pc ?v \<noteq> Freed" by blast
    then have "a \<in> dom (heap ?v)" using inv by (simp add: upd_inv_def lists_ok_def)
    then show ?thesis using assms(2) a unfolding freed [symmetric] by (auto simp: conn_vendor_def)
  qed
qed

text \<open>
  C38. The shut-down does not wait for the connection threads. There is a run in which \<^verbatim>\<open>run\<close> is cleared and the
  main thread has joined the update thread of the first vendor, while a connection that has asked for the trading
  pairs is about to look at that vendor; at this moment the look is harmless. Then \<^verbatim>\<open>vendor_free\<close> frees the vendor,
  the connection is where it was, and the same step of it follows the pointer to the freed vendor.
\<close>

theorem server_use_after_free:
  "\<exists>s0 s1 s2 th. server_reaches pb s0 \<and> \<not> sv_run s0 \<and> sv_main s0 = Joining 0 \<and> pc (sv_vendors s0 ! 0) = Done \<and>
    sv_conns s0 7 = Some th \<and> th_at th = NextVendor 0 \<and> th_reads th = [Some bridge_command] \<and>
    th_at (conn_vendor 0 (sv_vendors s0 ! 0) th) \<noteq> Broken BadPointer \<and>
    server_step pb s0 s1 \<and> sv_main s1 = Freeing 1 \<and> pc (sv_vendors s1 ! 0) = Freed \<and> sv_conns s1 7 = Some th \<and>
    server_step pb s1 s2 \<and> s2 = set_conn 7 (th\<lparr>th_at := Broken BadPointer\<rparr>) s1"
proof -
  have r: "server_reaches pb (terminate ex_waiting)"
    by (rule server_reaches_step [OF ex_waiting_reached server_step.signal])
  have s: "\<not> sv_run (terminate ex_waiting)" "sv_main (terminate ex_waiting) = Loop"
    by (simp_all add: ex_waiting_def)
  obtain s' where s': "(server_step pb)\<^sup>*\<^sup>* (terminate ex_waiting) s'" "sv_main s' = Freeing 0" "\<not> sv_run s'"
      "sv_conns s' = sv_conns ex_waiting" "sv_vendors s' = replicate 3 (upd_start True)"
    using reaches_freeing [OF r s(1)] s(2) by (auto simp: ex_waiting_def)
  have r': "server_reaches pb s'" by (rule server_reaches_trans [OF r s'(1)])
  have start: "pc (sv_vendors s' ! 0) \<noteq> Lost" by (simp add: s'(5) upd_start_def)
  obtain s0 v where s0: "(server_step pb)\<^sup>*\<^sup>* s' s0" "sv_main s0 = Joining 0" "\<not> sv_run s0" "sv_conns s0 = sv_conns s'"
      "sv_vendors s0 = (sv_vendors s')[0 := v]" "pc v = Done"
    by (rule reaches_joined [OF r' s'(2) _ s'(3) start]) simp
  have r0: "server_reaches pb s0" by (rule server_reaches_trans [OF r' s0(1)])
  have v0: "sv_vendors s0 ! 0 = v" by (simp add: s0(5) s'(5))
  have th: "sv_conns s0 7 = Some ex_asked" "th_at ex_asked = NextVendor 0" "th_reads ex_asked = [Some bridge_command]"
    using s0(4) s'(4) by (simp_all add: ex_waiting_def ex_asked_def)
  have ok: "th_at (conn_vendor 0 v ex_asked) \<noteq> Broken BadPointer"
    using conn_vendor_faults [OF r0 th(2), unfolded v0] s0(2) by (simp add: freed_count_def)
  let ?s1 = "set_vendor 0 (free_list (current (sv_vendors s0 ! 0)) (sv_vendors s0 ! 0) Freed) s0\<lparr>sv_main := Freeing (0 + 1)\<rparr>"
  have 1: "server_step pb s0 ?s1" by (rule server_step.free_vendor [OF s0(2)]) (simp add: v0 s0(6))
  have len: "0 < length (sv_vendors ?s1)" using s0(5) s'(5) by simp
  have "pc (sv_vendors ?s1 ! 0) = Freed \<longleftrightarrow> 0 < freed_count ?s1"
    using main_ok_reaches [OF server_reaches_step [OF r0 1]] unfolding main_ok_def by (meson zero_less_numeral)
  then have freed: "pc (sv_vendors ?s1 ! 0) = Freed" by (simp only: freed_count_def) simp
  have "server_step pb ?s1 (set_conn 7 (conn_vendor 0 (sv_vendors ?s1 ! 0) ex_asked) ?s1)"
    by (rule server_step.conn_takes) (use th len in simp_all)
  moreover have "conn_vendor 0 (sv_vendors ?s1 ! 0) ex_asked = ex_asked\<lparr>th_at := Broken BadPointer\<rparr>"
    unfolding conn_vendor_def by (rule if_P [OF freed])
  ultimately have 2: "server_step pb ?s1 (set_conn 7 (ex_asked\<lparr>th_at := Broken BadPointer\<rparr>) ?s1)" by simp
  have m: "sv_main ?s1 = Freeing 1" "sv_conns ?s1 7 = Some ex_asked" using th by simp_all
  have d: "pc (sv_vendors s0 ! 0) = Done" "th_at (conn_vendor 0 (sv_vendors s0 ! 0) ex_asked) \<noteq> Broken BadPointer"
    using s0(6) ok v0 by simp_all
  show ?thesis
    by (intro exI conjI) (rule r0 s0(2,3) d th 1 m freed 2 refl)+
qed

end
