(* ===== verification/ServerRun.thy ===== *)
theory ServerRun
  imports ServerSpec
begin

section \<open>A connection that is served\<close>

text \<open>
  Progress of one connection: while the main thread accepts connections and every vendor has its first list, the
  steps of the connection alone lead from its start to its reply, through every market of every vendor. The other
  threads need not do anything for it.
\<close>

definition accepting :: "server \<Rightarrow> bool" where
  "accepting s \<longleftrightarrow> sv_main s = Loop \<or> sv_main s = Accept"

lemma accepting_alive: "accepting s \<Longrightarrow> sv_main s \<notin> {Returned, Stopped}"
  by (auto simp: accepting_def)

lemma accepting_set_conn [simp]: "accepting (set_conn fd th s) = accepting s"
  by (simp add: accepting_def set_conn_def)

lemma set_conn_twice [simp]: "set_conn fd th' (set_conn fd th s) = set_conn fd th' s"
  by (simp add: set_conn_def)

lemma set_conn_conns [simp]: "sv_conns (set_conn fd th s) fd = Some th"
  by (simp add: set_conn_def)

lemma set_conn_same: "sv_conns s fd = Some th \<Longrightarrow> set_conn fd th s = s"
  by (cases s) (auto simp: set_conn_def fun_eq_iff)

subsection \<open>The request\<close>

lemma conn_decides_pairs: "conn_decide (map Some bridge_command @ [Some NUL]) = NextVendor 0"
  using strn_eq_text [of bridge_command "''EXIT''" "[]" 4] strn_eq_text [of bridge_command "''trading_pairs''" "[]" 13]
  by (simp add: conn_decide_def getCommand_def bridge_command_def NUL_def)

lemma conn_reads_command: "conn_read ([], 0) (Some bridge_command) = Asked (map Some bridge_command @ [Some NUL])"
  by (simp add: conn_read_def buffer_append_def bridge_command_def)

text \<open>The sequential handler answers this request with a result.\<close>

lemma do_connect_command:
  "do_connect pb vs [Some bridge_command] = cbind (vendor_get_all_trading_pairs vs) (reply_of_pairs pb)"
proof -
  have "read_loop ([], 0) [Some bridge_command] = Inr (map Some bridge_command @ [Some NUL], length bridge_command)"
    by (simp add: buffer_append_def bridge_command_def)
  from do_connect_decided(2) [OF this conn_decides_pairs] show ?thesis .
qed

lemma pairs_reply:
  "do_connect pb vs [Some bridge_command] = Inr r \<Longrightarrow> r \<noteq> ShutDown \<and> r \<noteq> Silent"
  by (auto simp: do_connect_command reply_of_pairs_def cbind_Inr_iff split: if_splits)

lemma serve_request:
  assumes "accepting s" "sv_conns s fd = Some conn_start"
  shows "(server_step pb)\<^sup>*\<^sup>* s (set_conn fd ex_asked s)"
proof -
  let ?b = "map Some bridge_command @ [Some NUL]"
  let ?th = "conn_start\<lparr>th_at := Asked ?b, th_reads := [Some bridge_command]\<rparr>"
  have "server_step pb s (set_conn fd ?th s)"
    using server_step.conn_reads [OF assms(2) _ accepting_alive [OF assms(1)], of "([], 0)" pb "Some bridge_command"]
    by (simp add: conn_start_def conn_reads_command)
  moreover have "server_step pb (set_conn fd ?th s) (set_conn fd ex_asked s)"
  proof -
    have "server_step pb (set_conn fd ?th s) (set_conn fd (?th\<lparr>th_at := conn_decide ?b\<rparr>) (set_conn fd ?th s)
        \<lparr>sv_run := sv_run (set_conn fd ?th s) \<and> conn_decide ?b \<noteq> Answered ShutDown\<rparr>)"
      by (rule server_step.conn_decides) (use assms(1) in \<open>auto simp: set_conn_def accepting_def\<close>)
    then show ?thesis
      by (simp add: conn_decides_pairs ex_asked_def conn_start_def set_conn_def)
  qed
  ultimately show ?thesis by simp
qed

subsection \<open>One vendor\<close>

lemma serve_list:
  assumes "accepting s" "heap (sv_vendors s ! k) a \<noteq> None"
  shows "sv_conns s fd = Some th \<Longrightarrow> th_at th = Walking k a ms \<Longrightarrow>
    pairs_of_markets (th_table th) (th_keys th) ms = Inr (t, ks) \<Longrightarrow>
    (server_step pb)\<^sup>*\<^sup>* s (set_conn fd (th\<lparr>th_at := Walking k a [], th_table := t, th_keys := ks\<rparr>) s)"
  using assms
proof (induction ms arbitrary: th s)
  case Nil
  then have "th\<lparr>th_at := Walking k a [], th_table := t, th_keys := ks\<rparr> = th" by (cases th) simp
  then show ?case using Nil set_conn_same by simp
next
  case (Cons m ms)
  obtain t1 ks1 where 1: "pairs_of_markets (th_table th) (th_keys th) [m] = Inr (t1, ks1)"
      "pairs_of_markets t1 ks1 ms = Inr (t, ks)"
  proof -
    have "cbind (pairs_of_markets (th_table th) (th_keys th) [m]) (\<lambda>(t, ks). pairs_of_markets t ks ms) = Inr (t, ks)"
      using Cons.prems(3) pairs_of_markets_append [of "th_table th" "th_keys th" "[m]" ms]
      by (simp del: pairs_of_markets.simps)
    then show ?thesis
      using that by (auto simp: cbind_Inr_iff simp del: pairs_of_markets.simps)
  qed
  let ?th = "th\<lparr>th_at := Walking k a ms, th_table := t1, th_keys := ks1\<rparr>"
  have "server_step pb s (set_conn fd (conn_walk k a (m # ms) (sv_vendors s ! k) th) s)"
    by (rule server_step.conn_walks [OF Cons.prems(1,2) accepting_alive [OF Cons.prems(4)]])
  then have "server_step pb s (set_conn fd ?th s)"
    using 1(1) Cons.prems(5) by (simp add: conn_walk_def del: pairs_of_markets.simps)
  moreover have "(server_step pb)\<^sup>*\<^sup>* (set_conn fd ?th s)
      (set_conn fd (?th\<lparr>th_at := Walking k a [], th_table := t, th_keys := ks\<rparr>) (set_conn fd ?th s))"
    by (rule Cons.IH) (use Cons.prems 1(2) in \<open>simp_all add: set_conn_def accepting_def\<close>)
  ultimately show ?case by simp
qed

text \<open>A thread before a vendor with what it has collected.\<close>

definition before_vendor :: "nat \<Rightarrow> market kh \<Rightarrow> string list \<Rightarrow> market list list \<Rightarrow> conn_thread \<Rightarrow> bool" where
  "before_vendor k t ks seen th \<longleftrightarrow> th_at th = NextVendor k \<and> th_table th = t \<and> th_keys th = ks \<and> th_seen th = seen \<and>
     th_reads th = [Some bridge_command]"

lemma serve_vendor:
  assumes "accepting s" "sv_conns s fd = Some th" "before_vendor k t ks seen th" "k < length (sv_vendors s)"
    and "initialised (sv_vendors s ! k)" "pc (sv_vendors s ! k) \<noteq> Freed" "lists_ok (sv_vendors s ! k)"
    and "pairs_of_markets t ks (published_list (sv_vendors s ! k)) = Inr (t', ks')"
  obtains th' where "(server_step pb)\<^sup>*\<^sup>* s (set_conn fd th' s)"
    "before_vendor (k + 1) t' ks' (seen @ [published_list (sv_vendors s ! k)]) th'"
proof -
  let ?v = "sv_vendors s ! k"
  have th: "th_at th = NextVendor k" using assms(3) by (simp add: before_vendor_def)
  have take: "server_step pb s (set_conn fd (conn_vendor k ?v th) s)"
    by (rule server_step.conn_takes [OF assms(2) th assms(4) accepting_alive [OF assms(1)]])
  show ?thesis
  proof (cases "current ?v")
    case None
    let ?th = "th\<lparr>th_at := NextVendor (k + 1), th_seen := th_seen th @ [[]]\<rparr>"
    have "published_list ?v = []" using None by (simp add: published_list_def)
    moreover have "conn_vendor k ?v th = ?th" using assms(5,6) None by (simp add: conn_vendor_def)
    ultimately show ?thesis
      using that [of ?th] take assms(3,8) by (auto simp: before_vendor_def)
  next
    case (Some a)
    then obtain ms where ms: "heap ?v a = Some ms"
      using assms(6,7) by (auto simp: lists_ok_def)
    then have pub: "published_list ?v = ms" using Some by (simp add: published_list_def)
    let ?th = "th\<lparr>th_at := Walking k a ms, th_age := 0, th_seen := th_seen th @ [ms]\<rparr>"
    let ?th' = "?th\<lparr>th_at := Walking k a [], th_table := t', th_keys := ks'\<rparr>"
    let ?s = "set_conn fd ?th s" and ?s' = "set_conn fd ?th' s"
    have "conn_vendor k ?v th = ?th" using assms(5,6) Some ms by (simp add: conn_vendor_def)
    then have 1: "server_step pb s ?s" using take by simp
    have "(server_step pb)\<^sup>*\<^sup>* ?s (set_conn fd ?th' ?s)"
      by (rule serve_list [where ms = ms])
        (use assms(1,3,8) ms pub in \<open>simp_all add: set_conn_def accepting_def before_vendor_def\<close>)
    then have 2: "(server_step pb)\<^sup>*\<^sup>* ?s ?s'" by simp
    have "server_step pb ?s' (set_conn fd (conn_walk k a [] (sv_vendors ?s' ! k) ?th') ?s')"
      by (rule server_step.conn_walks) (use assms(1) in \<open>auto simp: set_conn_def accepting_def\<close>)
    then have 3: "server_step pb ?s' (set_conn fd (?th'\<lparr>th_at := NextVendor (k + 1)\<rparr>) s)"
      using assms(6) by (simp add: conn_walk_def set_conn_def)
    show ?thesis
      using that [of "?th'\<lparr>th_at := NextVendor (k + 1)\<rparr>"] 1 2 3 assms(3) pub
      by (auto simp: before_vendor_def intro: rtranclp_trans converse_rtranclp_into_rtranclp)
  qed
qed

subsection \<open>All vendors\<close>

lemma snapshot_simps [simp]: "current_market (snapshot ms) = ms" "is_initialized (snapshot ms)"
  by (simp_all add: snapshot_def)

lemma serve_vendors:
  assumes "accepting s" "\<forall>v\<in>set (sv_vendors s). initialised v \<and> pc v \<noteq> Freed \<and> lists_ok v"
  shows "sv_conns s fd = Some th \<Longrightarrow> before_vendor k t ks seen th \<Longrightarrow> sv_vendors s = us @ vs \<Longrightarrow> length us = k \<Longrightarrow>
    pairs_of_vendors t ks (map (\<lambda>v. snapshot (published_list v)) vs) = Inr (t', ks') \<Longrightarrow>
    \<exists>th'. (server_step pb)\<^sup>*\<^sup>* s (set_conn fd th' s) \<and>
      before_vendor (length (sv_vendors s)) t' ks' (seen @ map published_list vs) th'"
  using assms
proof (induction vs arbitrary: us k t ks seen th s)
  case Nil
  then show ?case using set_conn_same [of s fd th] by (intro exI [of _ th]) simp
next
  case (Cons v vs)
  have v: "sv_vendors s ! k = v" "k < length (sv_vendors s)" "v \<in> set (sv_vendors s)"
    using Cons.prems(3,4) by auto
  obtain t1 ks1 where 1: "pairs_of_markets t ks (published_list v) = Inr (t1, ks1)"
      "pairs_of_vendors t1 ks1 (map (\<lambda>v. snapshot (published_list v)) vs) = Inr (t', ks')"
    using Cons.prems(5) by (auto simp: cbind_Inr_iff)
  obtain th1 where th1: "(server_step pb)\<^sup>*\<^sup>* s (set_conn fd th1 s)"
      "before_vendor (k + 1) t1 ks1 (seen @ [published_list v]) th1"
    using serve_vendor [OF Cons.prems(6,1,2) v(2), of t1 ks1 pb] Cons.prems(7) v 1(1) by metis
  have "\<exists>th'. (server_step pb)\<^sup>*\<^sup>* (set_conn fd th1 s) (set_conn fd th' (set_conn fd th1 s)) \<and>
      before_vendor (length (sv_vendors (set_conn fd th1 s))) t' ks' ((seen @ [published_list v]) @ map published_list vs) th'"
    by (rule Cons.IH [OF _ th1(2), of _ "us @ [v]"])
      (use Cons.prems(3,4,6,7) 1(2) in \<open>simp_all add: set_conn_def accepting_def\<close>)
  then show ?case
    using th1(1) by (auto simp: set_conn_def intro: rtranclp_trans)
qed

lemma accepting_vendors:
  assumes "server_reaches pb s" "accepting s"
  shows "length (sv_vendors s) = 3" "\<forall>v\<in>set (sv_vendors s). pc v \<noteq> Freed \<and> lists_ok v"
proof -
  have three: "length (sv_vendors s) = 3 \<and> (\<forall>k<3. pc (sv_vendors s ! k) \<noteq> Freed)"
    using main_ok_reaches [OF assms(1)] assms(2) by (auto simp: main_ok_def accepting_def freed_count_def)
  then show "length (sv_vendors s) = 3" by simp
  show "\<forall>v\<in>set (sv_vendors s). pc v \<noteq> Freed \<and> lists_ok v"
  proof
    fix v assume "v \<in> set (sv_vendors s)"
    then obtain k where "k < 3" "v = sv_vendors s ! k" using three by (auto simp: in_set_conv_nth)
    then show "pc v \<noteq> Freed \<and> lists_ok v"
      using three vendor_inv [OF assms(1), of k] by (auto simp: upd_inv_def)
  qed
qed

text \<open>The list behind the pointer of an initialised vendor is one it has published.\<close>

lemma current_published:
  assumes "server_reaches pb s" "accepting s" "k < 3" "initialised (sv_vendors s ! k)"
  shows "published_list (sv_vendors s ! k) \<in> set (sv_published s k)"
proof -
  let ?v = "sv_vendors s ! k"
  have "covers (set (sv_published s k)) ?v" "lists_ok ?v" "pc ?v \<noteq> Freed"
    using published_ok_reaches [OF assms(1)] accepting_vendors [OF assms(1,2)] assms(3)
    by (auto simp: published_ok_def)
  then show ?thesis
    using assms(4) by (auto simp: covers_def published_list_def lists_ok_def ran_def split: option.splits)
qed

text \<open>From the accepted connection to its reply.\<close>

lemma serve_reply:
  assumes "server_reaches pb s" "accepting s" "sv_conns s fd = Some conn_start"
    and "\<forall>v\<in>set (sv_vendors s). initialised v"
    and "do_connect pb (map (\<lambda>v. snapshot (published_list v)) (sv_vendors s)) [Some bridge_command] = Inr r"
  obtains th' where "(server_step pb)\<^sup>*\<^sup>* s (set_conn fd th' s)" "th_at th' = Answered r"
    "th_seen th' = map published_list (sv_vendors s)" "th_reads th' = [Some bridge_command]"
proof -
  let ?vs = "map (\<lambda>v. snapshot (published_list v)) (sv_vendors s)"
  note three = accepting_vendors [OF assms(1,2)]
  then have ok: "\<forall>v\<in>set (sv_vendors s). initialised v \<and> pc v \<noteq> Freed \<and> lists_ok v"
    using assms(4) by blast
  have answer: "cbind (vendor_get_all_trading_pairs ?vs) (reply_of_pairs pb) = Inr r"
    using assms(5) by (simp add: do_connect_command)
  then obtain t ks where t: "pairs_of_vendors kh_init [] ?vs = Inr (t, ks)"
    by (auto simp: vendor_get_all_trading_pairs_def pairs_and_keys_def cbind_Inr_iff)
  have "vendor_get_all_trading_pairs ?vs = kh_all_values t"
    using t by (cases "kh_all_values t") (simp_all add: vendor_get_all_trading_pairs_def pairs_and_keys_def)
  then have reply: "conn_answer pb t = Answered r"
    using answer by (simp add: conn_answer_def)
  have start: "(server_step pb)\<^sup>*\<^sup>* s (set_conn fd ex_asked s)"
    by (rule serve_request [OF assms(2,3)])
  have "before_vendor 0 kh_init [] [] ex_asked"
    by (simp add: before_vendor_def ex_asked_def conn_start_def)
  then obtain th where th: "(server_step pb)\<^sup>*\<^sup>* (set_conn fd ex_asked s) (set_conn fd th s)"
      "before_vendor 3 t ks (map published_list (sv_vendors s)) th"
    using serve_vendors [of "set_conn fd ex_asked s" fd ex_asked 0 kh_init "[]" "[]" "[]" "sv_vendors s" t ks pb] ok t
      three(1) assms(2) by (auto simp: set_conn_def accepting_def)
  let ?th' = "th\<lparr>th_at := conn_answer pb (th_table th)\<rparr>"
  have "server_step pb (set_conn fd th s) (set_conn fd ?th' (set_conn fd th s))"
    by (rule server_step.conn_answers [where k = 3])
      (use th(2) three(1) assms(2) in \<open>auto simp: set_conn_def accepting_def before_vendor_def\<close>)
  then have "(server_step pb)\<^sup>*\<^sup>* s (set_conn fd ?th' s)"
    using start th(1) by simp
  then show ?thesis
    using that [of ?th'] th(2) reply by (simp add: before_vendor_def)
qed

end
