(* ===== verification/Serving.thy ===== *)
theory Serving
  imports Pipeline ServerRun
begin

section \<open>The client of the running server\<close>

text \<open>
  The whole program: the update threads publish lists the modules of the exchanges make of documented answers, the
  connections of the running server walk them, and the CGI client prints what it receives. One theorem is about the
  replies of every run, the other says that a run to a reply exists.
\<close>

subsection \<open>Documented lists\<close>

text \<open>A list the module of vendor \<open>k\<close> makes of some documented answer of its exchange, with no tilde in the names of
  the base currencies.\<close>

definition answered :: "nat \<Rightarrow> curl_perform \<Rightarrow> jsmntok list \<Rightarrow> answers \<Rightarrow> bool" where
  "answered k perform ts0 x =
     (if k = 0 then btc38_answers perform ts0 x
      else if k = 1 then bittrex_answers perform ts0 x else poloniex_answers perform ts0 x)"

definition documented :: "nat \<Rightarrow> market list \<Rightarrow> bool" where
  "documented k ms \<longleftrightarrow> list_all no_tilde ms \<and>
     (\<exists>perform ts0 x. answered k perform ts0 x \<and>
       call_markets_get perform True ts0 (markets_get (vendors_get_all ! k)) = Inr ms)"

lemma documented_plain:
  assumes "documented k ms" "k < 3"
  shows "list_all plain ms"
proof -
  obtain perform ts0 x where x: "answered k perform ts0 x" "list_all no_tilde ms"
      "call_markets_get perform True ts0 (markets_get (vendors_get_all ! k)) = Inr ms"
    using assms(1) by (auto simp: documented_def)
  consider "k = 0" | "k = 1" | "k = 2" using assms(2) by linarith
  then have "\<forall>m\<in>set ms. named m \<and> fee m = dbl_0_7"
  proof cases
    case 1
    then show ?thesis
      using x markets_fetched(1) modules_named(1) by (auto simp: answered_def call_markets_get_def)
  next
    case 2
    then show ?thesis
      using x markets_fetched(2) modules_named(2) by (auto simp: answered_def call_markets_get_def)
  next
    case 3
    then show ?thesis
      using x markets_fetched(3) modules_named(3) [of x]
      by (auto simp: answered_def call_markets_get_def poloniex_answers_def)
  qed
  then show ?thesis
    using x(2) by (simp add: list_all_iff plain_def)
qed

text \<open>A state in which the vendors have published the markets of the answers above and a connection was accepted.\<close>

definition ex_accepted :: server where
  "ex_accepted = main_init\<lparr>sv_conns := [7 \<mapsto> conn_start],
     sv_vendors := [found (Some 0) (btc38_markets ex_answers), found (Some 0) (bittrex_markets ex_answers),
       found (Some 0) (poloniex_markets ex_answers)],
     sv_published := (\<lambda>k. [])(0 := [btc38_markets ex_answers], 1 := [bittrex_markets ex_answers],
       2 := [poloniex_markets ex_answers])\<rparr>"

lemma published_found [simp]: "published_list (found (Some a) ms) = ms" "initialised (found (Some a) ms)"
  by (simp_all add: found_def new_list_def published_list_def)

lemma ex_accepted_reached: "server_reaches pb ex_accepted"
proof -
  let ?s = "main_init\<lparr>sv_conns := [7 \<mapsto> conn_start]\<rparr>"
  have "server_reaches pb (main_init\<lparr>sv_main := Accept\<rparr>)"
    by (rule reaches_loop_on [OF server_reaches_start]) simp_all
  from reaches_accept [OF this, of 7] have 0: "server_reaches pb ?s"
    by (simp add: set_conn_def main_init_def)
  have idle: "holds k (sv_conns ?s fd) = None" for k fd
    by (simp add: conn_start_def holds_def)
  have start: "sv_vendors ?s = [upd_start True, upd_start True, upd_start True]" "sv_main ?s = Loop"
      "sv_published ?s = (\<lambda>k. [])"
    by (simp_all add: numeral_eq_Suc)
  from reaches_published [OF 0, of 0 "Some 0" "btc38_markets ex_answers"] start idle
  have "server_reaches pb (?s\<lparr>sv_vendors := [found (Some 0) (btc38_markets ex_answers), upd_start True, upd_start True],
      sv_published := (\<lambda>k. [])(0 := [btc38_markets ex_answers])\<rparr>)"
    by simp
  from reaches_published [OF this, of 1 "Some 0" "bittrex_markets ex_answers"] start idle
  have "server_reaches pb (?s\<lparr>sv_vendors := [found (Some 0) (btc38_markets ex_answers),
        found (Some 0) (bittrex_markets ex_answers), upd_start True],
      sv_published := (\<lambda>k. [])(0 := [btc38_markets ex_answers], 1 := [bittrex_markets ex_answers])\<rparr>)"
    by simp
  from reaches_published [OF this, of 2 "Some 0" "poloniex_markets ex_answers"] start idle
  show ?thesis by (simp add: ex_accepted_def)
qed

lemma ex_documented: "\<forall>k<3. list_all (documented k) (sv_published ex_accepted k)"
proof -
  let ?ts = "replicate 20 stale"
  have a: "btc38_answers ex_network ?ts ex_answers" "bittrex_answers ex_network ?ts ex_answers"
      "poloniex_answers ex_network ?ts ex_answers"
    by (rule ex_answered; simp)+
  have n: "list_all no_tilde (btc38_markets ex_answers)" "list_all no_tilde (bittrex_markets ex_answers)"
      "list_all no_tilde (poloniex_markets ex_answers)"
    using ex_all_markets(1) by (simp_all add: all_markets_def)
  have "documented 0 (btc38_markets ex_answers)"
    unfolding documented_def answered_def
    using n a markets_fetched(1) [OF a(1)] by (auto simp: call_markets_get_def intro!: exI)
  moreover have "documented 1 (bittrex_markets ex_answers)"
    unfolding documented_def answered_def
    using n a markets_fetched(2) [OF a(2)] by (auto simp: call_markets_get_def intro!: exI)
  moreover have "documented 2 (poloniex_markets ex_answers)"
    unfolding documented_def answered_def
    using n a markets_fetched(3) [OF a(3)] by (auto simp: call_markets_get_def intro!: exI)
  ultimately show ?thesis
    by (auto simp: ex_accepted_def less_Suc_eq numeral_eq_Suc)
qed

lemma ex_accepted_lists:
  "concat (map published_list (sv_vendors ex_accepted)) = all_markets ex_answers"
  "list_all initialised (sv_vendors ex_accepted)" "accepting ex_accepted" "sv_conns ex_accepted 7 = Some conn_start"
  by (simp_all add: ex_accepted_def all_markets_def accepting_def)

text \<open>Serving a connection on documented lists leads to a reply.\<close>

lemma documented_vendors:
  assumes "server_reaches pb s" "accepting s" "list_all initialised (sv_vendors s)"
    and "\<forall>k<3. list_all (documented k) (sv_published s k)"
  shows "\<forall>v\<in>set (sv_vendors s). list_all plain (published_list v)"
proof
  fix v assume "v \<in> set (sv_vendors s)"
  then obtain k where k: "k < 3" "v = sv_vendors s ! k"
    using accepting_vendors(1) [OF assms(1,2)] by (auto simp: in_set_conv_nth)
  then have "initialised v" using assms(3) accepting_vendors(1) [OF assms(1,2)] by (simp add: list_all_length)
  then have "published_list v \<in> set (sv_published s k)"
    using current_published [OF assms(1,2) k(1)] k(2) by simp
  then have "documented k (published_list v)"
    using assms(4) k(1) by (simp add: list_all_iff)
  then show "list_all plain (published_list v)"
    using k(1) by (rule documented_plain)
qed

lemma connection_served:
  assumes reach: "server_reaches pb s" "accepting s" "sv_conns s fd = Some conn_start"
    and lists: "list_all initialised (sv_vendors s)" "\<forall>k<3. list_all (documented k) (sv_published s k)"
    and all: "concat (map published_list (sv_vendors s)) \<noteq> []" "list_size (concat (map published_list (sv_vendors s))) \<le> 5000"
    and outside: "pb_laws pb" "\<forall>bs. deliver bs = Some bs"
  obtains th r ps where "(server_step pb)\<^sup>*\<^sup>* s (set_conn fd th s)" "th_at th = Answered r"
    "th_seen th = map published_list (sv_vendors s)" "th_reads th = [Some bridge_command]"
    "cgi_main pb (Some sock) (\<lambda>cmd. Inr r) deliver = Inr (Pairs ps)" "distinct ps"
    "set ps = pair_out ` set (concat (map published_list (sv_vendors s)))"
proof -
  let ?vs = "map (\<lambda>v. snapshot (published_list v)) (sv_vendors s)"
  have vs: "\<forall>v\<in>set ?vs. is_initialized v \<and> (\<forall>m\<in>set (current_market v). plain m)"
    using documented_vendors [OF reach(1,2) lists] by (auto simp: list_all_iff)
  have cm: "map current_market ?vs = map published_list (sv_vendors s)"
    by (simp add: comp_def)
  obtain ps where ps: "cgi_main pb (Some sock) (\<lambda>cmd. do_connect pb ?vs [Some cmd]) deliver = Inr (Pairs ps)"
      "distinct ps" "set ps = pair_out ` set (concat (map published_list (sv_vendors s)))"
    using client_prints_all [OF outside vs, of "concat (map published_list (sv_vendors s))" sock] all
    unfolding cm by auto
  obtain r where r: "do_connect pb ?vs [Some bridge_command] = Inr r"
    using ps(1) by (auto simp: cgi_main_def cbind_Inr_iff)
  obtain th where th: "(server_step pb)\<^sup>*\<^sup>* s (set_conn fd th s)" "th_at th = Answered r"
      "th_seen th = map published_list (sv_vendors s)" "th_reads th = [Some bridge_command]"
    using serve_reply [OF reach _ r] lists(1) by (auto simp: list_all_iff)
  have "cgi_main pb (Some sock) (\<lambda>cmd. Inr r) deliver = Inr (Pairs ps)"
    using ps(1) r by (simp add: cgi_main_def)
  with th ps(2,3) show ?thesis by (rule_tac that)
qed

text \<open>
  C9. The client of the running server: when every list the update threads have published is what the exchange's
  module makes of a documented answer, then whatever the threads of the process do while a connection that sent
  \<^verbatim>\<open>trading_pairs\<close> is served, its reply makes the client print exactly the pairs of currencies of one published
  list of each of the three vendors, if these have a market and take at most the client's 5000 bytes.
\<close>

theorem running_server_prints:
  assumes "server_reaches pb s" "sv_conns s fd = Some th" "th_at th = Answered r" "th_reads th = [Some bridge_command]"
    and "\<forall>k<3. list_all (documented k) (sv_published s k)"
    and "concat (th_seen th) \<noteq> []" "list_size (concat (th_seen th)) \<le> 5000"
    and "pb_laws pb" "\<forall>bs. deliver bs = Some bs"
  shows "\<exists>ps. cgi_main pb (Some sock) (\<lambda>cmd. Inr r) deliver = Inr (Pairs ps) \<and> distinct ps \<and>
    set ps = pair_out ` set (concat (th_seen th)) \<and> length (th_seen th) = 3 \<and>
    list_all (\<lambda>k. th_seen th ! k \<in> set (sv_published s k)) [0..<3]"
proof -
  have seen: "map current_market (map snapshot (th_seen th)) = th_seen th"
    by (induction "th_seen th") (auto simp: snapshot_def comp_def)
  have reply: "do_connect pb (map snapshot (th_seen th)) [Some bridge_command] = Inr r"
      "list_all (\<lambda>k. th_seen th ! k \<in> set (sv_published s k)) [0..<length (th_seen th)]"
      "r = ShutDown \<or> r = Silent \<or> length (th_seen th) = 3"
    using server_reply [OF assms(1-3)] assms(4) by simp_all
  then have three: "length (th_seen th) = 3"
    using pairs_reply by blast
  have "list_all plain (th_seen th ! k)" if "k < 3" for k
    using reply(2) three that assms(5) documented_plain [of k "th_seen th ! k"] by (auto simp: list_all_iff)
  then have "\<forall>ms\<in>set (th_seen th). list_all plain ms"
    using three by (metis in_set_conv_nth)
  then have "\<forall>v\<in>set (map snapshot (th_seen th)). is_initialized v \<and> (\<forall>m\<in>set (current_market v). plain m)"
    by (auto simp: snapshot_def list_all_iff)
  from client_prints_all [OF assms(8,9) this, of "concat (th_seen th)" sock] show ?thesis
    unfolding seen using assms(6,7) reply(1,2) three by (simp add: cgi_main_def)
qed

theorem running_server_prints_witness:
  "\<exists>s th r. server_reaches wire s \<and> sv_conns s 7 = Some th \<and> th_at th = Answered r \<and>
    (\<exists>ps. cgi_main wire (Some 5) (\<lambda>cmd. Inr r) Some = Inr (Pairs ps) \<and>
      set ps = {(''BTC'', ''LTC'', dbl_0_7), (''CNY'', ''BTC'', dbl_0_7)})"
proof -
  obtain th r where th: "(server_step wire)\<^sup>*\<^sup>* ex_accepted (set_conn 7 th ex_accepted)" "th_at th = Answered r"
      "th_seen th = map published_list (sv_vendors ex_accepted)" "th_reads th = [Some bridge_command]"
    by (rule connection_served [OF ex_accepted_reached ex_accepted_lists(3,4,2) ex_documented, of wire Some 5])
      (simp_all add: ex_accepted_lists(1) ex_all_markets wire_laws)
  let ?s = "set_conn 7 th ex_accepted"
  have s: "server_reaches wire ?s"
    using server_reaches_trans [OF ex_accepted_reached th(1)] .
  have "\<exists>ps. cgi_main wire (Some 5) (\<lambda>cmd. Inr r) Some = Inr (Pairs ps) \<and> distinct ps \<and>
      set ps = pair_out ` set (concat (th_seen th)) \<and> length (th_seen th) = 3 \<and>
      list_all (\<lambda>k. th_seen th ! k \<in> set (sv_published ?s k)) [0..<3]"
    by (rule running_server_prints [OF s _ th(2,4), where fd = 7])
      (use ex_documented in \<open>simp_all add: set_conn_def th(3) ex_accepted_lists(1) ex_all_markets wire_laws\<close>)
  then show ?thesis
    using s th(2) ex_all_markets(4) by (auto simp: th(3) ex_accepted_lists(1) intro!: exI [of _ ?s])
qed

text \<open>
  C10. A client is served: from every reachable state in which the server accepts connections, each vendor has
  published a list and all published lists come from documented answers, a connection that has just been
  accepted and sends \<^verbatim>\<open>trading_pairs\<close> can run, on its own, to a reply, which makes the client print exactly the
  pairs of currencies of the lists the vendors point to, if there are any and they take at most 5000 bytes.
\<close>

theorem server_answers_client:
  assumes "server_reaches pb s" "accepting s" "sv_conns s fd = Some conn_start"
    and "list_all initialised (sv_vendors s)" "\<forall>k<3. list_all (documented k) (sv_published s k)"
    and "concat (map published_list (sv_vendors s)) \<noteq> []" "list_size (concat (map published_list (sv_vendors s))) \<le> 5000"
    and "pb_laws pb" "\<forall>bs. deliver bs = Some bs"
  shows "\<exists>th r ps. (server_step pb)\<^sup>*\<^sup>* s (set_conn fd th s) \<and> th_at th = Answered r \<and>
    cgi_main pb (Some sock) (\<lambda>cmd. Inr r) deliver = Inr (Pairs ps) \<and> distinct ps \<and>
    set ps = pair_out ` set (concat (map published_list (sv_vendors s)))"
  by (rule connection_served [OF assms, where sock = sock]) blast

theorem server_answers_client_witness:
  "\<exists>th r ps. (server_step wire)\<^sup>*\<^sup>* ex_accepted (set_conn 7 th ex_accepted) \<and> th_at th = Answered r \<and>
    cgi_main wire (Some 5) (\<lambda>cmd. Inr r) Some = Inr (Pairs ps) \<and> distinct ps \<and>
    set ps = {(''BTC'', ''LTC'', dbl_0_7), (''CNY'', ''BTC'', dbl_0_7)}"
  unfolding ex_all_markets(4) [symmetric] ex_accepted_lists(1) [symmetric]
  by (rule server_answers_client [OF ex_accepted_reached ex_accepted_lists(3,4,2) ex_documented])
    (simp_all add: ex_accepted_lists(1) ex_all_markets wire_laws)

end
