(* ===== verification/Base64.thy ===== *)
theory Base64
  imports Prelude
begin

unbundle bit_operations_syntax

section \<open>Base64 (\<^verbatim>\<open>include/utils/base64.h\<close>)\<close>

text \<open>
  Encoding and decoding of bytes. The output array is the list of the bytes written so far, as both functions
  write it from front to back; \<^verbatim>\<open>idx2\<close> of the encoder is its length. The terminating NUL is not part of the list.
\<close>

definition charset :: string where
  "charset = ''ABCDEFGHIJKLMNOPQRSTUVWXYZabcdefghijklmnopqrstuvwxyz0123456789+/''"

definition code :: "8 word \<Rightarrow> char" where
  "code w = charset ! unat w"

definition revchar :: "char \<Rightarrow> 8 word" where
  "revchar c =
     (if is_upper c then word_of_nat (char_code c) - 65
      else if is_lower c then word_of_nat (char_code c) - 97 + 26
      else if is_digit c then word_of_nat (char_code c) - 48 + 52
      else if c = CHR ''+'' then 62
      else if c = CHR ''/'' then 63
      else word_of_nat (char_code c))"

text \<open>The six-bit groups of a block; the last two forms are those of a block with one or two bytes.\<close>

definition sext_0 :: "8 word \<Rightarrow> 8 word" where "sext_0 a = drop_bit 2 a"
definition sext_1 :: "8 word \<Rightarrow> 8 word \<Rightarrow> 8 word" where "sext_1 a b = push_bit 4 (a AND 0x03) + drop_bit 4 b"
definition sext_2 :: "8 word \<Rightarrow> 8 word \<Rightarrow> 8 word" where "sext_2 b c = push_bit 2 (b AND 0x0F) + drop_bit 6 c"
definition sext_3 :: "8 word \<Rightarrow> 8 word" where "sext_3 c = c AND 0x3F"
definition sext_1_end :: "8 word \<Rightarrow> 8 word" where "sext_1_end a = push_bit 4 (a AND 0x03)"
definition sext_2_end :: "8 word \<Rightarrow> 8 word" where "sext_2_end b = push_bit 2 (b AND 0x0F)"

lemmas sext_defs = sext_0_def sext_1_def sext_2_def sext_3_def sext_1_end_def sext_2_end_def

subsection \<open>Encoding\<close>

text \<open>The loop over whole blocks of three bytes; it leaves the rest of the input.\<close>

fun encode_blocks :: "bool \<Rightarrow> 8 word list \<Rightarrow> string \<Rightarrow> string \<times> 8 word list" where
  "encode_blocks newline_flag (a # b # c # rest) out =
     (let out' = out @ [code (sext_0 a), code (sext_1 a b),
                        code (sext_2 b c), code (sext_3 c)]
      in encode_blocks newline_flag rest
           (if length out mod 77 = 0 \<and> newline_flag then out' @ [CHR 0x0A] else out'))"
| "encode_blocks newline_flag rest out = (out, rest)"

definition base64_encode :: "8 word list \<Rightarrow> bool \<Rightarrow> string" where
  "base64_encode bs newline_flag =
     (case encode_blocks newline_flag bs [] of (out, rest) \<Rightarrow>
        (case rest of
           [a] \<Rightarrow> out @ [code (sext_0 a), code (sext_1_end a), CHR ''='', CHR ''='']
         | [a, b] \<Rightarrow> out @ [code (sext_0 a), code (sext_1 a b),
                          code (sext_2_end b), CHR ''='']
         | _ \<Rightarrow> out))"

subsection \<open>Decoding\<close>

definition dec_0 :: "char \<Rightarrow> char \<Rightarrow> 8 word" where
  "dec_0 c d = push_bit 2 (revchar c) + drop_bit 4 (revchar d AND 0x30)"

definition dec_1 :: "char \<Rightarrow> char \<Rightarrow> 8 word" where
  "dec_1 c d = push_bit 4 (revchar c) + drop_bit 2 (revchar d)"

definition dec_2 :: "char \<Rightarrow> char \<Rightarrow> 8 word" where
  "dec_2 c d = push_bit 6 (revchar c) + revchar d"

fun decode_blocks :: "string \<Rightarrow> 8 word list \<Rightarrow> 8 word list \<times> string" where
  "decode_blocks (c0 # c1 # c2 # c3 # rest) out = decode_blocks rest (out @ [dec_0 c0 c1, dec_1 c1 c2, dec_2 c2 c3])"
| "decode_blocks rest out = (out, rest)"

text \<open>The padding is looked for at \<^verbatim>\<open>in[len-1]\<close> twice, whatever \<^verbatim>\<open>len\<close> is.\<close>

definition drop_pad :: "string \<Rightarrow> string cres" where
  "drop_pad s = (if s = [] then Inl OutOfBounds else Inr (if last s = CHR ''='' then butlast s else s))"

definition base64_decode :: "string \<Rightarrow> 8 word list cres" where
  "base64_decode s =
     cbind (drop_pad s) (\<lambda>s. cbind (drop_pad s) (\<lambda>s.
       case decode_blocks s [] of (out, rest) \<Rightarrow>
         Inr (case rest of
                [c0, c1] \<Rightarrow> out @ [dec_0 c0 c1, push_bit 4 (revchar c1)]
              | [c0, c1, c2] \<Rightarrow> out @ [dec_0 c0 c1, dec_1 c1 c2, push_bit 6 (revchar c2)]
              | _ \<Rightarrow> out)))"

subsection \<open>Bytes and sextets\<close>

text \<open>An equation between bytes is eight equations between bits.\<close>

lemma byte_eqI:
  fixes v w :: "8 word"
  assumes "bit v 0 = bit w 0" "bit v 1 = bit w 1" "bit v 2 = bit w 2" "bit v 3 = bit w 3"
    "bit v 4 = bit w 4" "bit v 5 = bit w 5" "bit v 6 = bit w 6" "bit v 7 = bit w 7"
  shows "v = w"
proof (rule bit_word_eqI)
  fix n assume "n < LENGTH(8)"
  then have "n = 0 \<or> n = 1 \<or> n = 2 \<or> n = 3 \<or> n = 4 \<or> n = 5 \<or> n = 6 \<or> n = 7" by simp arith
  then show "bit v n = bit w n" by (elim disjE) (use assms in simp_all)
qed

lemma byte_high [simp]: "8 \<le> n \<Longrightarrow> \<not> bit (w :: 8 word) n"
  using bit_imp_le_length [of w n] by auto

lemma byte_less_64: "\<not> bit w 6 \<Longrightarrow> \<not> bit w 7 \<Longrightarrow> unat (w :: 8 word) < 64"
proof -
  assume "\<not> bit w 6" "\<not> bit w 7"
  then have "take_bit 6 w = w" by (intro byte_eqI) (simp_all add: bit_simps)
  then have "unat w = take_bit 6 (unat w)" by (metis unsigned_take_bit_eq)
  then show ?thesis using take_bit_nat_less_exp [of 6 "unat w"] by simp
qed

lemma sext_or:
  "sext_1 a b = push_bit 4 (a AND 3) OR drop_bit 4 b" "sext_2 b c = push_bit 2 (b AND 15) OR drop_bit 6 c"
  unfolding sext_defs by (rule disjunctive_add_eq_or, rule byte_eqI; simp add: bit_simps)+

lemma sextets [simp]:
  "unat (sext_0 a) < 64" "unat (sext_1 a b) < 64" "unat (sext_2 b c) < 64" "unat (sext_3 c) < 64"
  "unat (sext_1_end a) < 64" "unat (sext_2_end b) < 64"
  by (simp only: sext_or sext_0_def sext_3_def sext_1_end_def sext_2_end_def | rule byte_less_64 | simp add: bit_simps)+

lemma revchar_charset: "map revchar charset = map word_of_nat [0..<64]"
  by code_simp

lemma length_charset: "length charset = 64"
  by code_simp

lemma revchar_code [simp]: "unat w < 64 \<Longrightarrow> revchar (code w) = w"
proof -
  assume w: "unat w < 64"
  have "revchar (code w) = map revchar charset ! unat w" using w by (simp add: code_def length_charset)
  then show ?thesis using w by (simp add: revchar_charset)
qed

lemma code_no_pad: "unat w < 64 \<Longrightarrow> code w \<noteq> CHR ''=''"
proof -
  assume "unat w < 64"
  then have "code w \<in> set charset" by (simp add: code_def length_charset)
  moreover have "CHR ''='' \<notin> set charset" by code_simp
  ultimately show ?thesis by metis
qed

lemmas decode_simps = dec_0_def dec_1_def dec_2_def sext_or sext_0_def sext_3_def sext_1_end_def sext_2_end_def

lemma block_bytes [simp]:
  "dec_0 (code (sext_0 a)) (code (sext_1 a b)) = a" "dec_0 (code (sext_0 a)) (code (sext_1_end a)) = a"
  "dec_1 (code (sext_1 a b)) (code (sext_2 b c)) = b" "dec_1 (code (sext_1 a b)) (code (sext_2_end b)) = b"
  "dec_2 (code (sext_2 b c)) (code (sext_3 c)) = c"
  by (simp add: dec_0_def dec_1_def dec_2_def, simp add: decode_simps, subst disjunctive_add_eq_or; rule byte_eqI; simp add: bit_simps)+

lemma rest_bytes [simp]: "push_bit 4 (sext_1_end a) = 0" "push_bit 6 (sext_2_end b) = 0"
  by (rule byte_eqI; simp add: bit_simps decode_simps)+

subsection \<open>Whole blocks\<close>

lemma encode_blocks_decode:
  "encode_blocks False bs out = (out', rest) \<Longrightarrow>
    \<exists>blk bytes. out' = out @ blk \<and> bs = bytes @ rest \<and> length rest < 3 \<and> length bytes mod 3 = 0 \<and>
      length blk = 4 * (length bytes div 3) \<and> CHR ''='' \<notin> set blk \<and>
      (\<forall>t acc. decode_blocks (blk @ t) acc = decode_blocks t (acc @ bytes))"
proof (induction "False" bs out arbitrary: out' rest rule: encode_blocks.induct)
  case (1 a b c bs out)
  let ?four = "[code (sext_0 a), code (sext_1 a b),
    code (sext_2 b c), code (sext_3 c)]"
  obtain blk bytes where i: "out' = (out @ ?four) @ blk" "bs = bytes @ rest" "length rest < 3" "length bytes mod 3 = 0"
      "length blk = 4 * (length bytes div 3)" "CHR ''='' \<notin> set blk"
      "\<And>t acc. decode_blocks (blk @ t) acc = decode_blocks t (acc @ bytes)"
    using 1(1) [OF refl, of out' rest] 1(2) by (auto simp: Let_def)
  have "decode_blocks ((?four @ blk) @ t) acc = decode_blocks t (acc @ a # b # c # bytes)" for t acc
    by (simp add: i(7))
  moreover have "CHR ''='' \<notin> set (?four @ blk)"
    using code_no_pad [of "sext_0 a"] code_no_pad [of "sext_1 a b"] code_no_pad [of "sext_2 b c"] code_no_pad [of "sext_3 c"] i(6)
    by (simp add: eq_commute)
  moreover have "length (a # b # c # bytes) mod 3 = 0" "length (?four @ blk) = 4 * (length (a # b # c # bytes) div 3)"
  proof -
    have "(3 + length bytes) div 3 = length bytes div 3 + 1" by presburger
    then show "length (?four @ blk) = 4 * (length (a # b # c # bytes) div 3)" using i(5) by simp
    show "length (a # b # c # bytes) mod 3 = 0" using i(4) by simp
  qed
  ultimately show ?case
    using i(1-3) by (intro exI [of _ "?four @ blk"] exI [of _ "a # b # c # bytes"]) simp
qed auto

subsection \<open>Properties\<close>

text \<open>
  C22. Decoding the encoded form of a non-empty byte string (without line breaks) gives the bytes back; when their
  number is no multiple of three, one zero byte follows that was not in the input.
\<close>

theorem base64_round_trip:
  assumes "bs \<noteq> []"
  shows "base64_decode (base64_encode bs False) = Inr (bs @ (if length bs mod 3 = 0 then [] else [0]))"
proof -
  obtain out rest where e: "encode_blocks False bs [] = (out, rest)" by fastforce
  from encode_blocks_decode [OF e] obtain bytes where
    d: "bs = bytes @ rest" "length rest < 3" "length bytes mod 3 = 0" "CHR ''='' \<notin> set out"
      "\<And>t acc. decode_blocks (out @ t) acc = decode_blocks t (acc @ bytes)" by auto
  have np: "drop_pad s = Inr s" if "s \<noteq> []" "last s \<noteq> CHR ''=''" for s using that by (simp add: drop_pad_def)
  have pad: "drop_pad (s @ [CHR ''='']) = Inr s" for s by (simp add: drop_pad_def)
  consider "rest = []" | a where "rest = [a]" | a b where "rest = [a, b]"
    using d(2) by (cases rest rule: remdups_adj.cases) auto
  then show ?thesis
  proof cases
    case 1
    have "out \<noteq> []" using assms d(1,5) 1 by (metis append_Nil append_is_Nil_conv decode_blocks.simps(2) prod.sel(1))
    moreover then have "last out \<noteq> CHR ''=''" using d(4) last_in_set by metis
    moreover have "base64_encode bs False = out" by (simp add: base64_encode_def e 1)
    ultimately show ?thesis
      using d(5) [of "[]" "[]"] 1 d(1,3) by (simp add: base64_decode_def np)
  next
    case 2
    have "base64_encode bs False = ((out @ [code (sext_0 a), code (sext_1_end a)]) @ [CHR ''='']) @ [CHR ''='']"
      by (simp add: base64_encode_def e 2)
    then have "base64_decode (base64_encode bs False) = Inr (bytes @ [a, 0])"
      by (simp add: base64_decode_def pad d(5) del: append_assoc)
    moreover have "length bs mod 3 \<noteq> 0" using d(1,3) 2 by simp presburger
    ultimately show ?thesis using d(1) 2 by simp
  next
    case 3
    let ?body = "out @ [code (sext_0 a), code (sext_1 a b), code (sext_2_end b)]"
    have "base64_encode bs False = ?body @ [CHR ''='']"
      by (simp add: base64_encode_def e 3)
    moreover have "drop_pad ?body = Inr ?body" by (rule np) (simp_all add: code_no_pad sextets)
    ultimately have "base64_decode (base64_encode bs False) = Inr (bytes @ [a, b, 0])"
      by (simp add: base64_decode_def pad d(5) del: append_assoc)
    moreover have "length bs mod 3 \<noteq> 0" using d(1,3) 3 by simp presburger
    ultimately show ?thesis using d(1) 3 by simp
  qed
qed

lemma base64_round_trip_witness: "base64_decode (base64_encode [77, 97, 110, 33] False) = Inr [77, 97, 110, 33, 0]"
  using base64_round_trip [of "[77, 97, 110, 33]"] by simp

text \<open>
  Without line breaks the encoder writes four characters per three bytes begun, so that the terminating NUL
  still fits into the \<^verbatim>\<open>(len/3 + 1) * 4 + 1\<close> bytes its caller allocates.
\<close>

lemma base64_encode_size:
  "length (base64_encode bs False) = 4 * ((length bs + 2) div 3) \<and>
   length (base64_encode bs False) + 1 \<le> (length bs div 3 + 1) * 4 + 1"
proof -
  obtain out rest where e: "encode_blocks False bs [] = (out, rest)" by fastforce
  from encode_blocks_decode [OF e] obtain bytes where
    d: "bs = bytes @ rest" "length rest < 3" "length bytes mod 3 = 0" "length out = 4 * (length bytes div 3)" by auto
  from d(3) obtain k where k: "length bytes = 3 * k" by auto
  consider "rest = []" | a where "rest = [a]" | a b where "rest = [a, b]"
    using d(2) by (cases rest rule: remdups_adj.cases) auto
  then have "length (base64_encode bs False) = 4 * ((length bs + 2) div 3)"
  proof cases
    case 1
    then have "base64_encode bs False = out" by (simp add: base64_encode_def e)
    then show ?thesis using d k 1 by simp
  next
    case (2 a)
    then have "length (base64_encode bs False) = length out + 4" by (simp add: base64_encode_def e)
    then show ?thesis using d k 2 by simp
  next
    case (3 a b)
    then have "length (base64_encode bs False) = length out + 4" by (simp add: base64_encode_def e)
    then show ?thesis using d k 3 by simp
  qed
  moreover have "(length bs + 2) div 3 \<le> length bs div 3 + 1" by presburger
  ultimately show ?thesis by simp
qed

end
