(* ===== verification/Websocket.thy ===== *)
theory Websocket
  imports Base64
begin

unbundle bit_operations_syntax

section \<open>The websocket client (\<^verbatim>\<open>utils/websocket.c\<close>)\<close>

text \<open>
  The opening handshake over a socket, the callbacks of the websocket library and the receive buffer between the
  library's thread and the callers. System calls are given by the results they return; SHA-1 and the frames of
  the library \<^verbatim>\<open>wslay\<close> are outside: SHA-1 is the parameter \<open>sha1\<close>, messages arrive at the callback whole.
\<close>

subsection \<open>System calls\<close>

text \<open>What a \<^verbatim>\<open>read\<close>, \<^verbatim>\<open>write\<close>, \<^verbatim>\<open>send\<close> or \<^verbatim>\<open>recv\<close> gives: a result (0 for a closed connection) or -1 with
  \<^verbatim>\<open>errno\<close>.\<close>

datatype errno = EINTR | EAGAIN | EWOULDBLOCK | EOTHER

datatype 'a io = Got 'a | Err errno

text \<open>The loop \<^verbatim>\<open>while ((r = call(...)) == -1 && errno == EINTR)\<close>: the first result that is no interruption, and
  the results not used yet. It waits when there is none.\<close>

fun retry :: "'a io list \<Rightarrow> ('a io \<times> 'a io list) cres" where
  "retry [] = Inl Diverges"
| "retry (Err EINTR # rs) = retry rs"
| "retry (r # rs) = Inr (r, rs)"

lemma retry_shorter: "retry rs = Inr (r, rs') \<Longrightarrow> length rs' < length rs"
  by (induction rs rule: retry.induct) auto

lemma retry_no_eintr: "retry rs = Inr (r, rs') \<Longrightarrow> r \<noteq> Err EINTR"
  by (induction rs rule: retry.induct) auto

subsection \<open>Sending the handshake\<close>

text \<open>The write loop from offset \<open>off\<close>: the return code and the text that was written.\<close>

function send_loop :: "string \<Rightarrow> nat \<Rightarrow> nat io list \<Rightarrow> string \<Rightarrow> (int \<times> string) cres" where
  "send_loop reqheader off ws sent =
     (if off < length reqheader then
        cbind (retry ws) (\<lambda>(r, ws').
          case r of
            Err e \<Rightarrow> Inr (-1, sent)
          | Got n \<Rightarrow> send_loop reqheader (off + n) ws' (sent @ take n (drop off reqheader)))
      else Inr (0, sent))"
  by pat_completeness auto
termination
  by (relation "measure (\<lambda>(h, off, ws, sent). length ws)") (auto dest: retry_shorter)

declare send_loop.simps [simp del]

definition send_http_handshake :: "string \<Rightarrow> nat io list \<Rightarrow> (int \<times> string) cres" where
  "send_http_handshake reqheader ws = send_loop reqheader 0 ws []"

subsection \<open>Receiving the handshake\<close>

text \<open>\<^verbatim>\<open>strstr\<close>: the text from the first occurrence on.\<close>

fun strstr :: "string \<Rightarrow> string \<Rightarrow> string option" where
  "strstr needle [] = (if needle = [] then Some [] else None)"
| "strstr needle (c # s) = (if take (length needle) (c # s) = needle then Some (c # s) else strstr needle s)"

definition crlf :: string where "crlf = [CHR 0x0D, CHR 0x0A]"
definition header_end :: string where "header_end = crlf @ crlf"

text \<open>
  One read of at most 4096 bytes into \<^verbatim>\<open>buf[4096]\<close>: the terminating NUL is written behind the last byte, past the
  array when the read filled it. \<^verbatim>\<open>strcat\<close> appends up to the first NUL.
\<close>

function recv_loop :: "string \<Rightarrow> string io list \<Rightarrow> (int \<times> string) cres" where
  "recv_loop resheader rs =
     cbind (retry rs) (\<lambda>(r, rs').
       case r of
         Err e \<Rightarrow> Inr (-1, resheader)
       | Got [] \<Rightarrow> Inr (-1, resheader)
       | Got buf \<Rightarrow>
           if length buf \<ge> 4096 then Inl OutOfBounds
           else if length resheader + length buf + 1 > 8192 then Inr (-1, resheader)
           else
             let resheader = resheader @ takeWhile (\<lambda>c. c \<noteq> NUL) buf in
             if strstr header_end resheader \<noteq> None then Inr (0, resheader) else recv_loop resheader rs')"
  by pat_completeness auto
termination
  by (relation "measure (\<lambda>(h, rs). length rs)") (auto dest: retry_shorter)

declare recv_loop.simps [simp del]

definition recv_http_handshake :: "string io list \<Rightarrow> (int \<times> string) cres" where
  "recv_http_handshake rs = recv_loop [] rs"

subsection \<open>Keys\<close>

text \<open>\<^verbatim>\<open>get_random16\<close>: sixteen random bytes, then as long as there is a NUL the first one is read anew. \<open>rnd\<close> is what
  \<^verbatim>\<open>/dev/urandom\<close> gives (nothing when it cannot be opened); results of \<^verbatim>\<open>open\<close> and \<^verbatim>\<open>read\<close> are not looked at, so
  with fewer than sixteen bytes the key is made of memory that was never written.\<close>

fun fix_nul :: "string \<Rightarrow> char \<Rightarrow> string" where
  "fix_nul [] r = []"
| "fix_nul (c # s) r = (if c = NUL then r # s else c # fix_nul s r)"

fun fix_nuls :: "string \<Rightarrow> string \<Rightarrow> string cres" where
  "fix_nuls s [] = (if NUL \<in> set s then Inl Diverges else Inr s)"
| "fix_nuls s (r # rs) = (if NUL \<in> set s then fix_nuls (fix_nul s r) rs else Inr s)"

definition get_random16 :: "string \<Rightarrow> string cres" where
  "get_random16 rnd = (if length rnd < 16 then Inl Uninit else fix_nuls (take 16 rnd) (drop 16 rnd))"

text \<open>\<^verbatim>\<open>base64\<close> of the first \<^verbatim>\<open>len\<close> bytes.\<close>

definition base64 :: "byte list \<Rightarrow> string" where
  "base64 bs = base64_encode bs False"

definition ws_guid :: string where
  "ws_guid = ''258EAFA5-E914-47DA-95CA-C5AB0DC85B11''"

definition websocket_create_acceptkey :: "(string \<Rightarrow> byte list) \<Rightarrow> string \<Rightarrow> string" where
  "websocket_create_acceptkey sha1 clientkey =
     (let len = length clientkey + 40; str = snprintf len (clientkey @ ws_guid) in base64 (sha1 str))"

subsection \<open>The handshake\<close>

definition handshake_request :: "string \<Rightarrow> string \<Rightarrow> string \<Rightarrow> string \<Rightarrow> string" where
  "handshake_request host service path client_key =
     snprintf 4096 (''GET '' @ path @ '' HTTP/1.1'' @ crlf @ ''Host: '' @ host @ '':'' @ service @ crlf @
       ''Upgrade: websocket'' @ crlf @ ''Connection: Upgrade'' @ crlf @ ''Sec-WebSocket-Key: '' @ client_key @ crlf @
       ''Sec-WebSocket-Version: 13'' @ crlf @ crlf)"

definition accept_tag :: string where "accept_tag = ''Sec-WebSocket-Accept: ''"

text \<open>What is done with the answer: the body when the key is right, \<open>None\<close> for the return code -1.\<close>

definition check_answer :: "(string \<Rightarrow> byte list) \<Rightarrow> string \<Rightarrow> string \<Rightarrow> string option" where
  "check_answer sha1 client_key resheader =
     (case strstr accept_tag resheader of
        None \<Rightarrow> None
      | Some t \<Rightarrow>
          let keyhdstart = drop 22 t in
          (case strstr crlf keyhdstart of
             None \<Rightarrow> None
           | Some keyhdend \<Rightarrow>
               let accept_key = take (length keyhdstart - length keyhdend) keyhdstart in
               if accept_key = websocket_create_acceptkey sha1 client_key
               then (case strstr header_end resheader of None \<Rightarrow> None | Some p \<Rightarrow> Some (drop 4 p))
               else None))"

definition http_handshake ::
    "(string \<Rightarrow> byte list) \<Rightarrow> string \<Rightarrow> nat io list \<Rightarrow> string io list \<Rightarrow> string \<Rightarrow> string \<Rightarrow> string \<Rightarrow> string option cres" where
  "http_handshake sha1 rnd ws rs host service path =
     cbind (get_random16 rnd) (\<lambda>r16.
       let client_key = base64 (bytes_of r16); reqheader = handshake_request host service path client_key in
     cbind (send_http_handshake reqheader ws) (\<lambda>(rc, sent).
       if rc = -1 then Inr None
       else cbind (recv_http_handshake rs) (\<lambda>(rc, resheader).
         if rc = -1 then Inr None else Inr (check_answer sha1 client_key resheader))))"

subsection \<open>Callbacks\<close>

text \<open>The result of a callback and the error it sets in the library's context.\<close>

datatype wslay_err = WOULDBLOCK | CALLBACK_FAILURE

definition io_error :: "errno \<Rightarrow> wslay_err" where
  "io_error e = (if e = EAGAIN \<or> e = EWOULDBLOCK then WOULDBLOCK else CALLBACK_FAILURE)"

text \<open>\<^verbatim>\<open>websocket_client_send_data\<close> and \<^verbatim>\<open>websocket_client_recv_data\<close>: one call, repeated while it is interrupted.\<close>

definition websocket_client_send_data :: "nat io list \<Rightarrow> (nat io \<times> nat io list) cres" where
  [simp]: "websocket_client_send_data rs = retry rs"

definition websocket_client_recv_data :: "nat io list \<Rightarrow> (nat io \<times> nat io list) cres" where
  [simp]: "websocket_client_recv_data rs = retry rs"

definition send_callback :: "nat io list \<Rightarrow> (int \<times> wslay_err option) cres" where
  "send_callback rs =
     cbind (websocket_client_send_data rs) (\<lambda>(r, _).
       Inr (case r of Got n \<Rightarrow> (int n, None) | Err e \<Rightarrow> (-1, Some (io_error e))))"

definition recv_callback :: "nat io list \<Rightarrow> (int \<times> wslay_err option) cres" where
  "recv_callback rs =
     cbind (websocket_client_recv_data rs) (\<lambda>(r, _).
       Inr (case r of
              Err e \<Rightarrow> (-1, Some (io_error e))
            | Got n \<Rightarrow> if n = 0 then (-1, Some CALLBACK_FAILURE) else (int n, None)))"

text \<open>
  \<^verbatim>\<open>genmask_callback\<close>: the random bytes that one read delivers, at most \<open>len\<close>, in front of what the buffer held. A
  short or failed read is not noticed, the result is always 0.
\<close>

definition websocket_client_get_random :: "string io \<Rightarrow> nat \<Rightarrow> string \<Rightarrow> string cres" where
  "websocket_client_get_random r len buf =
     (case r of
        Err e \<Rightarrow> Inr buf
      | Got bs \<Rightarrow> if min len (length bs) \<le> length buf then Inr (take len bs @ drop (min len (length bs)) buf)
          else Inl OutOfBounds)"

definition genmask_callback :: "string io \<Rightarrow> nat \<Rightarrow> string \<Rightarrow> (int \<times> string) cres" where
  "genmask_callback r len buf = cbind (websocket_client_get_random r len buf) (\<lambda>buf. Inr (0, buf))"

lemma genmask_callback_result:
  assumes "length buf = len"
  shows "genmask_callback (Got bs) len buf = Inr (0, take len bs @ drop (length bs) buf)"
    and "genmask_callback (Err e) len buf = Inr (0, buf)"
  using assms by (simp_all add: genmask_callback_def websocket_client_get_random_def min_def)

record ws_client =
  body :: string
  body_off :: nat
  recv_buf :: string

text \<open>
  \<^verbatim>\<open>websocket_client_feed_body\<close>: the bytes given to the library, out of the body and its NUL. The minimum with the
  rest of the body is computed but not used.
\<close>

definition feed_body :: "ws_client \<Rightarrow> nat \<Rightarrow> (string \<times> ws_client) cres" where
  "feed_body ws len =
     (if body_off ws < length (body ws) then
        (let wlen = len in
         if wlen > length (body ws) + 1 then Inl OutOfBounds
         else Inr (take wlen (body ws @ [NUL]), ws\<lparr>body_off := body_off ws + wlen\<rparr>))
      else Inr ([], ws))"

subsection \<open>The receive buffer\<close>

definition recv_cap :: nat where "recv_cap = 8192"

text \<open>
  A message is appended when there is room for it; otherwise the library's thread sleeps and tries again, and
  nothing changes (\<open>None\<close>). Control frames are ignored.
\<close>

definition on_msg_recv :: "bool \<Rightarrow> string \<Rightarrow> ws_client \<Rightarrow> ws_client option" where
  "on_msg_recv ctrl msg ws =
     (if ctrl then Some ws
      else if recv_cap - length (recv_buf ws) \<ge> length msg then Some (ws\<lparr>recv_buf := recv_buf ws @ msg\<rparr>)
      else None)"

text \<open>\<^verbatim>\<open>websocket_recv\<close>: the first bytes, at most \<open>space\<close>.\<close>

definition websocket_recv :: "nat \<Rightarrow> ws_client \<Rightarrow> string \<times> ws_client" where
  "websocket_recv space ws =
     (let len = length (recv_buf ws) in
      if len > 0 then
        (if len > space then (take space (recv_buf ws), ws\<lparr>recv_buf := drop space (recv_buf ws)\<rparr>)
         else (recv_buf ws, ws\<lparr>recv_buf := []\<rparr>))
      else ([], ws))"

text \<open>
  The polls of \<^verbatim>\<open>websocket_call\<close>: each finds the messages that arrived before it and the seconds passed since the
  start; the result is the text in \<^verbatim>\<open>data\<close>, empty at the timeout. One byte of \<^verbatim>\<open>data\<close> is kept for the NUL; with no
  room at all the number -1 goes to \<^verbatim>\<open>memcpy\<close>.
\<close>

fun call_poll :: "nat \<Rightarrow> nat \<Rightarrow> ((ws_client \<Rightarrow> ws_client) \<times> nat) list \<Rightarrow> ws_client \<Rightarrow> (string \<times> ws_client) cres" where
  "call_poll space timeout [] ws = Inl Diverges"
| "call_poll space timeout ((arrive, now) # polls) ws =
     (let ws = arrive ws in
      if space = 0 \<and> recv_buf ws \<noteq> [] then Inl OutOfBounds
      else
        (case websocket_recv (space - 1) ws of
           (data, ws) \<Rightarrow> if data \<noteq> [] \<or> now \<ge> timeout then Inr (data, ws) else call_poll space timeout polls ws))"

subsection \<open>Connecting\<close>

text \<open>
  The loop of \<^verbatim>\<open>connect_to\<close>: the descriptor of the first address for which \<^verbatim>\<open>socket\<close> (\<open>None\<close>: -1) and \<^verbatim>\<open>connect\<close> (0 or an error)
  succeed, and the descriptors closed before.
\<close>

fun try_addresses :: "(nat option \<times> unit io list) list \<Rightarrow> nat list \<Rightarrow> (nat option \<times> nat list) cres" where
  "try_addresses [] closed = Inr (None, closed)"
| "try_addresses ((None, cs) # addrs) closed = try_addresses addrs closed"
| "try_addresses ((Some fd, cs) # addrs) closed =
     cbind (retry cs) (\<lambda>(r, _).
       case r of Got u \<Rightarrow> Inr (Some fd, closed) | Err e \<Rightarrow> try_addresses addrs (closed @ [fd]))"

text \<open>The addresses are those of \<^verbatim>\<open>getaddrinfo\<close>, \<open>None\<close> when it fails.\<close>

definition connect_to :: "(nat option \<times> unit io list) list option \<Rightarrow> (nat option \<times> nat list) cres" where
  "connect_to res = (case res of None \<Rightarrow> Inr (None, []) | Some addrs \<Rightarrow> try_addresses addrs [])"


text \<open>\<^verbatim>\<open>make_non_block\<close>: the return code and the flags that were set; \<open>O_NONBLOCK\<close> is the bit of the platform.\<close>

definition make_non_block :: "32 word \<Rightarrow> 32 word io list \<Rightarrow> unit io list \<Rightarrow> (int \<times> 32 word option) cres" where
  "make_non_block O_NONBLOCK getfl setfl =
     cbind (retry getfl) (\<lambda>(r, _).
       case r of
         Err e \<Rightarrow> Inr (-1, None)
       | Got fl \<Rightarrow>
           cbind (retry setfl) (\<lambda>(r, _).
             case r of Err e \<Rightarrow> Inr (-1, None) | Got u \<Rightarrow> Inr (0, Some (fl OR O_NONBLOCK))))"

end
