(* ===== verification/WebsocketSpec.thy ===== *)
theory WebsocketSpec
  imports Websocket
begin

section \<open>What the websocket client promises\<close>

subsection \<open>A byte queue\<close>

text \<open>
  The interface between the thread that receives messages and the callers that read bytes: a queue of bytes with
  room for \<open>cap\<close> of them. A push that finds no room has no effect and is tried again later.
\<close>

datatype q_op = Push string | Pop nat

text \<open>A run gives the messages that were accepted, the texts that were read, and the final state.\<close>

fun queue_run :: "(string \<Rightarrow> 's \<Rightarrow> 's option) \<Rightarrow> (nat \<Rightarrow> 's \<Rightarrow> string \<times> 's) \<Rightarrow> q_op list \<Rightarrow> 's \<Rightarrow>
    string list \<times> string list \<times> 's" where
  "queue_run push pop [] s = ([], [], s)"
| "queue_run push pop (Push m # ops) s =
     (case push m s of
        None \<Rightarrow> queue_run push pop ops s
      | Some s' \<Rightarrow> (case queue_run push pop ops s' of (acc, out, t) \<Rightarrow> (m # acc, out, t)))"
| "queue_run push pop (Pop n # ops) s =
     (case pop n s of (d, s') \<Rightarrow> (case queue_run push pop ops s' of (acc, out, t) \<Rightarrow> (acc, d # out, t)))"

locale byte_queue =
  fixes contents :: "'s \<Rightarrow> string"
    and push :: "string \<Rightarrow> 's \<Rightarrow> 's option"
    and pop :: "nat \<Rightarrow> 's \<Rightarrow> string \<times> 's"
    and cap :: nat
  assumes push_some: "push m s = Some s' \<Longrightarrow> length (contents s) \<le> cap \<Longrightarrow> contents s' = contents s @ m \<and> length (contents s') \<le> cap"
    and push_room: "length (contents s) + length m \<le> cap \<Longrightarrow> push m s \<noteq> None"
    and pop_law: "pop n s = (d, s') \<Longrightarrow> d = take n (contents s) \<and> contents s' = drop n (contents s)"
begin

lemma run_conserves:
  "queue_run push pop ops s = (acc, out, t) \<Longrightarrow> length (contents s) \<le> cap \<Longrightarrow>
    concat out @ contents t = contents s @ concat acc \<and> length (contents t) \<le> cap"
proof (induction ops arbitrary: s acc out)
  case (Cons op ops)
  show ?case
  proof (cases op)
    case (Push m)
    show ?thesis
    proof (cases "push m s")
      case None
      then show ?thesis using Cons Push by simp
    next
      case (Some s')
      obtain acc' where r: "queue_run push pop ops s' = (acc', out, t)" "acc = m # acc'"
        using Cons.prems(1) Push Some by (auto split: prod.splits)
      have s': "contents s' = contents s @ m" "length (contents s') \<le> cap" using push_some [OF Some Cons.prems(2)] by blast+
      from Cons.IH [OF r(1) s'(2)] show ?thesis by (simp add: s'(1) r(2))
    qed
  next
    case (Pop n)
    obtain d s' where p: "pop n s = (d, s')" by fastforce
    obtain out' where r: "queue_run push pop ops s' = (acc, out', t)" "out = d # out'"
      using Cons.prems(1) Pop p by (auto split: prod.splits)
    have s': "d = take n (contents s)" "contents s' = drop n (contents s)" using pop_law [OF p] by simp_all
    have "length (contents s') \<le> cap" using s'(2) Cons.prems(2) by simp
    from Cons.IH [OF r(1) this] show ?thesis by (simp add: s' r(2))
  qed
qed simp

end

interpretation wsq: byte_queue recv_buf "on_msg_recv False" websocket_recv recv_cap
proof (unfold_locales, goal_cases)
  case (1 m s s')
  then show ?case by (auto simp: on_msg_recv_def recv_cap_def split: if_splits)
next
  case (2 s m)
  then show ?case by (auto simp: on_msg_recv_def)
next
  case (3 n s d s')
  then show ?case by (auto simp: websocket_recv_def Let_def split: if_splits)
qed

subsection \<open>Lemmas on the handshake\<close>

lemma send_loop_prefix:
  "send_loop h off ws sent = Inr (rc, out) \<Longrightarrow> sent = take off h \<Longrightarrow> \<exists>t. h = out @ t \<and> (rc = 0 \<longrightarrow> t = [])"
proof (induction h off ws sent arbitrary: rc out rule: send_loop.induct)
  case (1 h off ws sent)
  show ?case
  proof (cases "off < length h")
    case False
    then have "rc = 0" "out = sent" using 1(2) by (simp_all add: send_loop.simps [of h])
    then show ?thesis using False 1(3) by simp
  next
    case True
    then obtain r ws' where r: "retry ws = Inr (r, ws')"
        "(case r of Err e \<Rightarrow> Inr (-1, sent)
          | Got n \<Rightarrow> send_loop h (off + n) ws' (sent @ take n (drop off h))) = Inr (rc, out)"
      using 1(2) by (simp add: send_loop.simps [of h]) (auto simp: cres_simps)
    show ?thesis
    proof (cases r)
      case (Err e)
      then have "rc = -1" "out = take off h" using r(2) 1(3) by simp_all
      then show ?thesis by (intro exI [of _ "drop off h"]) simp
    next
      case (Got n)
      have "sent @ take n (drop off h) = take (off + n) h" using 1(3) by (simp add: take_add)
      then show ?thesis using 1(1) [OF True r(1) refl] Got r(2) by simp
    qed
  qed
qed

lemma recv_loop_chunk:
  "retry rs = Inr (Got buf, rs') \<Longrightarrow> buf \<noteq> [] \<Longrightarrow> recv_loop h rs =
    (if length buf \<ge> 4096 then Inl OutOfBounds
     else if length h + length buf + 1 > 8192 then Inr (-1, h)
     else if strstr header_end (h @ takeWhile (\<lambda>c. c \<noteq> NUL) buf) \<noteq> None
     then Inr (0, h @ takeWhile (\<lambda>c. c \<noteq> NUL) buf)
     else recv_loop (h @ takeWhile (\<lambda>c. c \<noteq> NUL) buf) rs')"
  by (cases buf, simp, subst recv_loop.simps, simp add: Let_def)

lemma recv_loop_bound:
  "recv_loop h rs = Inr (rc, out) \<Longrightarrow> length h < 8192 \<Longrightarrow>
    length out < 8192 \<and> (rc = 0 \<longrightarrow> strstr header_end out \<noteq> None) \<and> rc \<in> {0, -1}"
proof (induction rs arbitrary: h rule: measure_induct_rule [of length])
  case (less rs)
  obtain r rs' where r: "retry rs = Inr (r, rs')" using less.prems(1) by (cases "retry rs") (auto simp: recv_loop.simps [of h])
  show ?case
  proof (cases r)
    case (Err e)
    then show ?thesis using less.prems r by (simp add: recv_loop.simps [of h])
  next
    case (Got buf)
    show ?thesis
    proof (cases buf)
      case Nil
      then show ?thesis using less.prems r Got by (simp add: recv_loop.simps [of h])
    next
      case (Cons c cs)
      define g where "g = h @ takeWhile (\<lambda>c. c \<noteq> NUL) buf"
      have le: "length (takeWhile (\<lambda>c. c \<noteq> NUL) buf) \<le> length buf" by (rule length_takeWhile_le)
      have ne: "buf \<noteq> []" using Cons by simp
      have step: "(if length buf \<ge> 4096 then Inl OutOfBounds
           else if length h + length buf + 1 > 8192 then Inr (-1, h)
           else if strstr header_end g \<noteq> None then Inr (0, g) else recv_loop g rs') = Inr (rc, out)"
        using less.prems(1) unfolding recv_loop_chunk [OF r [unfolded Got] ne] g_def .
      then have small: "length buf < 4096" by (simp split: if_splits)
      show ?thesis
      proof (cases "length h + length buf + 1 > 8192")
        case True
        then show ?thesis using step less.prems(2) small by auto
      next
        case False
        then have h': "length g < 8192" using le by (simp add: g_def)
        show ?thesis
        proof (cases "strstr header_end g = None")
          case True
          then have "recv_loop g rs' = Inr (rc, out)" using step False small by simp
          then show ?thesis by (rule less.IH [OF retry_shorter [OF r] _ h'])
        next
          case hit: False
          then have "rc = 0 \<and> out = g" using step False small by auto
          then show ?thesis using hit h' by simp
        qed
      qed
    qed
  qed
qed

lemma acceptkey_eq: "websocket_create_acceptkey sha1 k = base64 (sha1 (k @ ws_guid))"
  by (simp add: websocket_create_acceptkey_def ws_guid_def)

lemma strstr_crlf: "CHR 0x0D \<notin> set key \<Longrightarrow> strstr crlf (key @ crlf @ t) = Some (crlf @ t)"
  by (induction key) (auto simp: crlf_def)

text \<open>Results of system calls among which only interruptions are errors, and what the calls gave.\<close>

fun gots :: "'a io list \<Rightarrow> 'a list" where
  "gots [] = []"
| "gots (Got x # rs) = x # gots rs"
| "gots (Err e # rs) = gots rs"

fun only_interrupted :: "'a io list \<Rightarrow> bool" where
  "only_interrupted [] \<longleftrightarrow> True"
| "only_interrupted (Got x # rs) \<longleftrightarrow> only_interrupted rs"
| "only_interrupted (Err e # rs) \<longleftrightarrow> e = EINTR \<and> only_interrupted rs"

lemma send_loop_eintr [simp]: "send_loop h off (Err EINTR # ws) sent = send_loop h off ws sent"
  by (subst (1 2) send_loop.simps) simp

lemma recv_loop_eintr [simp]: "recv_loop h (Err EINTR # rs) = recv_loop h rs"
  by (subst (1 2) recv_loop.simps) simp

lemma send_chunks:
  "only_interrupted ws \<Longrightarrow> off + sum_list (gots ws) = length h \<Longrightarrow> sent = take off h \<Longrightarrow>
    send_loop h off ws sent = Inr (0, h)"
proof (induction ws arbitrary: off sent rule: gots.induct)
  case 1
  then show ?case by (subst send_loop.simps) simp
next
  case (2 n ws)
  show ?case
  proof (cases "off < length h")
    case True
    have "send_loop h (off + n) ws (sent @ take n (drop off h)) = Inr (0, h)"
      by (rule "2.IH") (use "2.prems" in \<open>simp_all add: take_add\<close>)
    then show ?thesis using True by (subst send_loop.simps) simp
  next
    case False
    then show ?thesis using "2.prems" by (subst send_loop.simps) simp
  qed
qed simp

lemma strstr_prefix: "strstr needle (s @ t) = None \<Longrightarrow> strstr needle s = None"
proof (induction s)
  case (Cons c s)
  have "take (length needle) (c # s) \<noteq> needle"
  proof
    assume hit: "take (length needle) (c # s) = needle"
    then have "length needle \<le> length (c # s)" by (metis length_take min.absorb_iff2 nle_le)
    then have "take (length needle) (c # s @ t) = needle" using hit by (simp add: take_Cons' split: if_splits)
    then show False using Cons.prems by simp
  qed
  then show ?case using Cons by (simp split: if_splits)
qed (cases t; auto split: if_splits)

lemma recv_chunks:
  assumes "only_interrupted rs" "gots rs = cs @ [d]"
    "\<And>c. c \<in> set (gots rs) \<Longrightarrow> c \<noteq> [] \<and> length c < 4096 \<and> NUL \<notin> set c"
    "strstr header_end (h @ concat cs) = None" "strstr header_end (h @ concat (cs @ [d])) \<noteq> None"
    "length (h @ concat (cs @ [d])) < 8192"
  shows "recv_loop h rs = Inr (0, h @ concat (cs @ [d]))"
  using assms
proof (induction rs arbitrary: h cs rule: gots.induct)
  case (2 c rs)
  have c: "c \<noteq> []" "length c < 4096" "takeWhile (\<lambda>x. x \<noteq> NUL) c = c"
    using "2.prems"(3) [of c] by (auto simp: takeWhile_eq_all_conv)
  have step: "recv_loop h (Got c # rs) = (if length h + length c + 1 > 8192 then Inr (-1, h)
      else if strstr header_end (h @ c) \<noteq> None then Inr (0, h @ c) else recv_loop (h @ c) rs)"
    using recv_loop_chunk [of "Got c # rs" c rs h, unfolded c(3)] c(1,2) by simp
  show ?case
  proof (cases cs)
    case Nil
    then show ?thesis using "2.prems"(2,5,6) step by simp
  next
    case (Cons b bs)
    then have b: "b = c" "gots rs = bs @ [d]" using "2.prems"(2) by simp_all
    have "strstr header_end (h @ c) = None"
      using "2.prems"(4) strstr_prefix [of header_end "h @ c" "concat bs"] Cons b by simp
    moreover have "recv_loop (h @ c) rs = Inr (0, (h @ c) @ concat (bs @ [d]))"
      by (rule "2.IH") (use "2.prems" Cons b in auto)
    ultimately show ?thesis
      using step "2.prems"(6) Cons b(1) by simp
  qed
qed simp_all

text \<open>An answer that comes in pieces: the end of its header comes with the last piece.\<close>

definition in_pieces :: "string \<Rightarrow> string io list \<Rightarrow> bool" where
  "in_pieces resp rs \<longleftrightarrow> only_interrupted rs \<and> gots rs \<noteq> [] \<and> concat (gots rs) = resp \<and>
     list_all (\<lambda>c. c \<noteq> [] \<and> length c < 4096 \<and> NUL \<notin> set c) (gots rs) \<and>
     strstr header_end (concat (butlast (gots rs))) = None \<and> length resp < 8192"

lemma recv_pieces:
  assumes "in_pieces resp rs" "strstr header_end resp \<noteq> None"
  shows "recv_http_handshake rs = Inr (0, resp)"
proof -
  let ?cs = "butlast (gots rs)" and ?d = "last (gots rs)"
  have g: "gots rs = ?cs @ [?d]" using assms(1) by (simp add: in_pieces_def)
  then have "concat (?cs @ [?d]) = resp" using assms(1) by (simp add: in_pieces_def)
  then show ?thesis
    using recv_chunks [OF _ g, of "[]"] assms by (simp add: in_pieces_def recv_http_handshake_def list_all_iff)
qed

lemma random_kept: "NUL \<notin> set rnd \<Longrightarrow> length rnd = 16 \<Longrightarrow> get_random16 rnd = Inr rnd"
  by (simp add: get_random16_def)

text \<open>Replacing NULs ends with sixteen other bytes as soon as the random source gives enough of them.\<close>

lemma fix_nul_count: "NUL \<in> set s \<Longrightarrow> r \<noteq> NUL \<Longrightarrow> Suc (length (filter (\<lambda>c. c = NUL) (fix_nul s r))) = length (filter (\<lambda>c. c = NUL) s)"
  by (induction s) auto

lemma length_fix_nul [simp]: "length (fix_nul s r) = length s"
  by (induction s) auto

lemma fix_nuls_ok:
  "length (filter (\<lambda>c. c = NUL) s) \<le> length (filter (\<lambda>c. c \<noteq> NUL) rs) \<Longrightarrow>
    \<exists>t. fix_nuls s rs = Inr t \<and> length t = length s \<and> NUL \<notin> set t"
proof (induction rs arbitrary: s)
  case Nil
  then have "NUL \<notin> set s" by (auto simp: filter_empty_conv)
  then show ?case by simp
next
  case (Cons r rs)
  show ?case
  proof (cases "NUL \<in> set s")
    case True
    have "length (filter (\<lambda>c. c = NUL) (fix_nul s r)) \<le> length (filter (\<lambda>c. c \<noteq> NUL) rs)"
    proof (cases "r = NUL")
      case True
      have "length (filter (\<lambda>c. c = NUL) (fix_nul s NUL)) = length (filter (\<lambda>c. c = NUL) s)" by (induction s) auto
      then show ?thesis using Cons.prems True by simp
    next
      case False
      then show ?thesis using fix_nul_count [OF \<open>NUL \<in> set s\<close> False] Cons.prems by simp
    qed
    from Cons.IH [OF this] show ?thesis using True by auto
  qed simp
qed

lemma handshake_result:
  assumes rnd: "get_random16 rnd = Inr r16"
    and req: "req = handshake_request host service path (base64 (bytes_of r16))"
    and sent: "only_interrupted ws" "sum_list (gots ws) = length req"
    and answer: "in_pieces resp rs"
    and key: "strstr accept_tag resp = Some (accept_tag @ key @ crlf @ t)" "CHR 0x0D \<notin> set key"
    and bd: "strstr header_end resp = Some (header_end @ bd)"
  shows "http_handshake sha1 rnd ws rs host service path =
    Inr (if key = base64 (sha1 (base64 (bytes_of r16) @ ws_guid)) then Some bd else None)"
proof -
  have c: "check_answer sha1 ck resp = (if key = base64 (sha1 (ck @ ws_guid)) then Some bd else None)" for ck
    using key bd strstr_crlf [OF key(2)]
    by (simp add: check_answer_def acceptkey_eq accept_tag_def header_end_def crlf_def)
  have "send_http_handshake req ws = Inr (0, req)"
    using send_chunks [OF sent(1), of 0 req] sent(2) by (simp add: send_http_handshake_def)
  moreover have "recv_http_handshake rs = Inr (0, resp)"
    by (rule recv_pieces [OF answer]) (simp add: bd)
  ultimately show ?thesis
    by (simp add: http_handshake_def rnd c Let_def flip: req)
qed

definition ex_answer :: string where
  "ex_answer = ''HTTP/1.1 101'' @ crlf @ accept_tag @ ''AQID'' @ header_end @ ''hi''"

text \<open>A request written in one piece, its answer read in one.\<close>

lemma ex_handshake:
  "http_handshake (\<lambda>s. [1, 2, 3]) ''AAAAAAAAAAAAAAAA''
     [Got (length (handshake_request ''h'' ''80'' ''/'' (base64 (bytes_of ''AAAAAAAAAAAAAAAA''))))] [Got ex_answer] ''h'' ''80'' ''/'' =
   Inr (Some ''hi'')"
proof -
  have k: "base64 [1, 2, 3] = ''AQID''" by code_simp
  have p: "in_pieces ex_answer [Got ex_answer]"
    by (simp add: in_pieces_def ex_answer_def accept_tag_def crlf_def header_end_def NUL_def)
  have r: "get_random16 ''AAAAAAAAAAAAAAAA'' = Inr ''AAAAAAAAAAAAAAAA''" by (rule random_kept) (simp_all add: NUL_def)
  have "http_handshake (\<lambda>s. [1, 2, 3]) ''AAAAAAAAAAAAAAAA''
     [Got (length (handshake_request ''h'' ''80'' ''/'' (base64 (bytes_of ''AAAAAAAAAAAAAAAA''))))] [Got ex_answer] ''h'' ''80'' ''/'' =
     Inr (if ''AQID'' = base64 [1, 2, 3] then Some ''hi'' else None)"
    by (rule handshake_result [OF r refl _ _ p, where t = "crlf @ ''hi''"])
      (simp_all add: ex_answer_def accept_tag_def crlf_def header_end_def)
  then show ?thesis by (simp add: k)
qed

subsection \<open>Properties\<close>

text \<open>
  C23. The opening handshake: with the random bytes drawn, the request written in whatever pieces and an answer
  of less than 8192 bytes read in whatever pieces of less than 4096 (interrupted calls in between), it succeeds
  exactly when the accept key of the answer is the base64 form of the hash of the client key and the fixed
  identifier, and then returns the text behind the answer's header.
\<close>

theorem handshake_accepts:
  assumes "get_random16 rnd = Inr r16"
    and "req = handshake_request host service path (base64 (bytes_of r16))"
    and "only_interrupted ws" "sum_list (gots ws) = length req"
    and "in_pieces resp rs"
    and "strstr accept_tag resp = Some (accept_tag @ key @ crlf @ t)" "CHR 0x0D \<notin> set key"
    and "strstr header_end resp = Some (header_end @ bd)"
  shows "http_handshake sha1 rnd ws rs host service path =
    Inr (if key = base64 (sha1 (base64 (bytes_of r16) @ ws_guid)) then Some bd else None)"
  by (rule handshake_result [OF assms])

definition ex_request :: string where
  "ex_request = handshake_request ''h'' ''80'' ''/'' (base64 (bytes_of ''AAAAAAAAAAAAAAAA''))"

lemma handshake_accepts_witness:
  "http_handshake (\<lambda>s. [1, 2, 3]) ''AAAAAAAAAAAAAAAA'' [Err EINTR, Got 7, Got (length ex_request - 7)]
     [Got ''HTTP/1.1 101'', Err EINTR, Got (drop 12 ex_answer)] ''h'' ''80'' ''/'' = Inr (Some ''hi'')"
proof -
  let ?rs = "[Got ''HTTP/1.1 101'', Err EINTR, Got (drop 12 ex_answer)]"
  have k: "base64 [1, 2, 3] = ''AQID''" by code_simp
  have p: "in_pieces ex_answer ?rs"
    by (simp add: in_pieces_def ex_answer_def accept_tag_def crlf_def header_end_def NUL_def)
  have r: "get_random16 ''AAAAAAAAAAAAAAAA'' = Inr ''AAAAAAAAAAAAAAAA''" by (rule random_kept) (simp_all add: NUL_def)
  have l: "7 \<le> length ex_request" by (simp add: ex_request_def handshake_request_def snprintf_def crlf_def)
  have "http_handshake (\<lambda>s. [1, 2, 3]) ''AAAAAAAAAAAAAAAA'' [Err EINTR, Got 7, Got (length ex_request - 7)]
     ?rs ''h'' ''80'' ''/'' = Inr (if ''AQID'' = base64 [1, 2, 3] then Some ''hi'' else None)"
    by (rule handshake_accepts [OF r ex_request_def _ _ p, where t = "crlf @ ''hi''"])
      (use l in \<open>simp_all add: ex_answer_def accept_tag_def crlf_def header_end_def\<close>)
  then show ?thesis by (simp add: k)
qed

text \<open>
  Whatever the network delivers, the 8192 bytes for the answer's header are never exceeded: the reader stops
  with an error before, and it reports success only when the end of the header has come.
\<close>

lemma recv_header_bound:
  assumes "recv_http_handshake rs = Inr (rc, h)"
  shows "length h + 1 \<le> 8192 \<and> (rc = 0 \<longrightarrow> strstr header_end h \<noteq> None) \<and> rc \<in> {0, -1}"
  using recv_loop_bound [of "[]" rs rc h] assms by (auto simp: recv_http_handshake_def)

text \<open>
  The receive buffer is a first-in first-out queue of bytes: however messages arrive and callers read, the
  texts read so far followed by the buffer are the bytes that were there and the accepted messages, in order,
  nothing lost or repeated, and the buffer never holds more than its 8192 bytes.
\<close>

lemma ws_receive_queue:
  assumes "length (recv_buf ws) \<le> recv_cap" "queue_run (on_msg_recv False) websocket_recv ops ws = (acc, out, ws')"
  shows "concat out @ recv_buf ws' = recv_buf ws @ concat acc \<and> length (recv_buf ws') \<le> 8192"
  using wsq.run_conserves [OF assms(2,1)] by (simp add: recv_cap_def)

subsection \<open>Further behaviour\<close>

text \<open>A read that fills its own array of 4096 bytes writes its NUL past the end.\<close>

lemma full_read_overruns: "length buf = 4096 \<Longrightarrow> recv_http_handshake (Got buf # rs) = Inl OutOfBounds"
  using recv_loop_chunk [of "Got buf # rs" buf rs "[]"] by (cases buf) (simp_all add: recv_http_handshake_def)

text \<open>What was written of the request is a prefix of it, all of it when the return code is 0.\<close>

lemma send_complete:
  "send_http_handshake h ws = Inr (rc, out) \<Longrightarrow> \<exists>t. h = out @ t \<and> (rc = 0 \<longrightarrow> t = [])"
  using send_loop_prefix [of h 0 ws "[]" rc out] by (simp add: send_http_handshake_def)

text \<open>A message longer than the whole buffer is never accepted: the library's thread waits for ever.\<close>

lemma long_message_blocks: "length msg > 8192 \<Longrightarrow> on_msg_recv False msg ws = None"
  by (simp add: on_msg_recv_def recv_cap_def)

text \<open>The library gets the start of the body again and again, and more of it than there is when it asks for more.\<close>

lemma feed_body_overreads: "body_off ws < length (body ws) \<Longrightarrow> len > length (body ws) + 1 \<Longrightarrow> feed_body ws len = Inl OutOfBounds"
  by (simp add: feed_body_def)

lemma feed_body_repeats:
  assumes "0 < len" "2 * len \<le> length (body ws)" "body_off ws = 0"
  shows "\<exists>ws' ws''. feed_body ws len = Inr (take len (body ws), ws') \<and> feed_body ws' len = Inr (take len (body ws), ws'')"
  using assms by (simp add: feed_body_def)

lemma connect_to_first:
  "\<forall>a\<in>set bad. fst a = None \<or> (\<exists>e cs. snd a = Err e # cs \<and> e \<noteq> EINTR) \<Longrightarrow>
    try_addresses (bad @ (Some fd, Got () # cs) # rest) closed =
      Inr (Some fd, closed @ map (the \<circ> fst) (filter (\<lambda>a. fst a \<noteq> None) bad))"
proof (induction bad arbitrary: closed)
  case (Cons a bad)
  obtain p cs' where a: "a = (p, cs')" by fastforce
  show ?case
  proof (cases p)
    case (Some x)
    then obtain e ds where "cs' = Err e # ds" "e \<noteq> EINTR" using Cons.prems by (auto simp: a)
    then show ?thesis using Cons Some by (cases e) (simp_all add: a)
  qed (use Cons in \<open>simp add: a\<close>)
qed simp

end
