(* ===== verification/WebsocketLoop.thy ===== *)
theory WebsocketLoop
  imports WebsocketSpec
begin

section \<open>Opening a websocket and its event loop (\<^verbatim>\<open>utils/websocket.c\<close>)\<close>

text \<open>
  \<^verbatim>\<open>websocket_connect\<close> from the addresses to the started thread, and the thread that waits for the socket and lets
  the library \<^verbatim>\<open>wslay\<close> read and write. The library is a parameter: for the connection its \<^verbatim>\<open>wslay_event_recv\<close> as
  a function of the receive callback, for the thread a record of its functions on a context of any type.
\<close>

subsection \<open>Connecting\<close>

text \<open>What the calls outside give: the addresses (\<open>None\<close> when \<^verbatim>\<open>getaddrinfo\<close> fails), the random bytes, the results of
  the writes and reads of the handshake, whether \<^verbatim>\<open>setsockopt\<close> and \<^verbatim>\<open>pthread_create\<close> succeed.\<close>

record outside =
  addresses :: "(nat option \<times> unit io list) list option"
  random_bytes :: string
  writes :: "nat io list"
  reads :: "string io list"
  nodelay_ok :: bool
  thread_ok :: bool

text \<open>What is left: the result (\<open>None\<close> for the null pointer), the descriptors that were closed, the one that is open,
  and whether a \<^verbatim>\<open>struct WebSocketClient\<close> is allocated.\<close>

record connection =
  client :: "ws_client option"
  closed_fds :: "nat list"
  open_fd :: "nat option"
  allocated :: bool

definition websocket_client_new :: "string \<Rightarrow> ws_client" where
  "websocket_client_new bd = \<lparr>body = bd, body_off = 0, recv_buf = []\<rparr>"

text \<open>\<^verbatim>\<open>websocket_client_free\<close> cancels the thread of the client, which reads a handle that was never written unless
  \<^verbatim>\<open>pthread_create\<close> succeeded (\<open>created\<close>). It shuts the socket down but does not close it.\<close>

definition websocket_client_free :: "bool \<Rightarrow> connection \<Rightarrow> connection cres" where
  "websocket_client_free created c = (if \<not> created then Inl Uninit else Inr (c\<lparr>client := None, allocated := False\<rparr>))"

type_synonym library = "(nat \<Rightarrow> ws_client \<Rightarrow> (string \<times> ws_client) cres) \<Rightarrow> ws_client \<Rightarrow> (int \<times> ws_client) cres"

definition websocket_connect ::
    "(string \<Rightarrow> byte list) \<Rightarrow> library \<Rightarrow> outside \<Rightarrow> string \<Rightarrow> string \<Rightarrow> string \<Rightarrow> connection cres" where
  "websocket_connect sha1 receive out host service path =
     cbind (connect_to (addresses out)) (\<lambda>(fd, closed).
          case fd of
            None \<Rightarrow> Inr \<lparr>client = None, closed_fds = closed, open_fd = None, allocated = False\<rparr>
          | Some fd \<Rightarrow>
              cbind (http_handshake sha1 (random_bytes out) (writes out) (reads out) host service path) (\<lambda>r.
              case r of
                None \<Rightarrow> Inr \<lparr>client = None, closed_fds = closed @ [fd], open_fd = None, allocated = False\<rparr>
              | Some bd \<Rightarrow>
                  if \<not> nodelay_ok out
                  then Inr \<lparr>client = None, closed_fds = closed, open_fd = Some fd, allocated = False\<rparr>
                  else
                    cbind (receive (\<lambda>len ws. feed_body ws len) (websocket_client_new bd)) (\<lambda>(rc, ws).
                      if rc = -1 then Inr \<lparr>client = None, closed_fds = closed, open_fd = Some fd, allocated = True\<rparr>
                      else
                        let c = \<lparr>client = Some ws, closed_fds = closed, open_fd = Some fd, allocated = True\<rparr> in
                        if thread_ok out then Inr c else websocket_client_free False c)))"

subsection \<open>The event loop\<close>

record 'c wslay =
  want_read :: "'c \<Rightarrow> bool"
  want_write :: "'c \<Rightarrow> bool"
  event_recv :: "'c \<Rightarrow> int \<times> 'c"
  event_send :: "'c \<Rightarrow> int \<times> 'c"
  queue_msg :: "string \<Rightarrow> 'c \<Rightarrow> int \<times> 'c"

text \<open>The functions that only call the library.\<close>

definition websocket_client_want_read :: "'c wslay \<Rightarrow> 'c \<Rightarrow> bool" where
  [simp]: "websocket_client_want_read lib c = want_read lib c"

definition websocket_client_want_write :: "'c wslay \<Rightarrow> 'c \<Rightarrow> bool" where
  [simp]: "websocket_client_want_write lib c = want_write lib c"

definition websocket_client_on_read_event :: "'c wslay \<Rightarrow> 'c \<Rightarrow> int \<times> 'c" where
  [simp]: "websocket_client_on_read_event lib c = event_recv lib c"

definition websocket_client_on_write_event :: "'c wslay \<Rightarrow> 'c \<Rightarrow> int \<times> 'c" where
  [simp]: "websocket_client_on_write_event lib c = event_send lib c"

text \<open>\<^verbatim>\<open>websocket_send\<close>: the message is queued, whatever the library answers, and the size returned.\<close>

definition websocket_send :: "'c wslay \<Rightarrow> string \<Rightarrow> 'c \<Rightarrow> nat \<times> 'c" where
  "websocket_send lib msg c = (length msg, snd (queue_msg lib msg c))"

definition queue_all :: "'c wslay \<Rightarrow> string list \<Rightarrow> 'c \<Rightarrow> 'c" where
  "queue_all lib ms c = fold (\<lambda>m c. snd (websocket_send lib m c)) ms c"

text \<open>\<^verbatim>\<open>websocket_call\<close>: the request is queued, then the buffer is polled.\<close>

definition websocket_call :: "'c wslay \<Rightarrow> string \<Rightarrow> nat \<Rightarrow> nat \<Rightarrow> ((ws_client \<Rightarrow> ws_client) \<times> nat) list \<Rightarrow>
    ws_client \<times> 'c \<Rightarrow> (string \<times> ws_client \<times> 'c) cres" where
  "websocket_call lib json space timeout polls s =
     (case s of (ws, c) \<Rightarrow> case websocket_send lib json c of (n, c) \<Rightarrow>
        cbind (call_poll space timeout polls ws) (\<lambda>(data, ws). Inr (data, ws, c)))"

text \<open>
  The thread shares the context of the library with the callers of \<^verbatim>\<open>websocket_send\<close>, without a lock: before each
  call the thread makes, to the library or to \<^verbatim>\<open>epoll_wait\<close>, other threads may have queued messages. \<open>gaps\<close> gives
  these messages, one list for each call to come; \<open>arrived\<close> records those since the events were last registered.
  (Messages queued during a call of the library are a data race inside it, which is not modelled.)
\<close>

record 'c shared =
  ctx :: 'c
  gaps :: "string list list"
  arrived :: "string list"

definition others :: "'c wslay \<Rightarrow> 'c shared \<Rightarrow> 'c shared" where
  "others lib s =
     (case gaps s of
        [] \<Rightarrow> s
      | g # gs \<Rightarrow> s\<lparr>ctx := queue_all lib g (ctx s), gaps := gs, arrived := arrived s @ g\<rparr>)"

text \<open>A question to the library, and a call that changes its context.\<close>

definition ask :: "'c wslay \<Rightarrow> ('c \<Rightarrow> bool) \<Rightarrow> 'c shared \<Rightarrow> bool \<times> 'c shared" where
  "ask lib f s = (let s = others lib s in (f (ctx s), s))"

definition act :: "'c wslay \<Rightarrow> ('c \<Rightarrow> int \<times> 'c) \<Rightarrow> 'c shared \<Rightarrow> int \<times> 'c shared" where
  "act lib f s = (let s = others lib s in case f (ctx s) of (r, c) \<Rightarrow> (r, s\<lparr>ctx := c\<rparr>))"

text \<open>\<^verbatim>\<open>ctl_epollev\<close>: the events that are registered, \<^verbatim>\<open>EPOLLIN\<close> and \<^verbatim>\<open>EPOLLOUT\<close>, with the context of the last question.\<close>

definition ctl_epollev :: "'c wslay \<Rightarrow> 'c shared \<Rightarrow> ((bool \<times> bool) \<times> 'c) \<times> 'c shared" where
  "ctl_epollev lib s =
     (case ask lib (websocket_client_want_read lib) s of (r, s) \<Rightarrow>
      case ask lib (websocket_client_want_write lib) s of (w, s) \<Rightarrow> (((r, w), ctx s), s\<lparr>arrived := []\<rparr>))"

text \<open>The condition of the loop.\<close>

definition loop_test :: "'c wslay \<Rightarrow> 'c shared \<Rightarrow> bool \<times> 'c shared" where
  "loop_test lib s =
     (case ask lib (websocket_client_want_read lib) s of (r, s) \<Rightarrow>
        if r then (True, s) else ask lib (websocket_client_want_write lib) s)"

text \<open>The test of one event: it is read before it is written, and not written when reading failed.\<close>

definition serve_event :: "'c wslay \<Rightarrow> bool \<times> bool \<Rightarrow> 'c shared \<Rightarrow> bool \<times> 'c shared" where
  "serve_event lib e s =
     (case (if fst e then act lib (websocket_client_on_read_event lib) s else (0, s)) of (r, s) \<Rightarrow>
        if r \<noteq> 0 then (False, s)
        else (case (if snd e then act lib (websocket_client_on_write_event lib) s else (0, s)) of (w, s) \<Rightarrow> (w = 0, s)))"

fun serve_events :: "'c wslay \<Rightarrow> (bool \<times> bool) list \<Rightarrow> 'c shared \<Rightarrow> bool \<times> 'c shared" where
  "serve_events lib [] s = (True, s)"
| "serve_events lib (e # es) s = (case serve_event lib e s of (ok, s) \<Rightarrow> if ok then serve_events lib es s else (False, s))"

text \<open>
  One pass: what \<^verbatim>\<open>epoll_wait\<close> reports (\<open>None\<close>: -1; no event when its 100 milliseconds are over) and whether
  \<^verbatim>\<open>epoll_ctl\<close> succeeds afterwards. The ends of the thread: nothing is wanted any more, epoll failed, the library
  failed, the program exits; \<open>Waits\<close> when there are no more passes.
\<close>

record pass =
  woken :: "(bool \<times> bool) list option"
  ctl_ok :: bool

datatype thread_end = Waits | WantsNothing | EpollFails | LibraryFails | ProgramExits

text \<open>What is recorded of a call of \<^verbatim>\<open>epoll_wait\<close>: the registered events, the context of the question behind them, the
  messages that came since, and the context when the call is made.\<close>

record 'c wait =
  registered :: "bool \<times> bool"
  asked :: 'c
  since :: "string list"
  waiting :: 'c

definition epoll_wait :: "(bool \<times> bool) \<times> 'c \<Rightarrow> 'c shared \<Rightarrow> 'c wait" where
  "epoll_wait reg s = \<lparr>registered = fst reg, asked = snd reg, since = arrived s, waiting = ctx s\<rparr>"

fun thread_loop :: "'c wslay \<Rightarrow> pass list \<Rightarrow> (bool \<times> bool) \<times> 'c \<Rightarrow> 'c shared \<Rightarrow> 'c wait list \<Rightarrow>
    thread_end \<times> 'c shared \<times> 'c wait list" where
  "thread_loop lib [] reg s tr =
     (case loop_test lib s of (go, s) \<Rightarrow>
        if go then (Waits, others lib s, tr @ [epoll_wait reg (others lib s)]) else (WantsNothing, s, tr))"
| "thread_loop lib (p # ps) reg s tr =
     (case loop_test lib s of (go, s) \<Rightarrow>
        if go then
          (let s = others lib s; tr = tr @ [epoll_wait reg s] in
           case woken p of
             None \<Rightarrow> (EpollFails, s, tr)
           | Some es \<Rightarrow>
               (case serve_events lib es s of (ok, s) \<Rightarrow>
                  if \<not> ok then (LibraryFails, s, tr)
                  else (case ctl_epollev lib s of (reg, s) \<Rightarrow>
                    if \<not> ctl_ok p then (ProgramExits, s, tr)
                    else thread_loop lib ps reg s tr)))
        else (WantsNothing, s, tr))"

text \<open>\<^verbatim>\<open>websockets_thread\<close>; the first two arguments say whether \<^verbatim>\<open>epoll_create\<close> and the first \<^verbatim>\<open>epoll_ctl\<close> succeed.\<close>

definition websockets_thread :: "bool \<Rightarrow> bool \<Rightarrow> 'c wslay \<Rightarrow> pass list \<Rightarrow> string list list \<Rightarrow> 'c \<Rightarrow>
    thread_end \<times> 'c shared \<times> 'c wait list" where
  "websockets_thread created added lib ps gs c =
     (let s = \<lparr>ctx = c, gaps = gs, arrived = []\<rparr> in
      if \<not> created then (EpollFails, s, [])
      else case ctl_epollev lib s of (reg, s) \<Rightarrow>
        if \<not> added then (ProgramExits, s, []) else thread_loop lib ps reg s [])"

subsection \<open>Lemmas\<close>

text \<open>The first thing the library does when it is to receive is to ask for at most \<open>len\<close> bytes.\<close>

definition first_request :: "library \<Rightarrow> nat \<Rightarrow> bool" where
  "first_request receive len \<longleftrightarrow>
     (\<exists>rest. \<forall>cb ws. receive cb ws = cbind (cb len ws) (\<lambda>(d, ws). rest d ws))"

text \<open>The addresses, the handshake and the socket option went well.\<close>

definition opened :: "(string \<Rightarrow> byte list) \<Rightarrow> outside \<Rightarrow> string \<Rightarrow> string \<Rightarrow> string \<Rightarrow> nat \<Rightarrow> nat list \<Rightarrow> string \<Rightarrow> bool" where
  "opened sha1 out host service path fd closed bd \<longleftrightarrow>
     connect_to (addresses out) = Inr (Some fd, closed) \<and>
     http_handshake sha1 (random_bytes out) (writes out) (reads out) host service path = Inr (Some bd)"

lemma connect_opened:
  "opened sha1 out host service path fd closed bd \<Longrightarrow> websocket_connect sha1 receive out host service path =
    (if \<not> nodelay_ok out then Inr \<lparr>client = None, closed_fds = closed, open_fd = Some fd, allocated = False\<rparr>
     else cbind (receive (\<lambda>len ws. feed_body ws len) (websocket_client_new bd)) (\<lambda>(rc, ws).
       if rc = -1 then Inr \<lparr>client = None, closed_fds = closed, open_fd = Some fd, allocated = True\<rparr>
       else if thread_ok out then Inr \<lparr>client = Some ws, closed_fds = closed, open_fd = Some fd, allocated = True\<rparr>
       else Inl Uninit))"
  by (auto simp: opened_def websocket_connect_def websocket_client_free_def Let_def intro!: cbind_cong)

text \<open>What the loop relies on of the library: a queued message does not change whether it wants to read, and does
  not end that it wants to write.\<close>

definition queue_law :: "'c wslay \<Rightarrow> bool" where
  "queue_law lib \<longleftrightarrow> (\<forall>m c. want_read lib (snd (queue_msg lib m c)) = want_read lib c \<and>
     (want_write lib c \<longrightarrow> want_write lib (snd (queue_msg lib m c))))"

lemma queue_all_wants:
  assumes "queue_law lib"
  shows "want_read lib (queue_all lib ms c) = want_read lib c"
    "want_write lib c \<Longrightarrow> want_write lib (queue_all lib ms c)"
  by (induction ms arbitrary: c) (use assms in \<open>auto simp: queue_all_def queue_law_def websocket_send_def\<close>)

lemma queue_all_append: "queue_all lib (ms @ ns) c = queue_all lib ns (queue_all lib ms c)"
  by (simp add: queue_all_def)

lemma others_wants:
  assumes "queue_law lib"
  shows "want_read lib (ctx (others lib s)) = want_read lib (ctx s)"
    "want_write lib (ctx s) \<Longrightarrow> want_write lib (ctx (others lib s))"
  using queue_all_wants [OF assms] by (auto simp: others_def split: list.split)

text \<open>A registration is up to date but for the messages that arrived since.\<close>

definition current_reg :: "'c wslay \<Rightarrow> (bool \<times> bool) \<times> 'c \<Rightarrow> 'c shared \<Rightarrow> bool" where
  "current_reg lib reg s \<longleftrightarrow> fst reg = (want_read lib (snd reg), want_write lib (snd reg)) \<and>
     ctx s = queue_all lib (arrived s) (snd reg)"

lemma current_others: "current_reg lib reg s \<Longrightarrow> current_reg lib reg (others lib s)"
  by (auto simp: current_reg_def others_def queue_all_append split: list.split)

lemma current_ctl:
  assumes "queue_law lib" "ctl_epollev lib s = (reg, s')"
  shows "current_reg lib reg s'"
proof -
  let ?t = "others lib (others lib s)"
  have "want_read lib (ctx (others lib s)) = want_read lib (ctx ?t)" using others_wants(1) [OF assms(1)] by metis
  moreover have "reg = ((want_read lib (ctx (others lib s)), want_write lib (ctx ?t)), ctx ?t)" "s' = ?t\<lparr>arrived := []\<rparr>"
    using assms(2) by (simp_all add: ctl_epollev_def ask_def Let_def)
  ultimately show ?thesis by (simp add: current_reg_def queue_all_def)
qed

lemma loop_test_go:
  assumes "queue_law lib" "loop_test lib s = (go, s')"
  shows "go = (want_read lib (ctx s') \<or> want_write lib (ctx s'))" "current_reg lib reg s \<Longrightarrow> current_reg lib reg s'"
proof -
  have "go = (want_read lib (ctx s') \<or> want_write lib (ctx s')) \<and> (current_reg lib reg s \<longrightarrow> current_reg lib reg s')"
    using assms(2) others_wants(1) [OF assms(1), of "others lib s"] current_others [of lib reg]
    by (auto simp: loop_test_def ask_def Let_def split: if_splits)
  then show "go = (want_read lib (ctx s') \<or> want_write lib (ctx s'))" "current_reg lib reg s \<Longrightarrow> current_reg lib reg s'"
    by blast+
qed

text \<open>What holds of a recorded wait.\<close>

definition wait_ok :: "'c wslay \<Rightarrow> 'c wait \<Rightarrow> bool" where
  "wait_ok lib w \<longleftrightarrow> registered w = (want_read lib (asked w), want_write lib (asked w)) \<and>
     waiting w = queue_all lib (since w) (asked w) \<and> (want_read lib (waiting w) \<or> want_write lib (waiting w))"

lemma wait_recorded:
  assumes "queue_law lib" "current_reg lib reg s" "loop_test lib s = (True, s')"
  shows "wait_ok lib (epoll_wait reg (others lib s'))"
proof -
  have "want_read lib (ctx s') \<or> want_write lib (ctx s')" "current_reg lib reg s'"
    using loop_test_go [OF assms(1,3)] assms(2) by simp_all
  then have "want_read lib (ctx (others lib s')) \<or> want_write lib (ctx (others lib s'))"
      "current_reg lib reg (others lib s')"
    using others_wants [OF assms(1)] current_others by blast+
  then show ?thesis by (simp add: wait_ok_def epoll_wait_def current_reg_def)
qed

lemma thread_loop_trace:
  "thread_loop lib ps reg s tr = (e, s', tr') \<Longrightarrow> queue_law lib \<Longrightarrow> current_reg lib reg s \<Longrightarrow> list_all (wait_ok lib) tr \<Longrightarrow>
    list_all (wait_ok lib) tr' \<and> (e = WantsNothing \<longrightarrow> \<not> want_read lib (ctx s') \<and> \<not> want_write lib (ctx s'))"
proof (induction ps arbitrary: reg s tr)
  case Nil
  obtain go t where t: "loop_test lib s = (go, t)" by fastforce
  show ?case
    using Nil t wait_recorded [OF Nil.prems(2,3), of t] loop_test_go(1) [OF Nil.prems(2) t] by (auto split: if_splits)
next
  case (Cons p ps)
  obtain go t where t: "loop_test lib s = (go, t)" by fastforce
  show ?case
  proof (cases go)
    case False
    then show ?thesis using Cons.prems t loop_test_go(1) [OF Cons.prems(2) t] by auto
  next
    case True
    let ?u = "others lib t"
    let ?tr = "tr @ [epoll_wait reg ?u]"
    have tr: "list_all (wait_ok lib) ?tr"
      using wait_recorded [OF Cons.prems(2,3)] t True Cons.prems(4) by simp
    show ?thesis
    proof (cases "woken p")
      case None
      then show ?thesis using Cons.prems(1) t True tr by (auto simp: Let_def)
    next
      case (Some es)
      obtain ok v where v: "serve_events lib es ?u = (ok, v)" by fastforce
      obtain reg' w where w: "ctl_epollev lib v = (reg', w)" by fastforce
      show ?thesis
      proof (cases "ok \<and> ctl_ok p")
        case True
        then have "thread_loop lib ps reg' w ?tr = (e, s', tr')"
          using Cons.prems(1) t \<open>go\<close> Some v w by (simp add: Let_def)
        from Cons.IH [OF this Cons.prems(2) current_ctl [OF Cons.prems(2) w] tr] show ?thesis .
      next
        case False
        then show ?thesis using Cons.prems(1) t \<open>go\<close> Some v w tr by (auto simp: Let_def split: if_splits)
      qed
    qed
  qed
qed

text \<open>What a call returns leaves room for the NUL behind it, and is not empty unless the time is over.\<close>

lemma call_poll_result:
  "call_poll space timeout polls ws = Inr (data, ws') \<Longrightarrow>
    (data = [] \<or> length data + 1 \<le> space) \<and> (data = [] \<longrightarrow> (\<exists>p\<in>set polls. timeout \<le> snd p))"
proof (induction polls arbitrary: ws)
  case (Cons p polls)
  obtain arrive now where p: "p = (arrive, now)" by fastforce
  obtain d w where d: "websocket_recv (space - 1) (arrive ws) = (d, w)" by fastforce
  have len: "length d \<le> space - 1" and nil: "d \<noteq> [] \<Longrightarrow> recv_buf (arrive ws) \<noteq> []"
    using wsq.pop_law [OF d] by auto
  have no: "\<not> (space = 0 \<and> recv_buf (arrive ws) \<noteq> [])" by (rule notI) (use Cons.prems p in \<open>simp add: Let_def\<close>)
  show ?case
  proof (cases "d \<noteq> [] \<or> now \<ge> timeout")
    case True
    then have "data = d" using Cons.prems p d no by (simp add: Let_def)
    then show ?thesis using True len nil no p by (cases space) auto
  next
    case False
    then have "call_poll space timeout polls w = Inr (data, ws')" using Cons.prems p d no by (simp add: Let_def)
    from Cons.IH [OF this] show ?thesis by auto
  qed
qed simp

lemma websocket_call_result:
  "websocket_call lib json space timeout polls (ws, c) = Inr (data, ws', c') \<Longrightarrow>
    (data = [] \<or> length data + 1 \<le> space) \<and> c' = snd (queue_msg lib json c)"
  using call_poll_result [of space timeout polls ws data ws']
  by (auto simp: websocket_call_def websocket_send_def cres_simps)

subsection \<open>Properties\<close>

text \<open>
  C35. Whatever the callers queue between any two calls of the thread: at every wait of the event loop the library
  wants something, reading is waited for exactly when the library wants to read at that moment, and writing is
  waited for only when it wants to write. A wish to write is missed only when a message was queued since the
  library was last asked, which was after its last reading and writing; when the thread ends because nothing is
  wanted, nothing is.
\<close>

theorem ws_waits_for_wanted:
  assumes "websockets_thread created added lib ps gs c = (e, s, tr)" "queue_law lib"
  shows "(\<forall>w\<in>set tr. (want_read lib (waiting w) \<or> want_write lib (waiting w)) \<and>
      fst (registered w) = want_read lib (waiting w) \<and> (snd (registered w) \<longrightarrow> want_write lib (waiting w)) \<and>
      (want_write lib (waiting w) \<and> \<not> snd (registered w) \<longrightarrow> since w \<noteq> []) \<and>
      snd (registered w) = want_write lib (asked w) \<and> waiting w = queue_all lib (since w) (asked w)) \<and>
    (e = WantsNothing \<longrightarrow> \<not> want_read lib (ctx s) \<and> \<not> want_write lib (ctx s))"
proof -
  obtain reg t where t: "ctl_epollev lib \<lparr>ctx = c, gaps = gs, arrived = []\<rparr> = (reg, t)" by fastforce
  have "list_all (wait_ok lib) tr \<and> (e = WantsNothing \<longrightarrow> \<not> want_read lib (ctx s) \<and> \<not> want_write lib (ctx s))"
    using thread_loop_trace [of lib ps reg t "[]" e s tr] assms t current_ctl [OF assms(2) t]
    by (auto simp: websockets_thread_def Let_def split: if_splits)
  then show ?thesis
    using queue_all_wants [OF assms(2)] by (auto simp: list_all_iff wait_ok_def queue_all_def)
qed

text \<open>A library whose context counts the messages to send: every write sends one, reading ends with the input.\<close>

definition ex_lib :: "(nat \<times> nat) wslay" where
  "ex_lib = \<lparr>want_read = (\<lambda>(r, w). 0 < r), want_write = (\<lambda>(r, w). 0 < w),
     event_recv = (\<lambda>(r, w). (0, r - 1, w)), event_send = (\<lambda>(r, w). (0, r, w - 1)),
     queue_msg = (\<lambda>m (r, w). (0, r, w + 1))\<rparr>"

lemma ex_lib_law: "queue_law ex_lib"
  by (simp add: queue_law_def ex_lib_def split: prod.split)

text \<open>The first message comes while the thread waits the first time, the second between its questions and the call of
  \<^verbatim>\<open>epoll_wait\<close>.\<close>

definition ex_passes :: "pass list" where
  "ex_passes = [\<lparr>woken = Some [], ctl_ok = True\<rparr>, \<lparr>woken = Some [(True, True)], ctl_ok = True\<rparr>, \<lparr>woken = Some [], ctl_ok = True\<rparr>]"

definition ex_gaps :: "string list list" where
  "ex_gaps = [[], [], [], [], [''x''], [], [], [], [], [], [], [], [], [''y'']]"

definition ex_waits :: "(nat \<times> nat) wait list" where
  "ex_waits =
     [\<lparr>registered = (True, False), asked = (2, 0), since = [], waiting = (2, 0)\<rparr>,
      \<lparr>registered = (True, True), asked = (2, 1), since = [], waiting = (2, 1)\<rparr>,
      \<lparr>registered = (True, False), asked = (1, 0), since = [''y''], waiting = (1, 1)\<rparr>,
      \<lparr>registered = (True, True), asked = (1, 1), since = [], waiting = (1, 1)\<rparr>]"

lemma ex_thread:
  "websockets_thread True True ex_lib ex_passes ex_gaps (2, 0) =
     (Waits, \<lparr>ctx = (1, 1), gaps = [], arrived = []\<rparr>, ex_waits)"
  by code_simp

lemma ws_waits_for_wanted_witness:
  "websockets_thread True True ex_lib ex_passes ex_gaps (2, 0) = (Waits, \<lparr>ctx = (1, 1), gaps = [], arrived = []\<rparr>, ex_waits) \<and>
    want_read ex_lib (1, 1) \<and> want_read ex_lib (2, 1) \<and> want_write ex_lib (2, 1)"
proof -
  note all = conjunct1 [OF ws_waits_for_wanted [OF ex_thread ex_lib_law]]
  have "fst (registered (ex_waits ! 2)) = want_read ex_lib (waiting (ex_waits ! 2))"
    by (rule all [THEN bspec, THEN conjunct2, THEN conjunct1]) (simp add: ex_waits_def)
  then have "want_read ex_lib (1, 1)" by (simp add: ex_waits_def)
  then show ?thesis using ex_thread by (simp add: ex_lib_def)
qed

text \<open>So the third wait of this run is not for what the library wants: the message queued between the question and
  the call of \<^verbatim>\<open>epoll_wait\<close> is sent only after the wait is over, which may take its 100 milliseconds.\<close>

lemma ws_wait_misses:
  "\<exists>w\<in>set (snd (snd (websockets_thread True True ex_lib ex_passes ex_gaps (2, 0)))).
    want_write ex_lib (waiting w) \<and> \<not> snd (registered w) \<and> since w = [''y'']"
proof -
  have "ex_waits ! 2 \<in> set ex_waits" by (simp add: ex_waits_def)
  moreover have "want_write ex_lib (waiting (ex_waits ! 2))" "\<not> snd (registered (ex_waits ! 2))"
      "since (ex_waits ! 2) = [''y'']"
    by (simp_all add: ex_waits_def ex_lib_def)
  ultimately show ?thesis unfolding ex_thread by auto
qed






text \<open>
  When bytes follow the header of the answer and the library asks for more than these bytes and their NUL,
  opening the websocket reads past the end of the copy of the body: the amount that is left is computed but not
  used.
\<close>

lemma ws_connect_overreads:
  assumes "opened sha1 out host service path fd closed bd" "nodelay_ok out" "first_request receive len"
    and "bd \<noteq> []" "length bd + 1 < len"
  shows "websocket_connect sha1 receive out host service path = Inl OutOfBounds"
proof -
  have "feed_body (websocket_client_new bd) len = Inl OutOfBounds"
    using assms(4,5) by (simp add: feed_body_def websocket_client_new_def)
  then have "receive (\<lambda>len ws. feed_body ws len) (websocket_client_new bd) = Inl OutOfBounds"
    using assms(3) by (auto simp: first_request_def)
  then show ?thesis using assms(2) by (simp add: connect_opened [OF assms(1)])
qed

end
