(* ===== verification/Acceptance.thy ===== *)
theory Acceptance
  imports Pipeline WebsocketLoop
begin

section \<open>The test programs (\<^verbatim>\<open>test/\<close>, \<^verbatim>\<open>client/test_client.c\<close>)\<close>

text \<open>
  The tests of the repository as functions of what the network answers: they call the parts of the bridge through
  the function pointers of the vendors, so what they find is decided by the other theories. The threads
  \<^verbatim>\<open>vendor_get\<close> starts and the releases at the label \<^verbatim>\<open>exit\<close> do not change a result and are left out.
\<close>

subsection \<open>Order books (\<^verbatim>\<open>test/test_book.h\<close>)\<close>

text \<open>The call \<^verbatim>\<open>vendor->books_get(market)\<close>.\<close>

definition call_books_get :: "curl_perform \<Rightarrow> bool \<Rightarrow> jsmntok list \<Rightarrow> exchange option \<Rightarrow> market \<Rightarrow> book list cres" where
  "call_books_get perform handle ts0 f m =
     (case f of
        None \<Rightarrow> Inl BadPointer
      | Some Mock \<Rightarrow> Inr (mock_get_books m)
      | Some Bittrex \<Rightarrow> bittrex_get_books perform handle ts0 m
      | Some Btc38 \<Rightarrow> btc38_get_books perform handle ts0 m
      | Some Poloniex \<Rightarrow> poloniex_get_books perform handle ts0 m)"

text \<open>The negation of \<^verbatim>\<open>x <= 0\<close>, which holds of the NaN.\<close>

fun above_zero :: "double \<Rightarrow> bool" where
  "above_zero (Fin m e) = (0 < m)"
| "above_zero (Inf neg) = (\<not> neg)"
| "above_zero NaN = True"

definition level_positive :: "book \<Rightarrow> bool" where
  "level_positive b \<longleftrightarrow>
     above_zero (ask_price b) \<and> above_zero (ask_qty b) \<and> above_zero (bid_price b) \<and> above_zero (bid_qty b)"

text \<open>\<^verbatim>\<open>verify_book\<close>: a book of one level is reported, and then its second level is read.\<close>

fun verify_book :: "book list \<Rightarrow> bool cres" where
  "verify_book [] = Inl BadPointer"
| "verify_book [b] = Inl BadPointer"
| "verify_book (b # c # bk) = Inr (level_positive b \<and> level_positive c)"

text \<open>The mock vendor, of which the test reads one price.\<close>

definition test_book_mock :: "curl_perform \<Rightarrow> bool \<Rightarrow> jsmntok list \<Rightarrow> bool cres" where
  "test_book_mock perform handle ts0 =
     (let v = vendor_get ''mock'' in
      cbind (call_markets_get perform handle ts0 (markets_get v)) (\<lambda>ms.
      case ms of [] \<Rightarrow> Inr False
      | m # _ \<Rightarrow>
          cbind (call_books_get perform handle ts0 (books_get v) m) (\<lambda>bk.
          case bk of [] \<Rightarrow> Inr False | b # _ \<Rightarrow> Inr (above_zero (bid_price b)))))"

text \<open>The loop over the vendors that list the pair, the names of those whose book is not verified are printed. The
  three exchanges follow the pointer to the market at once, which is null when the pair was found the other
  way round.\<close>

fun check_books :: "curl_perform \<Rightarrow> bool \<Rightarrow> jsmntok list \<Rightarrow> vendor list \<Rightarrow> string option list cres" where
  "check_books perform handle ts0 [] = Inr []"
| "check_books perform handle ts0 (v # vs) =
     cbind (market_get (current_market v) ''BTC'' ''LTC'') (\<lambda>found.
     case found of [] \<Rightarrow> Inl BadPointer
     | m # _ \<Rightarrow>
         cbind (call_books_get perform handle ts0 (books_get v) m) (\<lambda>bk.
         cbind (verify_book bk) (\<lambda>ok.
         cbind (check_books perform handle ts0 vs) (\<lambda>bad. Inr (if ok then bad else vendor_name v # bad)))))"

text \<open>\<^verbatim>\<open>test_book_all\<close> waits until every vendor has its first list; the result and the names that are printed.\<close>

definition test_book_all :: "curl_perform \<Rightarrow> bool \<Rightarrow> jsmntok list \<Rightarrow> (bool \<times> string option list) cres" where
  "test_book_all perform handle ts0 =
     cbind (refresh_all perform handle ts0 vendors_get_all) (\<lambda>vs.
     cbind (vendors_with_market vs ''BTC'' ''LTC'') (\<lambda>ws.
     cbind (check_books perform handle ts0 ws) (\<lambda>bad. Inr (length ws = 2, bad))))"

subsection \<open>The tests of one exchange\<close>

text \<open>The part the three have in common: the first market of the pair, its book, its verification; no market and no
  book are failures.\<close>

definition verified_book :: "curl_perform \<Rightarrow> bool \<Rightarrow> jsmntok list \<Rightarrow> vendor \<Rightarrow> string \<Rightarrow> string \<Rightarrow> (book list \<times> bool) cres" where
  "verified_book perform handle ts0 v base mkt =
     cbind (call_markets_get perform handle ts0 (markets_get v)) (\<lambda>ms.
     if ms = [] then Inr ([], False)
     else cbind (market_get ms base mkt) (\<lambda>found.
       case found of [] \<Rightarrow> Inr ([], False)
       | m # _ \<Rightarrow>
           cbind (call_books_get perform handle ts0 (books_get v) m) (\<lambda>bk.
           if bk = [] then Inr ([], False)
           else cbind (verify_book bk) (\<lambda>ok. Inr (bk, ok)))))"

definition test_book_bittrex :: "curl_perform \<Rightarrow> bool \<Rightarrow> jsmntok list \<Rightarrow> bool cres" where
  "test_book_bittrex perform handle ts0 =
     cbind (verified_book perform handle ts0 (vendor_get ''bittrex'') ''BTC'' ''LTC'') (\<lambda>(bk, ok).
       Inr (ok \<and> tl bk \<noteq> []))"

definition test_book_btc38 :: "curl_perform \<Rightarrow> bool \<Rightarrow> jsmntok list \<Rightarrow> bool cres" where
  "test_book_btc38 perform handle ts0 =
     cbind (verified_book perform handle ts0 (vendor_get ''btc38'') ''BTC'' ''QRK'') (\<lambda>(bk, ok). Inr ok)"

definition test_book_poloniex :: "curl_perform \<Rightarrow> bool \<Rightarrow> jsmntok list \<Rightarrow> bool cres" where
  "test_book_poloniex perform handle ts0 =
     cbind (verified_book perform handle ts0 (vendor_get ''poloniex'') ''BTC'' ''LTC'') (\<lambda>(bk, ok). Inr ok)"

definition test_market_bittrex :: "curl_perform \<Rightarrow> bool \<Rightarrow> jsmntok list \<Rightarrow> bool cres" where
  "test_market_bittrex perform handle ts0 =
     cbind (call_markets_get perform handle ts0 (markets_get (vendor_get ''bittrex''))) (\<lambda>ms.
       Inr (case ms of m # m' # _ \<Rightarrow> True | _ \<Rightarrow> False))"

definition test_book_bittrex_url :: "bool cres" where
  "test_book_bittrex_url =
     cbind (bittrex_build_url ''public'' ''getmarkets'' None) (\<lambda>results.
     if results \<noteq> ''https://bittrex.com/api/v1.1/public/getmarkets'' then Inr False
     else cbind (bittrex_build_url ''market'' ''buylimit'' (Some ''nonce'')) (\<lambda>results.
       Inr (results = ''https://bittrex.com/api/v1.1/market/buylimit?apikey=55bbbe56a47046ac858f26110b044b6d&nonce=nonce'')))"

text \<open>The balances: any answer that is taken apart passes.\<close>

definition test_bittrex_account_balance ::
    "curl_perform \<Rightarrow> bool \<Rightarrow> (string \<Rightarrow> string \<Rightarrow> 8 word list option) \<Rightarrow> nat \<times> nat \<Rightarrow> jsmntok list \<Rightarrow> bool cres" where
  "test_bittrex_account_balance perform handle hmac tval ts0 =
     cbind (bittrex_balance perform handle hmac tval ts0 ''BTC'') (\<lambda>b. Inr (b \<noteq> None))"

definition test_btc38_account_balance ::
    "curl_perform \<Rightarrow> bool \<Rightarrow> (string \<Rightarrow> 8 word list) \<Rightarrow> nat \<times> nat \<Rightarrow> (nat \<Rightarrow> jsmntok) \<Rightarrow> bool cres" where
  "test_btc38_account_balance perform handle md5 tval stack =
     cbind (btc38_balance perform handle md5 tval stack ''BTC'') (\<lambda>b. Inr (b \<noteq> None))"

definition test_poloniex_account_balance ::
    "curl_perform \<Rightarrow> bool \<Rightarrow> (string \<Rightarrow> string \<Rightarrow> 8 word list option) \<Rightarrow> nat \<times> nat \<Rightarrow> (nat \<Rightarrow> jsmntok) \<Rightarrow> bool cres" where
  "test_poloniex_account_balance perform handle hmac tval stack =
     cbind (poloniex_balance perform handle hmac tval stack ''BTC'') (\<lambda>b. Inr (b \<noteq> None))"

subsection \<open>The websocket (\<^verbatim>\<open>test/test_ws.h\<close>)\<close>

definition tst_json :: "string list" where
  "tst_json =
     [''{\"method\": \"call\", \"params\": [1, \"login\", [\"\", \"\"]], \"id\": 1}'',
      ''{\"method\": \"call\", \"params\": [1, \"database\", []], \"id\": 2}'',
      ''{\"method\": \"call\", \"params\": [1, \"history\", []], \"id\": 3}'',
      ''{\"method\": \"call\", \"params\": [2, \"set_subscribe_callback\", [5, false]], \"id\": 4}'',
      ''{\"method\": \"call\", \"params\": [2, \"get_objects\", [[\"2.1.0\"]]], \"id\": 5}'']"

text \<open>The loop over the requests: each has its polls, as in \<^verbatim>\<open>websocket_call\<close>; a timeout ends the test. The answers are
  what is printed.\<close>

fun call_each :: "'c wslay \<Rightarrow> string list \<Rightarrow> ((ws_client \<Rightarrow> ws_client) \<times> nat) list list \<Rightarrow> ws_client \<times> 'c \<Rightarrow>
    (bool \<times> string list) cres" where
  "call_each lib [] polls s = Inr (True, [])"
| "call_each lib (json # rest) polls s =
     cbind (websocket_call lib json 4096 60 (case polls of [] \<Rightarrow> [] | p # _ \<Rightarrow> p) s) (\<lambda>(data, s).
     if data = [] then Inr (False, [])
     else cbind (call_each lib rest (tl polls) s) (\<lambda>(ok, shown). Inr (ok, data # shown)))"

definition test_connect :: "(string \<Rightarrow> byte list) \<Rightarrow> library \<Rightarrow> outside \<Rightarrow> 'c wslay \<Rightarrow> 'c \<Rightarrow>
    ((ws_client \<Rightarrow> ws_client) \<times> nat) list list \<Rightarrow> (bool \<times> string list) cres" where
  "test_connect sha1 recv out lib c polls =
     cbind (websocket_connect sha1 recv out ''127.0.0.1'' ''8090'' ''/'') (\<lambda>con.
     case client con of None \<Rightarrow> Inr (False, [])
     | Some ws \<Rightarrow> call_each lib tst_json polls (ws, c))"

subsection \<open>Running the tests (\<^verbatim>\<open>test/testit.c\<close>)\<close>

datatype summary = NoTests | Failed nat | AllPassed nat

text \<open>\<^verbatim>\<open>testit\<close>: 1 for a test that failed.\<close>

definition testit :: "bool cres \<Rightarrow> nat cres" where
  "testit func = cbind func (\<lambda>ok. Inr (if ok then 0 else 1))"

text \<open>The name on the command line; some shells leave the quotes.\<close>

definition unquote :: "string \<Rightarrow> string" where
  "unquote a = (case a of c # s \<Rightarrow> if c = CHR 0x27 then butlast s else a | [] \<Rightarrow> [])"

fun run_tests :: "string option \<Rightarrow> (string \<times> bool cres) list \<Rightarrow> nat \<times> nat \<Rightarrow> (nat \<times> nat) cres" where
  "run_tests wanted [] (tests_ran, counter) = Inr (tests_ran, counter)"
| "run_tests wanted ((name, func) # tests) (tests_ran, counter) =
     (if wanted = None \<or> wanted = Some name then
        cbind (testit func) (\<lambda>k. run_tests wanted tests (tests_ran + 1, counter + k))
      else run_tests wanted tests (tests_ran, counter))"

definition test_names :: "string list" where
  "test_names =
     [''test_connect'', ''test_book_mock'', ''test_book_bittrex_url'', ''test_book_bittrex'', ''test_market_bittrex'',
      ''test_book_btc38'', ''test_book_all'', ''test_book_poloniex'', ''test_poloniex_account_balance'',
      ''test_bittrex_account_balance'', ''test_btc38_account_balance'']"

text \<open>The line at the end and the exit status of the program.\<close>

definition test_main :: "string list \<Rightarrow> (string \<times> bool cres) list \<Rightarrow> (summary \<times> int) cres" where
  "test_main argv tests =
     cbind (run_tests (case argv of _ # a # _ \<Rightarrow> Some (unquote a) | _ \<Rightarrow> None) tests (0, 0)) (\<lambda>(tests_ran, counter).
       Inr (if tests_ran = 0 then NoTests else if counter > 0 then Failed counter else AllPassed tests_ran, 1))"

subsection \<open>The test client (\<^verbatim>\<open>client/test_client.c\<close>)\<close>

datatype client_end = Usage | NoConnection | NotWritten | NotRead | Shows nat char string

text \<open>\<^verbatim>\<open>socket_open\<close>: whether \<^verbatim>\<open>socket\<close>, \<^verbatim>\<open>gethostbyname\<close> and \<^verbatim>\<open>connect\<close> succeed.\<close>

definition socket_open :: "nat option \<Rightarrow> bool \<Rightarrow> bool \<Rightarrow> nat option" where
  "socket_open sock host_known reached =
     (case sock of None \<Rightarrow> None | Some fd \<Rightarrow> if host_known \<and> reached then Some fd else None)"

text \<open>The message is written and one read is shown, out of a buffer of 256 zeros; \<^verbatim>\<open>peer\<close> is what the server makes of
  the message and what one read of its answer delivers.\<close>

definition test_client :: "string list \<Rightarrow> nat option \<Rightarrow> bool \<Rightarrow> bool \<Rightarrow> bool \<Rightarrow> (string \<Rightarrow> string option) \<Rightarrow> client_end" where
  "test_client argv sock host_known reached write_ok peer =
     (if length argv < 4 then Usage
      else case socket_open sock host_known reached of
        None \<Rightarrow> NoConnection
      | Some fd \<Rightarrow>
          if \<not> write_ok then NotWritten
          else case peer (argv ! 3) of
            None \<Rightarrow> NotRead
          | Some answer \<Rightarrow>
              let n = min 255 (length answer);
                  buffer = take n answer @ replicate (256 - n) NUL
              in Shows n (buffer ! 0) (takeWhile (\<lambda>c. c \<noteq> NUL) buffer))"

end
