(* ===== verification/AcceptanceSpec.thy ===== *)
theory AcceptanceSpec
  imports Acceptance
begin

section \<open>What the tests decide\<close>

text \<open>
  The tests of order books in terms of what the exchanges answer: the pair must be listed by exactly two of them, and
  a test looks at two levels of what the module shows of the book. The other tests are evaluated or follow from the
  theorems on the parts they call.
\<close>

subsection \<open>Verified books\<close>

text \<open>A book from the amounts of its two sides, and the sides that pass: two levels of positive numbers.\<close>

definition sides :: "(double \<times> double) list \<Rightarrow> (double \<times> double) list \<Rightarrow> book list" where
  "sides bids asks = zip_sides (map (\<lambda>(q, r). set_bid q r) bids) (map (\<lambda>(q, r). set_ask q r) asks)"

fun two_levels :: "(double \<times> double) list \<Rightarrow> bool" where
  "two_levels (x # y # _) = (above_zero (fst x) \<and> above_zero (snd x) \<and> above_zero (fst y) \<and> above_zero (snd y))"
| "two_levels _ = False"

lemma not_above_zero [simp]: "\<not> above_zero dbl_0"
  by (simp add: dbl_0_def)

lemma zip_sides_Nil2 [simp]: "zip_sides [] gs = map (\<lambda>g. g book_new) gs"
  by (induction gs) auto

lemma level_positive_simps [simp]:
  "level_positive (set_ask q' r' (set_bid q r b)) \<longleftrightarrow> above_zero r' \<and> above_zero q' \<and> above_zero r \<and> above_zero q"
  "\<not> level_positive (set_ask q r book_new)" "\<not> level_positive (set_bid q r book_new)"
  by (simp_all add: level_positive_def set_ask_def set_bid_def book_new_def)

lemma verify_sides:
  "verify_book (sides bids asks) =
    (if length bids < 2 \<and> length asks < 2 then Inl BadPointer else Inr (two_levels bids \<and> two_levels asks))"
proof -
  have two: "xs = [] \<or> (\<exists>x. xs = [x]) \<or> (\<exists>x y zs. xs = x # y # zs)" for xs :: "(double \<times> double) list"
    by (metis list.exhaust)
  show ?thesis
    using two [of bids] two [of asks]
    by (auto simp: sides_def split: prod.splits)
qed

text \<open>The modules that fill the asks first build the same books.\<close>

lemma zip_sides_swap:
  "zip_sides (map (\<lambda>(q, r). set_ask q r) asks) (map (\<lambda>(q, r). set_bid q r) bids) = sides bids asks"
  unfolding sides_def
proof (induction asks arbitrary: bids)
  case (Cons a asks)
  then show ?case
    by (cases bids) (auto simp: set_ask_def set_bid_def split: prod.splits)
qed simp

subsection \<open>Documented order books\<close>

text \<open>The order books the three exchanges answer for the pair of the tests.\<close>

record orders =
  btc38_bids :: "level list"
  btc38_asks :: "level list"
  bittrex_buy :: "(string \<times> string) list"
  bittrex_sell :: "(string \<times> string) list"
  polo_asks :: "level list"
  polo_bids :: "level list"

definition amounts :: "level \<Rightarrow> double \<times> double" where
  "amounts l = (num_of (fst l), num_of (snd l))"

definition amounts_text :: "string \<times> string \<Rightarrow> double \<times> double" where
  "amounts_text l = (json_double_of (fst l), json_double_of (snd l))"

definition btc38_orders :: "curl_perform \<Rightarrow> jsmntok list \<Rightarrow> string \<Rightarrow> orders \<Rightarrow> bool" where
  "btc38_orders perform ts0 name y \<longleftrightarrow>
     serves perform (''http://api.btc38.com/v1/depth.php'' @ name) (render (depth_answer [] (btc38_bids y) (btc38_asks y))) \<and>
     val_ok (depth_answer [] (btc38_bids y) (btc38_asks y)) \<and>
     ntoks (depth_answer [] (btc38_bids y) (btc38_asks y)) \<le> length ts0 \<and>
     list_all level_ok (btc38_bids y @ btc38_asks y) \<and> btc38_asks y \<noteq> []"

definition bittrex_orders :: "curl_perform \<Rightarrow> jsmntok list \<Rightarrow> orders \<Rightarrow> bool" where
  "bittrex_orders perform ts0 y \<longleftrightarrow>
     serves perform ''https://bittrex.com/api/v1.1/public/getorderbook?market=BTC-LTC&type=both&depth=50''
       (render (book_answer [] ''true'' [] (bittrex_buy y) (bittrex_sell y) [])) \<and>
     val_ok (book_answer [] ''true'' [] (bittrex_buy y) (bittrex_sell y) []) \<and>
     ntoks (book_answer [] ''true'' [] (bittrex_buy y) (bittrex_sell y) []) \<le> length ts0"

definition poloniex_orders :: "curl_perform \<Rightarrow> jsmntok list \<Rightarrow> orders \<Rightarrow> bool" where
  "poloniex_orders perform ts0 y \<longleftrightarrow>
     serves perform ''https://poloniex.com/public?command=returnOrderBook&currencyPair=BTC_LTC&depth=10''
       (render (orders_answer [] (polo_asks y) (polo_bids y) ''0'' ''1'')) \<and>
     val_ok (orders_answer [] (polo_asks y) (polo_bids y) ''0'' ''1'') \<and>
     ntoks (orders_answer [] (polo_asks y) (polo_bids y) ''0'' ''1'') \<le> length ts0 \<and>
     list_all level_ok (polo_asks y @ polo_bids y)"

text \<open>What the modules show of them.\<close>

definition shown :: "orders \<Rightarrow> exchange option \<Rightarrow> (double \<times> double) list \<times> (double \<times> double) list" where
  "shown y f =
     (case f of
        Some Btc38 \<Rightarrow> (map amounts (butlast (btc38_bids y)), map amounts (butlast (btc38_asks y)))
      | Some Bittrex \<Rightarrow> (map amounts_text (bittrex_buy y), map amounts_text (bittrex_sell y))
      | Some Poloniex \<Rightarrow> (map amounts (polo_bids y), map amounts (butlast (polo_asks y)))
      | _ \<Rightarrow> ([], []))"

lemma map_levels:
  "map bid_level ls = map (\<lambda>(q, r). set_bid q r) (map amounts ls)"
  "map ask_level ls = map (\<lambda>(q, r). set_ask q r) (map amounts ls)"
  "map bid_of ps = map (\<lambda>(q, r). set_bid q r) (map amounts_text ps)"
  "map ask_of ps = map (\<lambda>(q, r). set_ask q r) (map amounts_text ps)"
  by (simp_all add: bid_level_def ask_level_def bid_of_def ask_of_def amounts_def amounts_text_def)

lemma btc38_shown:
  assumes "btc38_orders perform ts0 name y" "market_name m = Some name"
  shows "btc38_get_books perform True ts0 m = Inr (case shown y (Some Btc38) of (b, a) \<Rightarrow> sides b a)"
proof -
  have "btc38_get_books perform True ts0 m =
      Inr (zip_sides (map bid_level (butlast (btc38_bids y))) (map ask_level (butlast (btc38_asks y))))"
    by (rule btc38_books_read [where a = "[]"])
      (use assms in \<open>auto simp: btc38_orders_def list_all_iff free_of_def\<close>)
  then show ?thesis
    by (simp only: shown_def map_levels sides_def map_butlast exchange.case option.case prod.case)
qed

lemma bittrex_shown:
  assumes "bittrex_orders perform ts0 y" "is_pair ''BTC'' ''LTC'' m"
  shows "bittrex_get_books perform True ts0 m = Inr (case shown y (Some Bittrex) of (b, a) \<Rightarrow> sides b a)"
proof -
  have "json_int_of ''true'' = Inr 1" by code_simp
  then have "bittrex_get_books perform True ts0 m =
      Inr (zip_sides (map bid_of (bittrex_buy y)) (map ask_of (bittrex_sell y)))"
    by (intro bittrex_books_read [where a = "[]" and b = "[]" and c = "[]" and s = "''true''"])
      (use assms in \<open>auto simp: bittrex_orders_def is_pair_def free_of_def\<close>)
  then show ?thesis
    by (simp only: shown_def map_levels sides_def exchange.case option.case prod.case)
qed

lemma poloniex_shown:
  assumes "poloniex_orders perform ts0 y" "market_name m = Some ''BTC_LTC''"
  shows "poloniex_get_books perform True ts0 m = Inr (case shown y (Some Poloniex) of (b, a) \<Rightarrow> sides b a)"
proof -
  have "poloniex_get_books perform True ts0 m =
      Inr (zip_sides (map ask_level (butlast (polo_asks y))) (map bid_level (polo_bids y)))"
    by (rule poloniex_books_read [where a = "[]"])
      (use assms in \<open>auto simp: poloniex_orders_def list_all_iff free_of_def\<close>)
  then show ?thesis
    by (simp only: shown_def map_levels zip_sides_swap exchange.case option.case prod.case)
qed

text \<open>The exchanges that list the pair answer with these books.\<close>

definition orders_served :: "curl_perform \<Rightarrow> jsmntok list \<Rightarrow> answers \<Rightarrow> orders \<Rightarrow> bool" where
  "orders_served perform ts0 x y \<longleftrightarrow>
     list_all (\<lambda>m. btc38_orders perform ts0 (the (market_name m)) y) (filter (is_pair ''BTC'' ''LTC'') (btc38_markets x)) \<and>
     (list_ex (is_pair ''BTC'' ''LTC'') (bittrex_markets x) \<longrightarrow> bittrex_orders perform ts0 y) \<and>
     (list_ex (is_pair ''BTC'' ''LTC'') (poloniex_markets x) \<longrightarrow> poloniex_orders perform ts0 y)"

definition lists_pair :: "vendor \<Rightarrow> bool" where
  "lists_pair v \<longleftrightarrow> list_ex (is_pair ''BTC'' ''LTC'') (current_market v)"

text \<open>The book has a second level; both levels of both sides are positive.\<close>

definition deep :: "orders \<Rightarrow> vendor \<Rightarrow> bool" where
  "deep y v = (case shown y (books_get v) of (b, a) \<Rightarrow> 2 \<le> length b \<or> 2 \<le> length a)"

definition passes :: "orders \<Rightarrow> vendor \<Rightarrow> bool" where
  "passes y v = (case shown y (books_get v) of (b, a) \<Rightarrow> two_levels b \<and> two_levels a)"

lemma poloniex_pair_name:
  assumes "poloniex_market s = Some m" "is_pair base mkt m"
  shows "market_name m = Some (base @ CHR ''_'' # mkt)"
proof -
  obtain c rest where d: "dropWhile (\<lambda>c. c \<noteq> CHR ''_'') s = c # rest"
    using assms(1) by (auto simp: poloniex_market_def split: list.splits)
  then have "c = CHR ''_''"
    using hd_dropWhile [of "\<lambda>c. c \<noteq> CHR ''_''" s] by simp
  then show ?thesis
    using takeWhile_dropWhile_id [of "\<lambda>c. c \<noteq> CHR ''_''" s] d assms
    by (auto simp: poloniex_market_def is_pair_def)
qed

lemma fetched_books:
  assumes "orders_served perform ts0 x y" "poloniex_answers perform ts0 x"
    and "v \<in> set (fetched x)" "m \<in> set (current_market v)" "is_pair ''BTC'' ''LTC'' m"
  shows "call_books_get perform True ts0 (books_get v) m = Inr (case shown y (books_get v) of (b, a) \<Rightarrow> sides b a)"
proof -
  consider (btc38) "books_get v = Some Btc38" "m \<in> set (btc38_markets x)"
    | (bittrex) "books_get v = Some Bittrex" "m \<in> set (bittrex_markets x)"
    | (poloniex) "books_get v = Some Poloniex" "m \<in> set (poloniex_markets x)"
    using assms(3,4) by (auto simp: fetched_def vendors_get_all_def vendor_get_def all_functions_def Let_def)
  then show ?thesis
  proof cases
    case btc38
    moreover from this have "market_name m = Some (the (market_name m))"
      by (auto simp: btc38_markets_def btc38_market_def Let_def)
    moreover have "btc38_orders perform ts0 (the (market_name m)) y"
      using assms(1,5) btc38 by (auto simp: orders_served_def list_all_iff)
    ultimately show ?thesis
      using btc38_shown by (simp add: call_books_get_def)
  next
    case bittrex
    then have "bittrex_orders perform ts0 y"
      using assms(1,5) by (auto simp: orders_served_def list_ex_iff)
    with bittrex show ?thesis
      using bittrex_shown [OF _ assms(5)] by (simp add: call_books_get_def)
  next
    case poloniex
    then obtain t where t: "t \<in> set (at_polo x)" "m = the (poloniex_market (fst t))"
      by (auto simp: poloniex_markets_def)
    then have "poloniex_market (fst t) = Some m"
      using assms(2) poloniex_market_split [of "fst t"] by (fastforce simp: poloniex_answers_def list_all_iff)
    then have "market_name m = Some ''BTC_LTC''"
      using poloniex_pair_name [OF _ assms(5)] by simp
    moreover have "poloniex_orders perform ts0 y"
      using assms(1,5) poloniex by (auto simp: orders_served_def list_ex_iff)
    ultimately show ?thesis
      using poloniex poloniex_shown by (simp add: call_books_get_def)
  qed
qed

subsection \<open>The test of all vendors\<close>

lemma market_get_pair:
  assumes "\<forall>m\<in>set ms. named m" "list_ex (is_pair base mkt) ms"
  obtains m rest where "market_get ms base mkt = Inr (m # rest)" "m \<in> set ms" "is_pair base mkt m"
proof -
  have "dropWhile (\<lambda>m. \<not> is_pair base mkt m) ms \<noteq> []"
    using assms(2) by (auto simp: list_ex_iff dropWhile_eq_Nil_conv)
  then obtain m rest where d: "dropWhile (\<lambda>m. \<not> is_pair base mkt m) ms = m # rest"
    by (cases "dropWhile (\<lambda>m. \<not> is_pair base mkt m) ms") auto
  then show ?thesis
    using that [of m rest] market_get_named [OF assms(1), of base mkt] hd_dropWhile [of "\<lambda>m. \<not> is_pair base mkt m" ms]
      set_dropWhileD [of m "\<lambda>m. \<not> is_pair base mkt m" ms] by simp
qed

lemma check_books_verdicts:
  assumes "\<And>v m. v \<in> set vs \<Longrightarrow> m \<in> set (current_market v) \<Longrightarrow> is_pair ''BTC'' ''LTC'' m \<Longrightarrow>
      call_books_get perform True ts0 (books_get v) m = Inr (case shown y (books_get v) of (b, a) \<Rightarrow> sides b a)"
    and "\<forall>v\<in>set vs. \<forall>m\<in>set (current_market v). named m" "list_all lists_pair vs" "list_all (deep y) vs"
  shows "check_books perform True ts0 vs = Inr (map vendor_name (filter (\<lambda>v. \<not> passes y v) vs))"
  using assms
proof (induction vs)
  case (Cons v vs)
  have rest: "check_books perform True ts0 vs = Inr (map vendor_name (filter (\<lambda>v. \<not> passes y v) vs))"
    by (rule Cons.IH) (use Cons.prems in auto)
  obtain m ms where m: "market_get (current_market v) ''BTC'' ''LTC'' = Inr (m # ms)"
      "m \<in> set (current_market v)" "is_pair ''BTC'' ''LTC'' m"
    by (rule market_get_pair [of "current_market v" "''BTC''" "''LTC''"]) (use Cons.prems in \<open>auto simp: lists_pair_def\<close>)
  have c: "call_books_get perform True ts0 (books_get v) m = Inr (case shown y (books_get v) of (b, a) \<Rightarrow> sides b a)"
    using Cons.prems(1) m by simp
  obtain b a where ba: "shown y (books_get v) = (b, a)" by fastforce
  then have "verify_book (sides b a) = Inr (passes y v)"
    using Cons.prems(4) by (auto simp: verify_sides deep_def passes_def)
  then show ?case
    using rest m(1) c ba by simp
qed simp

lemma all_markets_named:
  "poloniex_answers perform ts0 x \<Longrightarrow> m \<in> set (all_markets x) \<Longrightarrow> named m"
  using listed_named [of x m] by (auto simp: poloniex_answers_def)

lemma fetched_in_all: "v \<in> set (fetched x) \<Longrightarrow> m \<in> set (current_market v) \<Longrightarrow> m \<in> set (all_markets x)"
  unfolding fetched_markets [symmetric] by auto

lemma fetched_with_market:
  assumes "poloniex_answers perform ts0 x" "list_all (\<lambda>m. \<not> is_pair ''LTC'' ''BTC'' m) (all_markets x)"
  shows "vendors_with_market (fetched x) ''BTC'' ''LTC'' = Inr (filter lists_pair (fetched x))"
proof -
  have "vendors_with_market (fetched x) ''BTC'' ''LTC'' =
      Inr (filter (\<lambda>v. is_initialized v \<and>
        (\<exists>m\<in>set (current_market v). is_pair ''BTC'' ''LTC'' m \<or> is_pair ''LTC'' ''BTC'' m)) (fetched x))"
    using all_markets_named [OF assms(1)] fetched_in_all by (intro vendors_with_market_filter) blast
  also have "\<dots> = Inr (filter lists_pair (fetched x))"
    using assms(2) fetched_in_all fetched_initialised
    by (auto simp: lists_pair_def list_ex_iff list_all_iff intro!: filter_cong)
  finally show ?thesis .
qed

text \<open>The answers of theory Pipeline, with books of which poloniex shows only one ask.\<close>

definition ex_orders :: orders where
  "ex_orders = \<lparr>btc38_bids = replicate 3 (JPrim ''1'', JPrim ''2''), btc38_asks = replicate 3 (JPrim ''1'', JPrim ''3''),
     bittrex_buy = replicate 2 (''1'', ''2''), bittrex_sell = replicate 2 (''1'', ''3''),
     polo_asks = replicate 2 (JStr ''1'', JPrim ''3''), polo_bids = replicate 2 (JStr ''1'', JPrim ''2'')\<rparr>"

definition ex_exchanges :: curl_perform where
  "ex_exchanges req =
     (if req_url req = ''http://api.btc38.com/v1/depth.php?c=btc&mk_type=ltc''
      then (True, [render (depth_answer [] (btc38_bids ex_orders) (btc38_asks ex_orders))])
      else if req_url req = ''https://bittrex.com/api/v1.1/public/getorderbook?market=BTC-LTC&type=both&depth=50''
      then (True, [render (book_answer [] ''true'' [] (bittrex_buy ex_orders) (bittrex_sell ex_orders) [])])
      else if req_url req = ''https://poloniex.com/public?command=returnOrderBook&currencyPair=BTC_LTC&depth=10''
      then (True, [render (orders_answer [] (polo_asks ex_orders) (polo_bids ex_orders) ''0'' ''1'')])
      else ex_network req)"

text \<open>
  C40. The test of all vendors against documented answers of the three exchanges, when no market is quoted the other
  way round and every book that is looked at has a second level: it passes exactly when two of the exchanges list
  the pair, whatever the books hold, and it prints the exchanges whose two first levels, as their modules show
  them, have a number that is not positive or are missing on one side.
\<close>

theorem test_book_all_verdict:
  assumes "btc38_answers perform ts0 x" "bittrex_answers perform ts0 x" "poloniex_answers perform ts0 x"
    and "orders_served perform ts0 x y" "list_all (\<lambda>m. \<not> is_pair ''LTC'' ''BTC'' m) (all_markets x)"
    and "list_all (deep y) (filter lists_pair (fetched x))"
  shows "test_book_all perform True ts0 =
    Inr (length (filter lists_pair (fetched x)) = 2,
         map vendor_name (filter (\<lambda>v. \<not> passes y v) (filter lists_pair (fetched x))))"
proof -
  have "check_books perform True ts0 (filter lists_pair (fetched x)) =
      Inr (map vendor_name (filter (\<lambda>v. \<not> passes y v) (filter lists_pair (fetched x))))"
    by (rule check_books_verdicts)
      (use assms fetched_books fetched_in_all all_markets_named [OF assms(3)] in \<open>auto simp: list_all_iff\<close>)
  then show ?thesis
    using refresh_fetches [OF assms(1-3)] fetched_with_market [OF assms(3,5)] by (simp add: test_book_all_def)
qed

theorem test_book_all_verdict_witness:
  "test_book_all ex_exchanges True (replicate 40 stale) = Inr (False, [Some ''poloniex''])"
proof -
  let ?x = ex_answers and ?y = ex_orders and ?ts = "replicate 40 stale"
  have a: "btc38_answers ex_exchanges ?ts ?x" "bittrex_answers ex_exchanges ?ts ?x" "poloniex_answers ex_exchanges ?ts ?x"
    by (rule ex_answered; auto simp: ex_exchanges_def)+
  have ok: "val_ok (depth_answer [] (btc38_bids ?y) (btc38_asks ?y)) \<and> ntoks (depth_answer [] (btc38_bids ?y) (btc38_asks ?y)) \<le> 40"
      "val_ok (book_answer [] ''true'' [] (bittrex_buy ?y) (bittrex_sell ?y) []) \<and>
       ntoks (book_answer [] ''true'' [] (bittrex_buy ?y) (bittrex_sell ?y) []) \<le> 40"
      "val_ok (orders_answer [] (polo_asks ?y) (polo_bids ?y) ''0'' ''1'') \<and>
       ntoks (orders_answer [] (polo_asks ?y) (polo_bids ?y) ''0'' ''1'') \<le> 40"
    by code_simp+
  have lv: "list_all level_ok (btc38_bids ?y @ btc38_asks ?y)" "list_all level_ok (polo_asks ?y @ polo_bids ?y)"
    by (simp_all add: ex_orders_def level_ok_def num_ok_def numeral_eq_Suc)
  have "btc38_orders ex_exchanges ?ts ''?c=btc&mk_type=ltc'' ?y" "bittrex_orders ex_exchanges ?ts ?y"
      "poloniex_orders ex_exchanges ?ts ?y"
    using ok lv unfolding btc38_orders_def bittrex_orders_def poloniex_orders_def
    by (simp_all add: serves_def get_request_def ex_exchanges_def, simp add: ex_orders_def)
  moreover have "map market_name (filter (is_pair ''BTC'' ''LTC'') (btc38_markets ?x)) = [Some ''?c=btc&mk_type=ltc'']"
    by code_simp
  then obtain m where "filter (is_pair ''BTC'' ''LTC'') (btc38_markets ?x) = [m]"
      "market_name m = Some ''?c=btc&mk_type=ltc''"
    by (auto simp: map_eq_Cons_conv)
  ultimately have o: "orders_served ex_exchanges ?ts ?x ?y"
    by (simp add: orders_served_def)
  have r: "list_all (\<lambda>m. \<not> is_pair ''LTC'' ''BTC'' m) (all_markets ?x)"
      "list_all (list_ex (is_pair ''BTC'' ''LTC'')) [btc38_markets ?x, bittrex_markets ?x, poloniex_markets ?x]"
    by code_simp+
  then have all: "filter lists_pair (fetched ?x) = fetched ?x"
    by (simp add: fetched_def lists_pair_def)
  have v: "map books_get (fetched ?x) = [Some Btc38, Some Bittrex, Some Poloniex]"
      "map vendor_name (fetched ?x) = [Some ''btc38'', Some ''bittrex'', Some ''poloniex'']"
    by (simp_all add: fetched_def vendor_get_def all_functions_def vendor_set_name_def Let_def)
  have pos: "list_all above_zero [num_of (JPrim ''1''), num_of (JPrim ''2''), num_of (JPrim ''3''),
      num_of (JStr ''1''), json_double_of ''1'', json_double_of ''2'', json_double_of ''3'']"
    by code_simp
  have "deep ?y v" "passes ?y v \<longleftrightarrow> books_get v \<noteq> Some Poloniex" if "books_get v \<in> {Some Btc38, Some Bittrex, Some Poloniex}" for v
    using that pos by (auto simp: deep_def passes_def shown_def ex_orders_def amounts_def amounts_text_def numeral_eq_Suc)
  moreover obtain a b c where f: "fetched ?x = [a, b, c]" "books_get a = Some Btc38" "books_get b = Some Bittrex"
      "books_get c = Some Poloniex" "vendor_name c = Some ''poloniex''"
    using v by (auto simp: map_eq_Cons_conv)
  ultimately have d: "list_all (deep ?y) (filter lists_pair (fetched ?x))"
      "map vendor_name (filter (\<lambda>v. \<not> passes ?y v) (filter lists_pair (fetched ?x))) = [Some ''poloniex'']"
      "length (filter lists_pair (fetched ?x)) = 3"
    unfolding all by (simp_all add: f(1))
  show ?thesis
    using test_book_all_verdict [OF a o r(1) d(1)] d(2,3) by simp
qed

subsection \<open>The other tests\<close>

text \<open>A pair that is quoted the other way round is found and then looked up as a null pointer.\<close>

lemma test_book_all_reversed:
  assumes "refresh_all perform handle ts0 vendors_get_all = Inr vs" "v \<in> set vs"
    and "\<forall>v\<in>set vs. is_initialized v \<and> (\<forall>m\<in>set (current_market v). named m)"
    and "list_ex (is_pair ''LTC'' ''BTC'') (current_market v)" "\<forall>v\<in>set vs. \<not> lists_pair v"
  shows "test_book_all perform handle ts0 = Inl BadPointer"
proof -
  define ws where "ws = filter (\<lambda>v. is_initialized v \<and>
    (\<exists>m\<in>set (current_market v). is_pair ''BTC'' ''LTC'' m \<or> is_pair ''LTC'' ''BTC'' m)) vs"
  have traders: "vendors_with_market vs ''BTC'' ''LTC'' = Inr ws"
    unfolding ws_def by (rule vendors_with_market_filter) (use assms(3) in blast)
  have "v \<in> set ws"
    using assms(2-4) by (auto simp: ws_def list_ex_iff)
  then obtain w ws' where ws: "ws = w # ws'" by (cases ws) auto
  moreover have "set ws \<subseteq> set vs" by (auto simp: ws_def)
  ultimately have "w \<in> set vs" by simp
  then have "market_get (current_market w) ''BTC'' ''LTC'' = Inr []"
    using assms(3,5) market_get_named [of "current_market w" "''BTC''" "''LTC''"]
    by (auto simp: lists_pair_def list_ex_iff dropWhile_eq_Nil_conv)
  then show ?thesis
    using assms(1) traders by (simp add: test_book_all_def ws)
qed

text \<open>The test of one exchange needs two levels and two positive levels on both sides.\<close>

lemma test_book_bittrex_verdict:
  assumes "bittrex_get_markets perform True ts0 = Inr ms" "\<forall>m\<in>set ms. named m" "list_ex (is_pair ''BTC'' ''LTC'') ms"
    and "bittrex_orders perform ts0 y" "2 \<le> length (bittrex_buy y) \<or> 2 \<le> length (bittrex_sell y)"
  shows "test_book_bittrex perform True ts0 =
    Inr (two_levels (map amounts_text (bittrex_buy y)) \<and> two_levels (map amounts_text (bittrex_sell y)))"
proof -
  have v: "markets_get (vendor_get ''bittrex'') = Some Bittrex" "books_get (vendor_get ''bittrex'') = Some Bittrex"
    by (simp_all add: vendor_get_def all_functions_def Let_def)
  obtain m rest where m: "market_get ms ''BTC'' ''LTC'' = Inr (m # rest)" "m \<in> set ms" "is_pair ''BTC'' ''LTC'' m"
    using market_get_pair [OF assms(2,3)] .
  define bk where "bk = sides (map amounts_text (bittrex_buy y)) (map amounts_text (bittrex_sell y))"
  have "bittrex_get_books perform True ts0 m = Inr bk"
    using bittrex_shown [OF assms(4) m(3)] by (simp add: shown_def bk_def)
  moreover have "2 \<le> length bk"
    using assms(5) by (auto simp: bk_def sides_def)
  then have "bk \<noteq> []" "tl bk \<noteq> []"
    by (cases bk; cases "tl bk"; simp)+
  moreover have "verify_book bk =
      Inr (two_levels (map amounts_text (bittrex_buy y)) \<and> two_levels (map amounts_text (bittrex_sell y)))"
    using assms(5) by (auto simp: bk_def verify_sides)
  moreover have "ms \<noteq> []" using m(2) by auto
  ultimately show ?thesis
    using assms(1) m(1) v by (simp add: test_book_bittrex_def verified_book_def call_markets_get_def call_books_get_def)
qed

lemma test_market_bittrex_verdict:
  assumes "bittrex_get_markets perform handle ts0 = Inr ms"
  shows "test_market_bittrex perform handle ts0 = Inr (2 \<le> length ms)"
proof -
  have "markets_get (vendor_get ''bittrex'') = Some Bittrex"
    by (simp add: vendor_get_def all_functions_def Let_def)
  then show ?thesis
    using assms by (cases ms; cases "tl ms") (auto simp: test_market_bittrex_def call_markets_get_def split: list.splits)
qed

lemma test_book_mock_passes: "test_book_mock perform handle ts0 = Inr True"
proof -
  have "markets_get (vendor_get ''mock'') = Some Mock" "books_get (vendor_get ''mock'') = Some Mock"
    by (simp_all add: vendor_get_def Let_def)
  moreover have "above_zero (atof ''0.001'')" by code_simp
  ultimately show ?thesis
    by (simp add: test_book_mock_def call_markets_get_def call_books_get_def mock_get_markets_def mock_get_books_def)
qed

lemma test_book_bittrex_url_passes: "test_book_bittrex_url = Inr True"
  by code_simp

subsection \<open>The websocket, the summary, the client\<close>

text \<open>Every answer the websocket test shows has between 1 and 4095 characters, room for the NUL is left; it succeeds
  with one answer for each request.\<close>

lemma websocket_recv_length: "length (fst (websocket_recv space ws)) \<le> space"
  by (simp add: websocket_recv_def Let_def)

lemma call_poll_data:
  "call_poll space timeout polls ws = Inr (data, ws') \<Longrightarrow> length data \<le> space - 1"
proof (induction polls arbitrary: ws)
  case (Cons p polls)
  obtain arrive now where p: "p = (arrive, now)" by fastforce
  obtain d w where r: "websocket_recv (space - 1) (arrive ws) = (d, w)" by fastforce
  then have "length d \<le> space - 1"
    using websocket_recv_length [of "space - 1" "arrive ws"] by simp
  then show ?case
    using Cons r by (cases "d \<noteq> [] \<or> now \<ge> timeout") (simp_all add: p Let_def split: if_splits)
qed simp

lemma call_each_answers:
  "call_each lib reqs polls s = Inr (ok, got) \<Longrightarrow>
    (\<forall>d\<in>set got. d \<noteq> [] \<and> length d \<le> 4095) \<and> length got \<le> length reqs \<and> (ok \<longrightarrow> length got = length reqs)"
proof (induction reqs arbitrary: polls s ok got)
  case (Cons json rest)
  obtain data s' where c: "websocket_call lib json 4096 60 (case polls of [] \<Rightarrow> [] | p # _ \<Rightarrow> p) s = Inr (data, s')"
    using Cons.prems by (auto simp: cbind_Inr_iff)
  obtain ws c where "s = (ws, c)" by fastforce
  then have "length data \<le> 4095"
    using c call_poll_data [of 4096] by (fastforce simp: websocket_call_def websocket_send_def cbind_Inr_iff)
  moreover have "data = [] \<Longrightarrow> got = [] \<and> \<not> ok"
    using Cons.prems c by simp
  moreover have "data \<noteq> [] \<Longrightarrow> \<exists>got'. call_each lib rest (tl polls) s' = Inr (ok, got') \<and> got = data # got'"
    using Cons.prems c by (auto simp: cbind_Inr_iff)
  ultimately show ?case
    using Cons.IH by (cases "data = []") fastforce+
qed simp

lemma test_connect_answers:
  assumes "test_connect sha1 recv out lib c polls = Inr (True, got)"
  shows "length got = 5 \<and> (\<forall>d\<in>set got. d \<noteq> [] \<and> length d \<le> 4095)"
proof -
  obtain ws where "call_each lib tst_json polls (ws, c) = Inr (True, got)"
    using assms by (auto simp: test_connect_def cbind_Inr_iff split: option.splits)
  from call_each_answers [OF this] show ?thesis
    by (simp add: tst_json_def)
qed

text \<open>The summary counts the tests with the wanted name, all without one; the exit status is 1 in every case.\<close>

lemma run_tests_counts:
  assumes "\<forall>t\<in>set tests. \<exists>ok. snd t = Inr ok"
  shows "run_tests wanted tests (tests_ran, counter) =
    (let picked = filter (\<lambda>t. wanted = None \<or> wanted = Some (fst t)) tests
     in Inr (tests_ran + length picked, counter + length (filter (\<lambda>t. snd t = Inr False) picked)))"
  using assms
proof (induction tests arbitrary: tests_ran counter)
  case (Cons t tests)
  then obtain name ok where t: "t = (name, Inr ok)" by (cases t) auto
  show ?case
    using Cons by (auto simp: t testit_def Let_def)
qed simp

lemma test_main_status:
  assumes "test_main argv tests = Inr (sm, status)"
  shows "status = 1"
  using assms by (auto simp: test_main_def cbind_Inr_iff)

lemma test_main_all_pass:
  assumes "\<forall>t\<in>set tests. snd t = Inr True" "tests \<noteq> []"
  shows "test_main [prog] tests = Inr (AllPassed (length tests), 1)"
proof -
  have "\<forall>t\<in>set tests. \<exists>ok. snd t = Inr ok" using assms(1) by blast
  from run_tests_counts [OF this, of None 0 0] have "run_tests None tests (0, 0) = Inr (length tests, 0)"
    using assms(1) by (simp add: Let_def filter_empty_conv)
  then show ?thesis
    using assms(2) by (simp add: test_main_def)
qed

text \<open>A name on the command line, with or without quotes around it, runs the test of this name only.\<close>

lemma unquote_quoted: "unquote (CHR 0x27 # name @ [CHR 0x27]) = name"
  by (simp add: unquote_def)

lemma one_of_distinct:
  "distinct (map fst ts) \<Longrightarrow> (name, r) \<in> set ts \<Longrightarrow> filter (\<lambda>t. name = fst t) ts = [(name, r)]"
proof (induction ts)
  case (Cons t ts)
  have "filter (\<lambda>t. name = fst t) ts = []" if "fst t = name"
    using Cons.prems(1) that by (auto simp: filter_empty_conv)
  then show ?case
    using Cons by (cases "fst t = name") (force simp: image_iff)+
qed simp

lemma test_main_one:
  assumes "length results = length test_names" "i < length test_names" "results ! i = ok"
    and "a = test_names ! i \<or> a = CHR 0x27 # (test_names ! i) @ [CHR 0x27]"
  shows "test_main [prog, a] (zip test_names (map Inr results)) = Inr (if ok then AllPassed 1 else Failed 1, 1)"
proof -
  let ?tests = "zip test_names (map Inr results)"
  have "hd n \<noteq> CHR 0x27 \<and> n \<noteq> []" if "n \<in> set test_names" for n
    using that by (auto simp: test_names_def)
  from this [OF nth_mem [OF assms(2)]] have a: "unquote a = test_names ! i"
    using assms(2,4) unquote_quoted by (cases "test_names ! i") (auto simp: unquote_def)
  have "distinct (map fst ?tests)"
    using assms(1) by (simp add: test_names_def)
  moreover have "(test_names ! i, Inr ok) \<in> set ?tests"
    using assms(1-3) by (force simp: set_zip)
  ultimately have one: "filter (\<lambda>t. test_names ! i = fst t) ?tests = [(test_names ! i, Inr ok)]"
    by (rule one_of_distinct)
  have "\<forall>t\<in>set ?tests. \<exists>ok. snd t = Inr ok"
    by (fastforce dest: set_zip_rightD)
  from run_tests_counts [OF this, of "Some (test_names ! i)" 0 0] show ?thesis
    by (simp add: test_main_def a Let_def one del: filter_filter)
qed

text \<open>The test client shows a short answer of the bridge as it was sent, a longer one up to 255 bytes.\<close>

lemma test_client_shows:
  assumes "3 < length argv" "peer (argv ! 3) = Some answer" "answer \<noteq> []" "NUL \<notin> set answer"
  shows "test_client argv (Some fd) True True True peer =
    Shows (min 255 (length answer)) (hd answer) (take 255 answer)"
proof -
  let ?n = "min 255 (length answer)"
  have "takeWhile (\<lambda>c. c \<noteq> NUL) (take ?n answer @ replicate (256 - ?n) NUL) = take ?n answer"
    using assms(4) by (subst takeWhile_append2) (auto dest: in_set_takeD)
  moreover have "(take ?n answer @ replicate (256 - ?n) NUL) ! 0 = hd answer"
    using assms(3) by (cases answer) auto
  moreover have "take ?n answer = take 255 answer"
    by (simp add: min_def)
  ultimately show ?thesis
    using assms(1,2) by (simp add: test_client_def socket_open_def Let_def)
qed

end
