(* ===== verification/Hashtable.thy ===== *)
theory Hashtable
  imports KhashOps
begin

section \<open>The string table (\<^verbatim>\<open>utils/hashtable.c\<close>)\<close>

text \<open>
  A wrapper around the hash table with \<^verbatim>\<open>char*\<close> values; a value may be the null pointer (\<open>None\<close>).
  \<^verbatim>\<open>hashtable_get\<close> returns the null pointer for a missing key as well.
\<close>

record hash_table =
  khash_table :: "string option kh"

definition hashtable_new :: hash_table where
  "hashtable_new = \<lparr>khash_table = kh_init\<rparr>"

definition hashtable_put :: "hash_table \<Rightarrow> string \<Rightarrow> string option \<Rightarrow> hash_table cres" where
  "hashtable_put ht key v =
     cbind (cbind (kh_put (khash_table ht) key) (\<lambda>(h, k, ret). kh_set_value h k v))
       (\<lambda>h. Inr (ht\<lparr>khash_table := h\<rparr>))"

definition hashtable_get :: "hash_table \<Rightarrow> string \<Rightarrow> string option cres" where
  "hashtable_get ht key =
     cbind (kh_get (khash_table ht) key) (\<lambda>k.
       if k = n_buckets (khash_table ht) then Inr None else kh_value (khash_table ht) k)"

fun hashtable_put_all :: "hash_table \<Rightarrow> (string \<times> string option) list \<Rightarrow> hash_table cres" where
  "hashtable_put_all ht [] = Inr ht"
| "hashtable_put_all ht ((k, v) # kvs) = cbind (hashtable_put ht k v) (\<lambda>ht. hashtable_put_all ht kvs)"

lemma hashtable_put_ok:
  assumes "stands_for (khash_table ht) M" "card (dom M) < 2 ^ 30"
  shows "\<exists>ht'. hashtable_put ht k v = Inr ht' \<and> stands_for (khash_table ht') (M(k \<mapsto> v))"
proof -
  have inv: "kh_inv (khash_table ht)" "card (dom (content (khash_table ht))) < 2 ^ 30"
    using assms by (simp_all add: stands_for_def stands_for_dom [OF assms(1)])
  from khm.put_set [OF inv, of k v] assms(1) show ?thesis
    by (auto simp: hashtable_put_def stands_for_def fun_eq_iff)
qed

lemma hashtable_get_ok:
  assumes "stands_for (khash_table ht) M"
  shows "hashtable_get ht k = Inr (case M k of None \<Rightarrow> None | Some v \<Rightarrow> v)"
proof -
  have inv: "kh_inv (khash_table ht)" using assms by (simp add: stands_for_def)
  show ?thesis
  proof (cases "M k")
    case None
    then have "kh_get (khash_table ht) k = Inr (n_buckets (khash_table ht))"
      using khm.get_none [OF inv, of k] assms by (simp add: stands_for_def)
    then show ?thesis using None by (simp add: hashtable_get_def)
  next
    case (Some v)
    then have c: "content (khash_table ht) k = Some (Some v)" using assms by (simp add: stands_for_def)
    obtain x where x: "kh_get (khash_table ht) k = Inr x" "x \<noteq> n_buckets (khash_table ht)"
        "kh_points (khash_table ht) x k"
      using khm.get_some [OF inv c] by blast
    have "kh_value (khash_table ht) x = Inr v" by (rule khm.value_law [OF inv x(3) c])
    then show ?thesis using x Some by (simp add: hashtable_get_def)
  qed
qed

lemma hashtable_put_all_ok:
  "\<lbrakk>stands_for (khash_table ht) M; finite (dom M); card (dom M) + length kvs \<le> 2 ^ 30\<rbrakk> \<Longrightarrow>
    \<exists>ht'. hashtable_put_all ht kvs = Inr ht' \<and> stands_for (khash_table ht') (M ++ map_of (rev kvs))"
proof (induction kvs arbitrary: ht M)
  case (Cons kv kvs)
  obtain k v where kv: "kv = (k, v)" by fastforce
  have "card (dom M) < 2 ^ 30" using Cons.prems(3) by simp
  from hashtable_put_ok [OF Cons.prems(1) this, of k v]
  obtain ht1 where h1: "hashtable_put ht k v = Inr ht1" "stands_for (khash_table ht1) (M(k \<mapsto> v))" by blast
  have "card (dom (M(k \<mapsto> v))) + length kvs \<le> 2 ^ 30"
    using Cons.prems by (simp add: card_insert_if)
  moreover have "finite (dom (M(k \<mapsto> v)))" using Cons.prems(2) by simp
  ultimately obtain ht2 where
    h2: "hashtable_put_all ht1 kvs = Inr ht2" "stands_for (khash_table ht2) (M(k \<mapsto> v) ++ map_of (rev kvs))"
    using Cons.IH [OF h1(2)] by blast
  have "M ++ map_of (rev (kv # kvs)) = M(k \<mapsto> v) ++ map_of (rev kvs)" by (simp add: kv)
  then show ?case using h1(1) h2 by (simp add: kv)
qed simp

text \<open>
  C32. After any sequence of at most 2^30 puts into a new table, \<^verbatim>\<open>hashtable_get\<close> returns the value of the last put
  of its key, and the null pointer for a key that was never put.
\<close>

theorem hashtable_last_put:
  assumes "length kvs \<le> 2 ^ 30"
  shows "\<exists>ht. hashtable_put_all hashtable_new kvs = Inr ht \<and>
    (\<forall>k. hashtable_get ht k = Inr (case map_of (rev kvs) k of None \<Rightarrow> None | Some v \<Rightarrow> v))"
proof -
  have "stands_for (khash_table hashtable_new) Map.empty"
    by (auto simp: stands_for_def kh_inv_def hashtable_new_def fun_eq_iff)
  from hashtable_put_all_ok [OF this, of kvs] assms hashtable_get_ok show ?thesis by fastforce
qed

lemma hashtable_last_put_witness:
  "\<exists>ht. hashtable_put_all hashtable_new [(''a'', Some ''1''), (''b'', Some ''2''), (''a'', Some ''3'')] = Inr ht \<and>
     hashtable_get ht ''a'' = Inr (Some ''3'') \<and> hashtable_get ht ''c'' = Inr None"
  using hashtable_last_put [of "[(''a'', Some ''1''), (''b'', Some ''2''), (''a'', Some ''3'')]"] by auto

end
