(* ===== verification/Freeing.thy ===== *)
theory Freeing
  imports Prelude
begin

section \<open>Freeing lists, tables and connections\<close>

text \<open>
  The functions that release memory (\<^verbatim>\<open>book_free\<close>, \<^verbatim>\<open>market_free\<close>, \<^verbatim>\<open>balance_free\<close>, \<^verbatim>\<open>vendor_free\<close>,
  \<^verbatim>\<open>vendor_list_free\<close>, \<^verbatim>\<open>kh_destroy\<close>, \<^verbatim>\<open>hashtable_free\<close>, \<^verbatim>\<open>utils_https_free\<close>), on a heap of cells with explicit pointers: reading a cell that is not
  allocated and freeing one twice are faults. The other theories take lists as HOL lists; here the order of
  reads and frees is what matters.
\<close>

subsection \<open>The heap\<close>

record market_cell =
  name_ptr :: "nat option"
  market_ptr :: "nat option"
  base_ptr :: "nat option"
  next_market :: "nat option"

record vendor_cell =
  vname_ptr :: "nat option"
  markets_ptr :: "nat option"

record list_cell =
  vendor_ptr :: nat
  next_vendor :: "nat option"

text \<open>A hash table and the \<^verbatim>\<open>struct HashTable\<close> around it; the three arrays are null before the first put.\<close>

record table_cell =
  flags_ptr :: "nat option"
  keys_ptr :: "nat option"
  vals_ptr :: "nat option"

text \<open>A connection; its curl handle and header list are blocks of the library.\<close>

record http_cell =
  curl_ptr :: "nat option"
  encoded_ptr :: "nat option"
  post_ptr :: "nat option"
  headers_ptr :: "nat option"

datatype cell = TextCell string | MarketCell market_cell | BookCell "nat option" | BalanceCell "nat option"
  | VendorCell vendor_cell | ListCell list_cell | TableCell table_cell | HashtableCell "nat option" | ArrayCell | HttpCell http_cell

type_synonym mem = "nat \<rightharpoonup> cell"

definition free_ptr :: "nat option \<Rightarrow> mem \<Rightarrow> mem cres" where
  "free_ptr p h =
     (case p of None \<Rightarrow> Inr h | Some a \<Rightarrow> if h a = None then Inl BadPointer else Inr (h(a := None)))"

definition market_at :: "mem \<Rightarrow> nat \<Rightarrow> market_cell cres" where
  "market_at h a = (case h a of Some (MarketCell c) \<Rightarrow> Inr c | _ \<Rightarrow> Inl BadPointer)"

definition book_next :: "mem \<Rightarrow> nat \<Rightarrow> nat option cres" where
  "book_next h a = (case h a of Some (BookCell n) \<Rightarrow> Inr n | _ \<Rightarrow> Inl BadPointer)"

definition market_next :: "mem \<Rightarrow> nat \<Rightarrow> nat option cres" where
  "market_next h a = cbind (market_at h a) (\<lambda>c. Inr (next_market c))"

definition vendor_at :: "mem \<Rightarrow> nat \<Rightarrow> vendor_cell cres" where
  "vendor_at h a = (case h a of Some (VendorCell c) \<Rightarrow> Inr c | _ \<Rightarrow> Inl BadPointer)"

definition list_at :: "mem \<Rightarrow> nat \<Rightarrow> list_cell cres" where
  "list_at h a = (case h a of Some (ListCell c) \<Rightarrow> Inr c | _ \<Rightarrow> Inl BadPointer)"

subsection \<open>The functions\<close>

text \<open>The loop \<^verbatim>\<open>book_free\<close> and \<^verbatim>\<open>market_free\<close> have in common: \<^verbatim>\<open>next\<close> is read one node ahead. The fuel bounds
  the length of the list; a list that runs in a circle is caught by the freed cells.\<close>

fun free_loop :: "(nat \<Rightarrow> mem \<Rightarrow> mem cres) \<Rightarrow> (mem \<Rightarrow> nat \<Rightarrow> nat option cres) \<Rightarrow>
    nat \<Rightarrow> mem \<Rightarrow> nat option \<Rightarrow> nat option \<Rightarrow> mem cres" where
  "free_loop free_cell next_at 0 h cur nxt = Inl Diverges"
| "free_loop free_cell next_at (Suc fuel) h cur nxt =
     (case cur of
        None \<Rightarrow> Inr h
      | Some a \<Rightarrow>
          cbind (free_cell a h) (\<lambda>h.
          cbind (case nxt of None \<Rightarrow> Inr nxt | Some b \<Rightarrow> next_at h b) (\<lambda>n.
            free_loop free_cell next_at fuel h nxt n)))"

definition book_free :: "nat \<Rightarrow> nat option \<Rightarrow> mem \<Rightarrow> mem cres" where
  "book_free fuel p h =
     (case p of
        None \<Rightarrow> Inr h
      | Some a \<Rightarrow> cbind (book_next h a) (\<lambda>n. free_loop (\<lambda>a. free_ptr (Some a)) book_next fuel h p n))"

text \<open>The body of the loop of \<^verbatim>\<open>market_free\<close>; each field is read when it is needed.\<close>

definition market_cell_free :: "nat \<Rightarrow> mem \<Rightarrow> mem cres" where
  "market_cell_free a h =
     cbind (market_at h a) (\<lambda>c. cbind (free_ptr (base_ptr c) h) (\<lambda>h.
     cbind (market_at h a) (\<lambda>c. cbind (free_ptr (market_ptr c) h) (\<lambda>h.
     cbind (market_at h a) (\<lambda>c. cbind (free_ptr (name_ptr c) h) (\<lambda>h.
       free_ptr (Some a) h))))))"

definition market_free :: "nat \<Rightarrow> nat option \<Rightarrow> mem \<Rightarrow> mem cres" where
  "market_free fuel p h =
     (case p of
        None \<Rightarrow> Inr h
      | Some a \<Rightarrow> cbind (market_next h a) (\<lambda>n. free_loop market_cell_free market_next fuel h p n))"

definition balance_free :: "nat option \<Rightarrow> mem \<Rightarrow> mem cres" where
  "balance_free p h =
     (case p of
        None \<Rightarrow> Inr h
      | Some a \<Rightarrow>
          (case h a of
             Some (BalanceCell cur) \<Rightarrow> cbind (free_ptr cur h) (\<lambda>h. free_ptr (Some a) h)
           | _ \<Rightarrow> Inl BadPointer))"

text \<open>\<^verbatim>\<open>vendor_free\<close> after the join of the update thread.\<close>

definition vendor_free :: "nat \<Rightarrow> nat \<Rightarrow> mem \<Rightarrow> mem cres" where
  "vendor_free fuel v h =
     cbind (vendor_at h v) (\<lambda>c.
     cbind (free_ptr (vname_ptr c) h) (\<lambda>h.
     cbind (vendor_at h v) (\<lambda>c.
     cbind (market_free fuel (markets_ptr c) h) (\<lambda>h.
       free_ptr (Some v) h))))"

fun vendor_list_loop :: "(nat \<Rightarrow> mem \<Rightarrow> mem cres) \<Rightarrow> nat \<Rightarrow> mem \<Rightarrow> nat option \<Rightarrow> mem cres" where
  "vendor_list_loop free_v 0 h cur = Inl Diverges"
| "vendor_list_loop free_v (Suc fuel) h cur =
     (case cur of
        None \<Rightarrow> Inr h
      | Some a \<Rightarrow>
          cbind (list_at h a) (\<lambda>c.
          cbind (free_v (vendor_ptr c) h) (\<lambda>h.
          cbind (free_ptr (Some a) h) (\<lambda>h.
            vendor_list_loop free_v fuel h (next_vendor c)))))"

definition vendor_list_free :: "nat \<Rightarrow> nat option \<Rightarrow> bool \<Rightarrow> mem \<Rightarrow> mem cres" where
  "vendor_list_free fuel head fv h =
     vendor_list_loop (\<lambda>v h. if fv then vendor_free fuel v h else Inr h) fuel h head"

text \<open>\<^verbatim>\<open>kh_destroy\<close> and \<^verbatim>\<open>hashtable_free\<close>; the keys and values in the arrays belong to the caller.\<close>

definition table_at :: "mem \<Rightarrow> nat \<Rightarrow> table_cell cres" where
  "table_at h a = (case h a of Some (TableCell c) \<Rightarrow> Inr c | _ \<Rightarrow> Inl BadPointer)"

definition kh_destroy :: "nat option \<Rightarrow> mem \<Rightarrow> mem cres" where
  "kh_destroy p h =
     (case p of
        None \<Rightarrow> Inr h
      | Some a \<Rightarrow>
          cbind (table_at h a) (\<lambda>c. cbind (free_ptr (keys_ptr c) h) (\<lambda>h.
          cbind (table_at h a) (\<lambda>c. cbind (free_ptr (flags_ptr c) h) (\<lambda>h.
          cbind (table_at h a) (\<lambda>c. cbind (free_ptr (vals_ptr c) h) (\<lambda>h.
            free_ptr (Some a) h)))))))"

definition hashtable_free :: "nat \<Rightarrow> mem \<Rightarrow> mem cres" where
  "hashtable_free ht h = (case h ht of Some (HashtableCell p) \<Rightarrow> kh_destroy p h | _ \<Rightarrow> Inl BadPointer)"

definition http_at :: "mem \<Rightarrow> nat \<Rightarrow> http_cell cres" where
  "http_at h a = (case h a of Some (HttpCell c) \<Rightarrow> Inr c | _ \<Rightarrow> Inl BadPointer)"

definition utils_https_free :: "nat option \<Rightarrow> mem \<Rightarrow> mem cres" where
  "utils_https_free p h =
     (case p of
        None \<Rightarrow> Inr h
      | Some a \<Rightarrow>
          cbind (http_at h a) (\<lambda>c. cbind (free_ptr (curl_ptr c) h) (\<lambda>h.
          cbind (http_at h a) (\<lambda>c. cbind (free_ptr (encoded_ptr c) h) (\<lambda>h.
          cbind (http_at h a) (\<lambda>c. cbind (free_ptr (post_ptr c) h) (\<lambda>h.
          cbind (http_at h a) (\<lambda>c. cbind (free_ptr (headers_ptr c) h) (\<lambda>h.
            free_ptr (Some a) h)))))))))"

subsection \<open>Chains of cells\<close>

text \<open>
  A node with what it owns is a relation \<open>node h a n F\<close>: the node at \<open>a\<close>, with the next pointer \<open>n\<close>, owns the
  cells \<open>F\<close>. The laws say that the relation depends on these cells only and that freeing the node removes
  exactly them.
\<close>

primrec chain :: "(mem \<Rightarrow> nat \<Rightarrow> nat option \<Rightarrow> nat list \<Rightarrow> bool) \<Rightarrow> mem \<Rightarrow> nat option \<Rightarrow> nat list list \<Rightarrow> bool" where
  "chain node h p [] \<longleftrightarrow> p = None"
| "chain node h p (F # Fs) \<longleftrightarrow> (\<exists>a n. p = Some a \<and> node h a n F \<and> chain node h n Fs)"

locale owned_nodes =
  fixes node :: "mem \<Rightarrow> nat \<Rightarrow> nat option \<Rightarrow> nat list \<Rightarrow> bool"
    and next_at :: "mem \<Rightarrow> nat \<Rightarrow> nat option cres"
    and free_cell :: "nat \<Rightarrow> mem \<Rightarrow> mem cres"
  assumes node_frame: "node h a n F \<Longrightarrow> (\<And>x. x \<in> set F \<Longrightarrow> h' x = h x) \<Longrightarrow> node h' a n F"
    and node_next: "node h a n F \<Longrightarrow> next_at h a = Inr n"
    and node_free: "node h a n F \<Longrightarrow> distinct F \<Longrightarrow> free_cell a h = Inr (h |` (- set F))"
begin

lemma chain_frame:
  "chain node h p Fs \<Longrightarrow> (\<And>x. x \<in> set (concat Fs) \<Longrightarrow> h' x = h x) \<Longrightarrow> chain node h' p Fs"
proof (induction Fs arbitrary: p)
  case (Cons F Fs)
  then obtain a n where c: "p = Some a" "node h a n F" "chain node h n Fs" by auto
  have "node h' a n F" using c(2) by (rule node_frame) (simp add: Cons.prems(2))
  moreover have "chain node h' n Fs" by (rule Cons.IH [OF c(3)]) (simp add: Cons.prems(2))
  ultimately show ?case using c(1) by (simp; blast)
qed simp

lemma chain_tail:
  assumes "chain node h p Fs" "set F \<inter> set (concat Fs) = {}"
  shows "chain node (h |` (- set F)) p Fs"
  by (rule chain_frame [OF assms(1)]) (use assms(2) in \<open>auto simp: restrict_map_def\<close>)

lemma restrict_twice: "(h |` (- A)) |` (- B) = h |` (- (A \<union> B))"
  by (auto simp: restrict_map_def)

lemma free_loop_ok:
  "\<lbrakk>chain node h (Some a) (F # Fs); distinct (concat (F # Fs)); next_at h a = Inr n; length Fs + 1 < fuel\<rbrakk> \<Longrightarrow>
    free_loop free_cell next_at fuel h (Some a) n = Inr (h |` (- set (concat (F # Fs))))"
proof (induction Fs arbitrary: h a F n fuel)
  case Nil
  obtain g where g: "fuel = Suc (Suc g)" using Nil.prems(4) by (metis add_0 gr0_conv_Suc less_imp_Suc_add list.size(3) plus_1_eq_Suc add_Suc)
  have "node h a None F" "n = None" using Nil.prems(1,3) node_next by auto
  then show ?case using node_free Nil.prems(2) by (simp add: g)
next
  case (Cons G Fs)
  obtain g where g: "fuel = Suc g" using Cons.prems(4) by (cases fuel) auto
  obtain n' where n': "node h a n' F" "chain node h n' (G # Fs)" using Cons.prems(1) by auto
  have "n = n'" using node_next [OF n'(1)] Cons.prems(3) by simp
  moreover obtain b where "n' = Some b" using n'(2) by auto
  ultimately have b: "node h a (Some b) F" "chain node h (Some b) (G # Fs)" "n = Some b" using n' by simp_all
  let ?h = "h |` (- set F)"
  have "free_cell a h = Inr ?h" using node_free [OF b(1)] Cons.prems(2) by simp
  moreover have ch: "chain node ?h (Some b) (G # Fs)"
    by (rule chain_tail [OF b(2)]) (use Cons.prems(2) in auto)
  then obtain m where m: "next_at ?h b = Inr m" using node_next by auto
  moreover have "free_loop free_cell next_at g ?h (Some b) m = Inr (?h |` (- set (concat (G # Fs))))"
    by (rule Cons.IH [OF ch _ m]) (use Cons.prems g in auto)
  ultimately show ?case by (simp add: g b(3) restrict_twice)
qed

end

subsection \<open>The nodes of the program\<close>

definition opt_list :: "nat option \<Rightarrow> nat list" where
  "opt_list p = (case p of None \<Rightarrow> [] | Some a \<Rightarrow> [a])"

lemma free_ptr_ok:
  "(\<And>x. x \<in> set (opt_list p) \<Longrightarrow> h x \<noteq> None) \<Longrightarrow> free_ptr p h = Inr (h |` (- set (opt_list p)))"
  by (cases p) (auto simp: free_ptr_def opt_list_def restrict_map_def fun_eq_iff)

lemma restrict_more: "(h |` (- A)) |` (- B) = h |` (- (A \<union> B))"
  by (auto simp: restrict_map_def)

definition book_node :: "mem \<Rightarrow> nat \<Rightarrow> nat option \<Rightarrow> nat list \<Rightarrow> bool" where
  "book_node h a n F \<longleftrightarrow> h a = Some (BookCell n) \<and> F = [a]"

definition market_strings :: "market_cell \<Rightarrow> nat list" where
  "market_strings c = opt_list (base_ptr c) @ opt_list (market_ptr c) @ opt_list (name_ptr c)"

definition market_node :: "mem \<Rightarrow> nat \<Rightarrow> nat option \<Rightarrow> nat list \<Rightarrow> bool" where
  "market_node h a n F \<longleftrightarrow> (\<exists>c. h a = Some (MarketCell c) \<and> next_market c = n \<and> F = market_strings c @ [a] \<and>
     (\<forall>x\<in>set (market_strings c). h x \<noteq> None))"

interpretation bk: owned_nodes book_node book_next "\<lambda>a. free_ptr (Some a)"
proof (unfold_locales, goal_cases)
  case (1 h a n F h') then show ?case by (simp add: book_node_def)
next
  case (2 h a n F) then show ?case by (simp add: book_node_def book_next_def)
next
  case (3 h a n F) then show ?case using free_ptr_ok [of "Some a" h] by (simp add: book_node_def opt_list_def)
qed

lemma market_cell_free_ok:
  assumes "h a = Some (MarketCell c)" "distinct (market_strings c @ [a])" "\<And>x. x \<in> set (market_strings c) \<Longrightarrow> h x \<noteq> None"
  shows "market_cell_free a h = Inr (h |` (- set (market_strings c @ [a])))"
proof -
  let ?B = "opt_list (base_ptr c)" and ?M = "opt_list (market_ptr c)" and ?N = "opt_list (name_ptr c)"
  let ?h1 = "h |` (- set ?B)" and ?h2 = "h |` (- (set ?B \<union> set ?M))" and ?h3 = "h |` (- (set ?B \<union> set ?M \<union> set ?N))"
  have d: "distinct ?B" "set ?B \<inter> set ?M = {}" "(set ?B \<union> set ?M) \<inter> set ?N = {}" "a \<notin> set ?B" "a \<notin> set ?M" "a \<notin> set ?N"
    using assms(2) by (auto simp: market_strings_def)
  have al: "h x \<noteq> None" if "x \<in> set ?B \<union> set ?M \<union> set ?N" for x using assms(3) that by (auto simp: market_strings_def)
  have f1: "free_ptr (base_ptr c) h = Inr ?h1" by (rule free_ptr_ok) (use al in blast)
  have f2: "free_ptr (market_ptr c) ?h1 = Inr ?h2"
    unfolding restrict_more [symmetric] by (rule free_ptr_ok) (use al d(2) in \<open>auto simp: restrict_map_def\<close>)
  have f3: "free_ptr (name_ptr c) ?h2 = Inr ?h3"
    unfolding restrict_more [symmetric, of h "set ?B \<union> set ?M"]
    by (rule free_ptr_ok) (use al d(3) in \<open>auto simp: restrict_map_def\<close>)
  have f4: "free_ptr (Some a) ?h3 = Inr (?h3 |` (- set (opt_list (Some a))))"
    by (rule free_ptr_ok) (use assms(1) d in \<open>auto simp: restrict_map_def opt_list_def\<close>)
  have at: "market_at h a = Inr c" "market_at ?h1 a = Inr c" "market_at ?h2 a = Inr c"
    using assms(1) d by (auto simp: market_at_def restrict_map_def)
  have "?h3 |` (- set (opt_list (Some a))) = h |` (- set (market_strings c @ [a]))"
    unfolding restrict_more by (rule arg_cong [of _ _ "\<lambda>A. h |` (- A)"]) (auto simp: market_strings_def opt_list_def)
  then show ?thesis using f1 f2 f3 f4 at by (simp add: market_cell_free_def)
qed

interpretation mk: owned_nodes market_node market_next market_cell_free
proof (unfold_locales, goal_cases)
  case (1 h a n F h') then show ?case by (auto simp: market_node_def)
next
  case (2 h a n F) then show ?case by (auto simp: market_node_def market_next_def market_at_def)
next
  case (3 h a n F) then show ?case using market_cell_free_ok unfolding market_node_def by blast
qed

lemma restrict_none [simp]: "h |` UNIV = h"
  by (simp add: restrict_map_def)

lemma book_free_ok:
  assumes "chain book_node h p Fs" "distinct (concat Fs)" "length Fs < fuel"
  shows "book_free fuel p h = Inr (h |` (- set (concat Fs)))"
proof (cases Fs)
  case Nil
  then show ?thesis using assms by (simp add: book_free_def)
next
  case (Cons F Gs)
  then obtain a n where a: "p = Some a" "book_next h a = Inr n" using assms(1) bk.node_next by auto
  then have "free_loop (\<lambda>a. free_ptr (Some a)) book_next fuel h (Some a) n = Inr (h |` (- set (concat Fs)))"
    using bk.free_loop_ok [of h a F Gs n fuel] assms Cons by simp
  then show ?thesis using a by (simp add: book_free_def)
qed

lemma market_free_ok:
  assumes "chain market_node h p Fs" "distinct (concat Fs)" "length Fs < fuel"
  shows "market_free fuel p h = Inr (h |` (- set (concat Fs)))"
proof (cases Fs)
  case Nil
  then show ?thesis using assms by (simp add: market_free_def)
next
  case (Cons F Gs)
  then obtain a n where a: "p = Some a" "market_next h a = Inr n" using assms(1) mk.node_next by auto
  then have "free_loop market_cell_free market_next fuel h (Some a) n = Inr (h |` (- set (concat Fs)))"
    using mk.free_loop_ok [of h a F Gs n fuel] assms Cons by simp
  then show ?thesis using a by (simp add: market_free_def)
qed

subsection \<open>Vendors and lists of vendors\<close>

definition vendor_owns :: "nat \<Rightarrow> mem \<Rightarrow> nat \<Rightarrow> nat list \<Rightarrow> bool" where
  "vendor_owns fuel h v F \<longleftrightarrow> (\<exists>c Fs. h v = Some (VendorCell c) \<and> chain market_node h (markets_ptr c) Fs \<and>
     length Fs < fuel \<and> F = opt_list (vname_ptr c) @ concat Fs @ [v] \<and> (\<forall>x\<in>set (opt_list (vname_ptr c)). h x \<noteq> None))"

definition list_node :: "nat \<Rightarrow> mem \<Rightarrow> nat \<Rightarrow> nat option \<Rightarrow> nat list \<Rightarrow> bool" where
  "list_node fuel h a n F \<longleftrightarrow> (\<exists>c V. h a = Some (ListCell c) \<and> next_vendor c = n \<and>
     vendor_owns fuel h (vendor_ptr c) V \<and> F = V @ [a])"

definition list_next :: "mem \<Rightarrow> nat \<Rightarrow> nat option cres" where
  "list_next h a = cbind (list_at h a) (\<lambda>c. Inr (next_vendor c))"

definition list_cell_free :: "nat \<Rightarrow> nat \<Rightarrow> mem \<Rightarrow> mem cres" where
  "list_cell_free fuel a h =
     cbind (list_at h a) (\<lambda>c. cbind (vendor_free fuel (vendor_ptr c) h) (\<lambda>h. free_ptr (Some a) h))"

lemma vendor_owns_frame:
  assumes "vendor_owns fuel h v F" "\<And>x. x \<in> set F \<Longrightarrow> h' x = h x"
  shows "vendor_owns fuel h' v F"
proof -
  obtain c Fs where c: "h v = Some (VendorCell c)" "chain market_node h (markets_ptr c) Fs" "length Fs < fuel"
      "F = opt_list (vname_ptr c) @ concat Fs @ [v]" "\<forall>x\<in>set (opt_list (vname_ptr c)). h x \<noteq> None"
    using assms(1) by (auto simp: vendor_owns_def)
  moreover have "chain market_node h' (markets_ptr c) Fs"
    by (rule mk.chain_frame [OF c(2)]) (use assms(2) c(4) in auto)
  ultimately show ?thesis unfolding vendor_owns_def using assms(2) by (intro exI [of _ c] exI [of _ Fs]) auto
qed

lemma vendor_free_ok:
  assumes "vendor_owns fuel h v F" "distinct F"
  shows "vendor_free fuel v h = Inr (h |` (- set F))"
proof -
  obtain c Fs where c: "h v = Some (VendorCell c)" "chain market_node h (markets_ptr c) Fs" "length Fs < fuel"
      "F = opt_list (vname_ptr c) @ concat Fs @ [v]" "\<forall>x\<in>set (opt_list (vname_ptr c)). h x \<noteq> None"
    using assms(1) by (auto simp: vendor_owns_def)
  let ?N = "opt_list (vname_ptr c)" and ?M = "concat Fs"
  let ?h1 = "h |` (- set ?N)" and ?h2 = "h |` (- (set ?N \<union> set ?M))"
  have d: "set ?M \<inter> set ?N = {}" "distinct ?M" "v \<notin> set ?N" "v \<notin> set ?M" using assms(2) c(4) by auto
  have f1: "free_ptr (vname_ptr c) h = Inr ?h1" by (rule free_ptr_ok) (use c(5) in blast)
  have "chain market_node ?h1 (markets_ptr c) Fs"
    by (rule mk.chain_frame [OF c(2)]) (use d(1) in \<open>auto simp: restrict_map_def\<close>)
  then have f2: "market_free fuel (markets_ptr c) ?h1 = Inr ?h2"
    unfolding restrict_more [symmetric] using d(2) c(3) by (intro market_free_ok)
  have f3: "free_ptr (Some v) ?h2 = Inr (?h2 |` (- set (opt_list (Some v))))"
    by (rule free_ptr_ok) (use c(1) d in \<open>auto simp: restrict_map_def opt_list_def\<close>)
  have at: "vendor_at h v = Inr c" "vendor_at ?h1 v = Inr c"
    using c(1) d(3) by (auto simp: vendor_at_def restrict_map_def)
  have "?h2 |` (- set (opt_list (Some v))) = h |` (- set F)"
    unfolding restrict_more by (rule arg_cong [of _ _ "\<lambda>A. h |` (- A)"]) (auto simp: c(4) opt_list_def)
  then show ?thesis using f1 f2 f3 at by (simp add: vendor_free_def)
qed

interpretation vl: owned_nodes "list_node fuel" list_next "list_cell_free fuel" for fuel
proof (unfold_locales, goal_cases)
  case (1 h a n F h')
  then obtain c V where c: "h a = Some (ListCell c)" "next_vendor c = n" "vendor_owns fuel h (vendor_ptr c) V" "F = V @ [a]"
    by (auto simp: list_node_def)
  moreover have "vendor_owns fuel h' (vendor_ptr c) V" by (rule vendor_owns_frame [OF c(3)]) (use 1(2) c(4) in auto)
  ultimately show ?case using 1(2) by (auto simp: list_node_def)
next
  case (2 h a n F) then show ?case by (auto simp: list_node_def list_next_def list_at_def)
next
  case (3 h a n F)
  then obtain c V where c: "h a = Some (ListCell c)" "vendor_owns fuel h (vendor_ptr c) V" "F = V @ [a]"
    by (auto simp: list_node_def)
  have v: "vendor_free fuel (vendor_ptr c) h = Inr (h |` (- set V))"
    by (rule vendor_free_ok [OF c(2)]) (use 3(2) c(3) in simp)
  have "free_ptr (Some a) (h |` (- set V)) = Inr ((h |` (- set V)) |` (- set (opt_list (Some a))))"
    by (rule free_ptr_ok) (use 3(2) c in \<open>auto simp: restrict_map_def opt_list_def\<close>)
  moreover have "(h |` (- set V)) |` (- set (opt_list (Some a))) = h |` (- set F)"
    unfolding restrict_more by (rule arg_cong [of _ _ "\<lambda>A. h |` (- A)"]) (auto simp: c(3) opt_list_def)
  ultimately show ?case using v c(1) by (simp add: list_cell_free_def list_at_def)
qed

lemma vendor_list_loop_ok:
  "\<lbrakk>chain (list_node g) h p Fs; distinct (concat Fs); length Fs < fuel\<rbrakk> \<Longrightarrow>
    vendor_list_loop (\<lambda>v h. vendor_free g v h) fuel h p = Inr (h |` (- set (concat Fs)))"
proof (induction Fs arbitrary: h p fuel)
  case Nil
  then show ?case by (cases fuel) auto
next
  case (Cons F Fs)
  obtain f where f: "fuel = Suc f" using Cons.prems(3) by (cases fuel) auto
  obtain a n where a: "p = Some a" "list_node g h a n F" "chain (list_node g) h n Fs" using Cons.prems(1) by auto
  obtain c where c: "list_at h a = Inr c" "next_vendor c = n"
    using a(2) by (auto simp: list_node_def list_at_def)
  have "list_cell_free g a h = Inr (h |` (- set F))" by (rule vl.node_free [OF a(2)]) (use Cons.prems(2) in simp)
  then obtain h1 where h1: "vendor_free g (vendor_ptr c) h = Inr h1" "free_ptr (Some a) h1 = Inr (h |` (- set F))"
    using c(1) by (auto simp: list_cell_free_def cres_simps)
  have "chain (list_node g) (h |` (- set F)) n Fs" by (rule vl.chain_tail [OF a(3)]) (use Cons.prems(2) in auto)
  from Cons.IH [OF this, of f] have "vendor_list_loop (\<lambda>v h. vendor_free g v h) f (h |` (- set F)) n =
      Inr (h |` (- (set F \<union> set (concat Fs))))"
    using Cons.prems(2,3) f by (simp add: restrict_more)
  then show ?case using a(1) c h1 by (simp add: f)
qed

text \<open>Destroying a table frees it and its arrays; \<^verbatim>\<open>hashtable_free\<close> leaves the struct around it allocated.\<close>

lemma kh_destroy_ok:
  assumes "h a = Some (TableCell c)"
    and F: "F = opt_list (keys_ptr c) @ opt_list (flags_ptr c) @ opt_list (vals_ptr c)"
    and "distinct (F @ [a])" "\<forall>x\<in>set F. h x \<noteq> None"
  shows "kh_destroy (Some a) h = Inr (h |` (- set (F @ [a])))"
  using assms(1,3,4) unfolding F
  by (cases "keys_ptr c"; cases "flags_ptr c"; cases "vals_ptr c")
    (auto simp: kh_destroy_def table_at_def free_ptr_def opt_list_def restrict_map_def fun_eq_iff)

lemma https_free_ok:
  assumes "h a = Some (HttpCell c)"
    and F: "F = opt_list (curl_ptr c) @ opt_list (encoded_ptr c) @ opt_list (post_ptr c) @ opt_list (headers_ptr c)"
    and "distinct (F @ [a])" "\<forall>x\<in>set F. h x \<noteq> None"
  shows "utils_https_free (Some a) h = Inr (h |` (- set (F @ [a])))"
  using assms(1,3,4) unfolding F
  by (cases "curl_ptr c"; cases "encoded_ptr c"; cases "post_ptr c"; cases "headers_ptr c")
    (auto simp: utils_https_free_def http_at_def free_ptr_def opt_list_def restrict_map_def fun_eq_iff)

lemma hashtable_free_keeps_struct:
  assumes "h ht = Some (HashtableCell (Some a))" "h a = Some (TableCell c)"
    and "F = opt_list (keys_ptr c) @ opt_list (flags_ptr c) @ opt_list (vals_ptr c)"
    and "distinct (F @ [a, ht])" "\<forall>x\<in>set F. h x \<noteq> None"
  shows "\<exists>h'. hashtable_free ht h = Inr h' \<and> h' ht = Some (HashtableCell (Some a)) \<and> h' a = None"
proof -
  have "kh_destroy (Some a) h = Inr (h |` (- set (F @ [a])))"
    using kh_destroy_ok [of h a c F] assms(2-5) by simp
  then show ?thesis using assms(1,4) by (simp add: hashtable_free_def)
qed

subsection \<open>Properties\<close>

text \<open>
  \<^verbatim>\<open>market_free\<close> on a list of nodes frees every node and every string of it exactly once, reads none of them
  after it was freed, and leaves the rest of the memory alone; it needs no more passes than the list has nodes.
\<close>

lemma market_free_all:
  assumes "chain market_node h p Fs" "distinct (concat Fs)" "length Fs < fuel"
  shows "market_free fuel p h = Inr (h |` (- set (concat Fs)))"
  by (rule market_free_ok [OF assms])

definition ex_mem :: mem where
  "ex_mem = [1 \<mapsto> MarketCell \<lparr>name_ptr = None, market_ptr = Some 3, base_ptr = Some 2, next_market = Some 4\<rparr>,
     2 \<mapsto> TextCell ''BTC'', 3 \<mapsto> TextCell ''LTC'',
     4 \<mapsto> MarketCell \<lparr>name_ptr = Some 5, market_ptr = None, base_ptr = None, next_market = None\<rparr>,
     5 \<mapsto> TextCell ''x'', 6 \<mapsto> VendorCell \<lparr>vname_ptr = Some 7, markets_ptr = Some 1\<rparr>, 7 \<mapsto> TextCell ''btc38'',
     8 \<mapsto> ListCell \<lparr>vendor_ptr = 6, next_vendor = None\<rparr>, 9 \<mapsto> TextCell ''kept'']"

lemma ex_mem_chain: "chain market_node ex_mem (Some 1) [[2, 3, 1], [5, 4]]"
  by (simp add: ex_mem_def market_node_def market_strings_def opt_list_def)

text \<open>
  C21. \<^verbatim>\<open>vendor_list_free\<close> with the flag set frees every list node, every vendor, its name and its current market
  list, each exactly once.
\<close>

theorem vendor_list_free_all:
  assumes "chain (list_node fuel) h p Fs" "distinct (concat Fs)" "length Fs < fuel"
  shows "vendor_list_free fuel p True h = Inr (h |` (- set (concat Fs)))"
  using vendor_list_loop_ok [OF assms] by (simp add: vendor_list_free_def)

lemma ex_mem_vendors: "chain (list_node 3) ex_mem (Some 8) [[7, 2, 3, 1, 5, 4, 6, 8]]"
proof -
  have "vendor_owns 3 ex_mem 6 ([7] @ concat [[2, 3, 1], [5, 4]] @ [6])"
    unfolding vendor_owns_def
    by (intro exI [of _ "\<lparr>vname_ptr = Some 7, markets_ptr = Some 1\<rparr>"] exI [of _ "[[2, 3, 1], [5, 4 :: nat]]"] conjI)
      (use ex_mem_chain in \<open>simp_all add: opt_list_def ex_mem_def del: chain.simps\<close>)
  then show ?thesis by (simp add: list_node_def) (simp add: ex_mem_def)
qed

lemma vendor_list_free_all_witness:
  "\<exists>h. vendor_list_free 3 (Some 8) True ex_mem = Inr h \<and> h 6 = None \<and> h 2 = None \<and> h 9 = Some (TextCell ''kept'')"
  using vendor_list_free_all [OF ex_mem_vendors] by (simp add: ex_mem_def)

end
