(* ===== verification/WebsocketRace.thy ===== *)
theory WebsocketRace
  imports WebsocketSpec
begin

section \<open>The two threads of the receive buffer\<close>

text \<open>
  \<^verbatim>\<open>on_msg_recv_callback\<close> runs in the thread of \<^verbatim>\<open>websockets_thread\<close>, \<^verbatim>\<open>websocket_recv\<close> in the thread of the caller,
  and nothing keeps them apart. Here both are cut into their reads and writes of \<^verbatim>\<open>recv_buf\<close> and of the volatile
  \<^verbatim>\<open>recv_size\<close>; a schedule says who is next. A copy between the arrays is one step.
\<close>

subsection \<open>States\<close>

text \<open>Where the callback is: it tests for room, copies the message behind the data, loads the size and stores the
  sum.\<close>

datatype lib_pc = LibIdle | LibTest string | LibCopy string | LibLoad string | LibStore string nat

text \<open>Where the caller is; the numbers are \<^verbatim>\<open>size\<close> at first and then \<^verbatim>\<open>len\<close>, the text is \<^verbatim>\<open>data\<close>.\<close>

datatype call_pc = CallIdle | CallLen nat | CallPart nat | CallMove nat string | CallLoad nat string
  | CallStore nat string nat | CallAll nat | CallZero string

record race =
  cells :: string
  recv_size :: nat
  lib :: lib_pc
  caller :: call_pc
  got :: string
  arrived :: string

text \<open>\<open>got\<close> and \<open>arrived\<close> record all bytes returned to callers and all bytes of messages that were stored.\<close>

definition put_at :: "nat \<Rightarrow> string \<Rightarrow> string \<Rightarrow> string" where
  "put_at i m b = take i b @ m @ drop (i + length m) b"

subsection \<open>Steps\<close>

definition lib_next :: "race \<Rightarrow> race cres" where
  "lib_next s =
     (case lib s of
        LibIdle \<Rightarrow> Inr s
      | LibTest m \<Rightarrow> Inr (if recv_cap - recv_size s \<ge> length m then s\<lparr>lib := LibCopy m\<rparr> else s)
      | LibCopy m \<Rightarrow>
          if recv_size s + length m > recv_cap then Inl OutOfBounds
          else Inr (s\<lparr>cells := put_at (recv_size s) m (cells s), lib := LibLoad m\<rparr>)
      | LibLoad m \<Rightarrow> Inr (s\<lparr>lib := LibStore m (recv_size s)\<rparr>)
      | LibStore m l \<Rightarrow> Inr (s\<lparr>recv_size := l + length m, lib := LibIdle, arrived := arrived s @ m\<rparr>))"

definition caller_next :: "race \<Rightarrow> race cres" where
  "caller_next s =
     (case caller s of
        CallIdle \<Rightarrow> Inr s
      | CallLen n \<Rightarrow>
          let len = recv_size s in
          Inr (s\<lparr>caller := (if len > 0 then (if len > n then CallPart n else CallAll len) else CallIdle)\<rparr>)
      | CallPart n \<Rightarrow>
          if n > recv_cap then Inl OutOfBounds else Inr (s\<lparr>caller := CallMove n (take n (cells s))\<rparr>)
      | CallMove n d \<Rightarrow>
          if recv_size s < n \<or> recv_size s > recv_cap then Inl OutOfBounds
          else Inr (s\<lparr>cells := put_at 0 (drop n (take (recv_size s) (cells s))) (cells s), caller := CallLoad n d\<rparr>)
      | CallLoad n d \<Rightarrow> Inr (s\<lparr>caller := CallStore n d (recv_size s)\<rparr>)
      | CallStore n d r \<Rightarrow>
          if r < n then Inl OutOfBounds else Inr (s\<lparr>recv_size := r - n, caller := CallIdle, got := got s @ d\<rparr>)
      | CallAll n \<Rightarrow>
          if n > recv_cap then Inl OutOfBounds else Inr (s\<lparr>caller := CallZero (take n (cells s))\<rparr>)
      | CallZero d \<Rightarrow> Inr (s\<lparr>recv_size := 0, caller := CallIdle, got := got s @ d\<rparr>))"

text \<open>Events of a schedule: a message arrives, a caller asks for bytes, one of the two threads goes on. A thread
  that is busy takes no new work.\<close>

datatype event = Arrive string | Call nat | Lib | Caller

definition race_next :: "event \<Rightarrow> race \<Rightarrow> race cres" where
  "race_next e s =
     (case e of
        Arrive m \<Rightarrow> Inr (if lib s = LibIdle then s\<lparr>lib := LibTest m\<rparr> else s)
      | Call n \<Rightarrow> Inr (if caller s = CallIdle then s\<lparr>caller := CallLen n\<rparr> else s)
      | Lib \<Rightarrow> lib_next s
      | Caller \<Rightarrow> caller_next s)"

fun run_race :: "event list \<Rightarrow> race \<Rightarrow> race cres" where
  "run_race [] s = Inr s"
| "run_race (e # es) s = cbind (race_next e s) (run_race es)"

lemma run_race_append: "run_race (es @ fs) s = cbind (run_race es s) (run_race fs)"
proof (induction es arbitrary: s)
  case (Cons e es)
  then show ?case by (cases "race_next e s") simp_all
qed simp

lemmas race_defs = race_next_def lib_next_def caller_next_def

subsection \<open>The invariant of all interleavings\<close>

text \<open>
  The size the callback may store later: the sum it is about to store, or the present size and the message. What
  the caller wants to take off is never more than the present size or that sum.
\<close>

definition lib_ok :: "race \<Rightarrow> bool" where
  "lib_ok s \<longleftrightarrow>
     (case lib s of
        LibCopy m \<Rightarrow> recv_size s + length m \<le> recv_cap
      | LibLoad m \<Rightarrow> recv_size s + length m \<le> recv_cap
      | LibStore m l \<Rightarrow> l + length m \<le> recv_cap
      | _ \<Rightarrow> True)"

definition at_least :: "nat \<Rightarrow> race \<Rightarrow> bool" where
  "at_least n s \<longleftrightarrow> n \<le> recv_size s \<and> (\<forall>m l. lib s = LibStore m l \<longrightarrow> n \<le> l + length m)"

definition caller_ok :: "race \<Rightarrow> bool" where
  "caller_ok s \<longleftrightarrow>
     (case caller s of
        CallPart n \<Rightarrow> at_least n s
      | CallMove n d \<Rightarrow> at_least n s
      | CallLoad n d \<Rightarrow> at_least n s
      | CallStore n d r \<Rightarrow> n \<le> r \<and> at_least r s
      | CallAll n \<Rightarrow> n \<le> recv_cap
      | _ \<Rightarrow> True)"

text \<open>While the callback has loaded a size, the present size is no larger.\<close>

definition loaded_ok :: "race \<Rightarrow> bool" where
  "loaded_ok s \<longleftrightarrow> (\<forall>m l. lib s = LibStore m l \<longrightarrow> recv_size s \<le> l)"

definition race_inv :: "race \<Rightarrow> bool" where
  "race_inv s \<longleftrightarrow> length (cells s) = recv_cap \<and> recv_size s \<le> recv_cap \<and> lib_ok s \<and> loaded_ok s \<and> caller_ok s"

lemmas race_inv_defs = race_inv_def lib_ok_def caller_ok_def loaded_ok_def at_least_def

lemma length_put_at [simp]: "i + length m \<le> length b \<Longrightarrow> length (put_at i m b) = length b"
  by (simp add: put_at_def)

lemma lib_next_inv: "race_inv s \<Longrightarrow> \<exists>s'. lib_next s = Inr s' \<and> race_inv s'"
  by (cases "lib s"; cases "caller s") (auto simp: race_inv_defs lib_next_def)

lemma caller_next_inv: "race_inv s \<Longrightarrow> \<exists>s'. caller_next s = Inr s' \<and> race_inv s'"
  by (cases "lib s"; cases "caller s") (auto simp: race_inv_defs caller_next_def Let_def)

lemma race_next_inv: "race_inv s \<Longrightarrow> \<exists>s'. race_next e s = Inr s' \<and> race_inv s'"
proof (cases e)
  case (Arrive m)
  assume "race_inv s"
  then show ?thesis using Arrive by (cases "caller s") (auto simp: race_next_def race_inv_defs)
next
  case (Call n)
  assume "race_inv s"
  then show ?thesis using Call by (cases "lib s") (auto simp: race_next_def race_inv_defs)
qed (simp_all add: race_next_def lib_next_inv caller_next_inv)

lemma run_race_inv: "race_inv s \<Longrightarrow> \<exists>s'. run_race es s = Inr s' \<and> race_inv s'"
proof (induction es arbitrary: s)
  case (Cons e es)
  obtain t where "race_next e s = Inr t" "race_inv t" using race_next_inv [OF Cons.prems] by blast
  then show ?case using Cons.IH by simp
qed simp

text \<open>The state after \<^verbatim>\<open>websocket_client_new\<close>: nothing received, the array not initialised.\<close>

definition race_start :: "string \<Rightarrow> race" where
  "race_start junk = \<lparr>cells = junk, recv_size = 0, lib = LibIdle, caller = CallIdle, got = [], arrived = []\<rparr>"

lemma race_start_inv: "length junk = recv_cap \<Longrightarrow> race_inv (race_start junk)"
  by (simp add: race_start_def race_inv_defs)

subsection \<open>Calls that do not overlap\<close>

text \<open>The bytes in the buffer.\<close>

definition content :: "race \<Rightarrow> string" where
  "content s = take (recv_size s) (cells s)"

definition quiet :: "race \<Rightarrow> bool" where
  "quiet s \<longleftrightarrow> lib s = LibIdle \<and> caller s = CallIdle \<and> length (cells s) = recv_cap \<and> recv_size s \<le> recv_cap"

definition client_of :: "race \<Rightarrow> ws_client" where
  "client_of s = \<lparr>body = [], body_off = 0, recv_buf = content s\<rparr>"

lemma content_put_at:
  "i \<le> length b \<Longrightarrow> take (i + length m) (put_at i m b) = take i b @ m"
  by (simp add: put_at_def)

lemma whole_arrival:
  assumes "quiet s" "on_msg_recv False m (client_of s) = Some ws"
  shows "\<exists>s'. run_race [Arrive m, Lib, Lib, Lib, Lib] s = Inr s' \<and> quiet s' \<and> client_of s' = ws \<and>
    got s' = got s \<and> arrived s' = arrived s @ m"
proof -
  have len: "length (content s) = recv_size s" using assms(1) by (simp add: content_def quiet_def)
  have room: "recv_size s + length m \<le> recv_cap" and ws: "ws = (client_of s)\<lparr>recv_buf := content s @ m\<rparr>"
    using assms len by (auto simp: on_msg_recv_def client_of_def quiet_def split: if_splits)
  show ?thesis
    using assms(1) room content_put_at [of "recv_size s" "cells s" m]
    by (auto simp: race_defs quiet_def ws client_of_def content_def)
qed

lemma whole_call:
  assumes "quiet s" "websocket_recv n (client_of s) = (d, ws)"
  shows "\<exists>s'. run_race [Call n, Caller, Caller, Caller, Caller, Caller] s = Inr s' \<and> quiet s' \<and> client_of s' = ws \<and>
    got s' = got s @ d \<and> arrived s' = arrived s"
proof -
  have len: "length (content s) = recv_size s" using assms(1) by (simp add: content_def quiet_def)
  consider "recv_size s = 0" | "0 < recv_size s" "recv_size s \<le> n" | "0 < recv_size s" "n < recv_size s" by linarith
  then show ?thesis
  proof cases
    case 1
    then show ?thesis using assms by (simp add: race_defs quiet_def client_of_def content_def websocket_recv_def Let_def)
  next
    case 2
    then show ?thesis using assms len
      by (simp add: race_defs quiet_def client_of_def websocket_recv_def Let_def) (simp add: content_def)
  next
    case 3
    then show ?thesis using assms len
      by (simp add: race_defs quiet_def client_of_def websocket_recv_def Let_def)
        (auto simp: content_def put_at_def)
  qed
qed

text \<open>A schedule in which every call is finished before the next begins.\<close>

fun whole :: "q_op \<Rightarrow> event list" where
  "whole (Push m) = [Arrive m, Lib, Lib, Lib, Lib]"
| "whole (Pop n) = [Call n, Caller, Caller, Caller, Caller, Caller]"

fun is_push :: "q_op \<Rightarrow> bool" where
  "is_push (Push m) = True"
| "is_push (Pop n) = False"

lemma queue_run_pushes: "queue_run push pop ops s = (acc, out, t) \<Longrightarrow> length acc \<le> length (filter is_push ops)"
proof (induction ops arbitrary: s acc out)
  case (Cons p ops)
  show ?case
  proof (cases p)
    case (Push m)
    show ?thesis
    proof (cases "push m s")
      case None
      then have "queue_run push pop ops s = (acc, out, t)" using Cons.prems Push by simp
      from Cons.IH [OF this] show ?thesis using Push by simp
    next
      case (Some s')
      obtain acc' where "queue_run push pop ops s' = (acc', out, t)" "acc = m # acc'"
        using Cons.prems Push Some by (auto split: prod.splits)
      then show ?thesis using Cons.IH Push by simp
    qed
  next
    case (Pop n)
    obtain d s' where "pop n s = (d, s')" by fastforce
    then obtain out' where "queue_run push pop ops s' = (acc, out', t)"
      using Cons.prems Pop by (auto split: prod.splits)
    from Cons.IH [OF this] show ?thesis using Pop by simp
  qed
qed simp

lemma serial_run:
  "\<lbrakk>quiet s; queue_run (on_msg_recv False) websocket_recv ops (client_of s) = (acc, out, ws);
    length acc = length (filter is_push ops)\<rbrakk> \<Longrightarrow>
    \<exists>s'. run_race (concat (map whole ops)) s = Inr s' \<and> quiet s' \<and> client_of s' = ws \<and>
      got s' = got s @ concat out \<and> arrived s' = arrived s @ concat acc"
proof (induction ops arbitrary: s acc out)
  case (Cons p ops)
  show ?case
  proof (cases p)
    case (Push m)
    obtain w where w: "on_msg_recv False m (client_of s) = Some w"
      using Cons.prems(2,3) queue_run_pushes [of "on_msg_recv False" websocket_recv ops "client_of s" acc out ws] Push
      by (cases "on_msg_recv False m (client_of s)") auto
    obtain acc' where r: "queue_run (on_msg_recv False) websocket_recv ops w = (acc', out, ws)" "acc = m # acc'"
      using Cons.prems(2) Push w by (auto split: prod.splits)
    obtain t where t: "run_race (whole p) s = Inr t" "quiet t" "client_of t = w" "got t = got s" "arrived t = arrived s @ m"
      using whole_arrival [OF Cons.prems(1) w] Push by (metis whole.simps(1))
    have "length acc' = length (filter is_push ops)" using Cons.prems(3) r(2) Push by simp
    from Cons.IH [OF t(2) _ this] r(1) t(3) obtain s' where
      "run_race (concat (map whole ops)) t = Inr s'" "quiet s'" "client_of s' = ws"
      "got s' = got t @ concat out" "arrived s' = arrived t @ concat acc'" by blast
    then show ?thesis using t r(2) by (simp add: run_race_append del: whole.simps)
  next
    case (Pop n)
    obtain d w where w: "websocket_recv n (client_of s) = (d, w)" by fastforce
    obtain out' where r: "queue_run (on_msg_recv False) websocket_recv ops w = (acc, out', ws)" "out = d # out'"
      using Cons.prems(2) Pop w by (auto split: prod.splits)
    obtain t where t: "run_race (whole p) s = Inr t" "quiet t" "client_of t = w" "got t = got s @ d" "arrived t = arrived s"
      using whole_call [OF Cons.prems(1) w] Pop by (metis whole.simps(2))
    have "length acc = length (filter is_push ops)" using Cons.prems(3) Pop by simp
    from Cons.IH [OF t(2) _ this] r(1) t(3) obtain s' where
      "run_race (concat (map whole ops)) t = Inr s'" "quiet s'" "client_of s' = ws"
      "got s' = got t @ concat out'" "arrived s' = arrived t @ concat acc" by blast
    then show ?thesis using t r(2) by (simp add: run_race_append del: whole.simps)
  qed
qed simp

subsection \<open>Properties\<close>

text \<open>
  C13. However the steps of the two threads are mixed, the receive buffer is safe: no copy leaves its 8192 bytes and
  the size never exceeds them, although neither the test for room nor the updates of the size are atomic.
\<close>

theorem ws_race_bounded:
  assumes "length junk = 8192"
  shows "\<exists>s. run_race es (race_start junk) = Inr s \<and> recv_size s \<le> 8192 \<and> length (cells s) = 8192"
  using run_race_inv [OF race_start_inv, of junk es] assms by (auto simp: race_inv_def recv_cap_def)

definition ex_junk :: string where "ex_junk = replicate 8192 CHR ''x''"

lemma length_ex_junk: "length ex_junk = 8192"
  by (simp only: ex_junk_def length_replicate)

lemma ws_race_bounded_witness:
  "\<exists>s. run_race [Arrive ''ab'', Lib, Call 1, Lib, Caller, Lib, Caller, Lib] (race_start ex_junk) = Inr s \<and> recv_size s \<le> 8192"
  using ws_race_bounded [OF length_ex_junk] by blast

text \<open>
  C24. When each call is finished before the next begins and every message finds room, nothing is lost: the bytes
  returned to the callers and those still in the buffer are the bytes of the messages, in order.
\<close>

theorem ws_serial_exact:
  assumes "length junk = 8192" "queue_run (on_msg_recv False) websocket_recv ops (client_of (race_start junk)) = (acc, out, ws)"
    and "length acc = length (filter is_push ops)"
  shows "\<exists>s. run_race (concat (map whole ops)) (race_start junk) = Inr s \<and> got s = concat out \<and>
    arrived s = concat acc \<and> got s @ content s = arrived s"
proof -
  let ?s = "race_start junk"
  have q: "quiet ?s" using assms(1) by (simp add: race_start_def quiet_def recv_cap_def)
  obtain s' where s': "run_race (concat (map whole ops)) ?s = Inr s'" "client_of s' = ws"
      "got s' = got ?s @ concat out" "arrived s' = arrived ?s @ concat acc"
    using serial_run [OF q assms(2,3)] by blast
  have "recv_buf (client_of ?s) = []" by (simp add: client_of_def content_def race_start_def)
  then have "concat out @ recv_buf ws = concat acc" using wsq.run_conserves [OF assms(2)] by simp
  moreover have "content s' = recv_buf ws" using s'(2) by (auto simp: client_of_def)
  ultimately show ?thesis using s' by (simp add: race_start_def)
qed

lemma ws_serial_exact_witness:
  "\<exists>s. run_race (concat (map whole [Push ''abc'', Pop 2, Push ''d'', Pop 9])) (race_start ex_junk) = Inr s \<and>
    got s = ''abcd'' \<and> arrived s = ''abcd''"
proof -
  have c: "client_of (race_start ex_junk) = \<lparr>body = [], body_off = 0, recv_buf = []\<rparr>"
    by (simp add: client_of_def content_def race_start_def)
  have "queue_run (on_msg_recv False) websocket_recv [Push ''abc'', Pop 2, Push ''d'', Pop 9] (client_of (race_start ex_junk)) =
      ([''abc'', ''d''], [''ab'', ''cd''], \<lparr>body = [], body_off = 0, recv_buf = []\<rparr>)"
    by (simp add: c on_msg_recv_def websocket_recv_def recv_cap_def Let_def)
  from ws_serial_exact [OF length_ex_junk this] show ?thesis by auto
qed

text \<open>
  When a message is stored while a caller who takes everything is between reading the size and clearing it, the
  message is lost: whatever was in the buffer is returned, the message counts as arrived, and the buffer is empty.
\<close>

lemma ws_race_loses:
  assumes "quiet s" "content s \<noteq> []" "length (content s) \<le> n" "length (content s) + length m \<le> 8192"
  shows "\<exists>s'. run_race ([Call n, Caller] @ [Arrive m, Lib, Lib, Lib, Lib] @ [Caller, Caller]) s = Inr s' \<and>
    arrived s' = arrived s @ m \<and> got s' = got s @ content s \<and> content s' = []"
proof -
  have len: "length (content s) = recv_size s" using assms(1) by (simp add: content_def quiet_def)
  have room: "length m \<le> recv_cap - recv_size s" using assms(4) len by (simp add: recv_cap_def)
  then show ?thesis
    using assms(1-3) len by (auto simp: race_defs quiet_def content_def put_at_def)
qed

end
