(* ===== verification/Logging.thy ===== *)
theory Logging
  imports Prelude
begin

section \<open>Logging (\<^verbatim>\<open>utils/logging.c\<close>)\<close>

text \<open>
  The lines written to the standard error. A message has one conversion (a percent sign and a letter), which
  \<^verbatim>\<open>snprintf\<close> replaces by the text of the parameter; the arrays are sized from the lengths of the texts.
\<close>

definition current_loglevel :: int where "current_loglevel = 0"

definition loglevel :: "int \<Rightarrow> bool" where
  "loglevel log_level \<longleftrightarrow> log_level > current_loglevel"

definition logit :: "int \<Rightarrow> string \<Rightarrow> string list \<Rightarrow> string list" where
  "logit log_level message err = (if loglevel log_level then err @ [message] else err)"

text \<open>The text of a message with the first conversion replaced; texts without one are copied.\<close>

fun subst_param :: "string \<Rightarrow> string \<Rightarrow> string" where
  "subst_param [] param = []"
| "subst_param (c # s) param = (if c = CHR ''%'' then param @ drop 1 s else c # subst_param s param)"

text \<open>The text of \<^verbatim>\<open>%d\<close>.\<close>

definition int_text :: "int \<Rightarrow> string" where
  "int_text i = (if i < 0 then CHR ''-'' # dec (nat (- i)) else dec (nat i))"

definition logit_int :: "int \<Rightarrow> string \<Rightarrow> int \<Rightarrow> string list \<Rightarrow> string list" where
  "logit_int log_level message param err =
     (if loglevel log_level
      then logit log_level (snprintf (length message + 12) (subst_param message (int_text param))) err
      else err)"

text \<open>For \<^verbatim>\<open>logit_double\<close> the text of the conversion \<^verbatim>\<open>%f\<close> is an argument.\<close>

definition logit_double :: "int \<Rightarrow> string \<Rightarrow> string \<Rightarrow> string list \<Rightarrow> string list" where
  "logit_double log_level message param err =
     (if loglevel log_level then logit log_level (snprintf (length message + 20) (subst_param message param)) err else err)"

definition logit_string :: "int \<Rightarrow> string \<Rightarrow> string option \<Rightarrow> string list \<Rightarrow> string list cres" where
  "logit_string log_level message param err =
     (if loglevel log_level
      then (case param of
              None \<Rightarrow> Inl BadPointer
            | Some p \<Rightarrow> Inr (logit log_level (snprintf (length message + length p + 1) (subst_param message p)) err))
      else Inr err)"

subsection \<open>Nothing is cut\<close>

lemma length_subst_param: "length (subst_param s p) \<le> length s + length p"
  by (induction s) auto

lemma length_dec: "n < 10 ^ k \<Longrightarrow> 0 < k \<Longrightarrow> length (dec n) \<le> k"
proof (induction k arbitrary: n)
  case (Suc k)
  show ?case
  proof (cases "n < 10")
    case True
    then show ?thesis by (simp add: dec.simps)
  next
    case False
    then have "0 < k" using Suc.prems by (cases k) auto
    moreover have "n div 10 < 10 ^ k" using Suc.prems by (simp add: less_mult_imp_div_less mult.commute)
    ultimately show ?thesis using Suc.IH [of "n div 10"] by (simp add: dec.simps [of n])
  qed
qed simp

lemma length_int_text:
  assumes "- (2 ^ 31) \<le> i" "i < 2 ^ 31"
  shows "length (int_text i) \<le> 11"
proof -
  have "nat i < 10 ^ 10" "nat (- i) < 10 ^ 10" using assms by simp_all
  from this [THEN length_dec] show ?thesis by (simp add: int_text_def)
qed

text \<open>
  The array of \<^verbatim>\<open>logit_int\<close> holds every 32-bit number behind a message with a conversion, that of \<^verbatim>\<open>logit_string\<close>
  every parameter: the line is complete.
\<close>

lemma logit_int_complete:
  assumes "- (2 ^ 31) \<le> i" "i < 2 ^ 31"
  shows "logit_int log_level message i err =
    (if log_level > 0 then err @ [subst_param message (int_text i)] else err)"
proof -
  have "length (subst_param message (int_text i)) < length message + 12"
    using length_subst_param [of message "int_text i"] length_int_text [OF assms] by linarith
  then show ?thesis by (simp add: logit_int_def logit_def loglevel_def current_loglevel_def)
qed

lemma logit_string_complete:
  "logit_string log_level message (Some p) err =
    Inr (if log_level > 0 then err @ [subst_param message p] else err)"
proof -
  have "length (subst_param message p) < length message + length p + 1"
    using length_subst_param [of message p] by linarith
  then show ?thesis by (simp add: logit_string_def logit_def loglevel_def current_loglevel_def)
qed

text \<open>The text of a large double (here one with 23 digits) does not fit into the array of \<^verbatim>\<open>logit_double\<close>.\<close>

lemma logit_double_cuts:
  "logit_double 1 ''%f'' ''10000000000000000.000000'' [] = [''10000000000000000.000'']"
  by (simp add: logit_double_def logit_def loglevel_def current_loglevel_def snprintf_def)

end
