(* ===== verification/Spec2Isabelle.thy ===== *)
theory Spec2Isabelle
  imports Robust Serving AcceptanceSpec Hashtable Freeing WebsocketRace Logging
begin

text \<open>
  A verification development of the exchange bridge, a C program that collects the markets of crypto currency
  exchanges and serves the list of trading pairs to clients.

  \<^bold>\<open>The program.\<close> \<^verbatim>\<open>main/main.c\<close> starts one update thread per exchange and one thread per connection. An exchange is
  a \<^verbatim>\<open>struct Vendor\<close>, a table of functions set up by \<^verbatim>\<open>book/vendor.c\<close>; the functions are in \<^verbatim>\<open>book/bittrex.c\<close>,
  \<^verbatim>\<open>book/btc38.c\<close> and \<^verbatim>\<open>book/poloniex.c\<close> and send requests through \<^verbatim>\<open>utils/https.c\<close>, whose answers they take apart
  with the tokenizer \<^verbatim>\<open>utils/jsmn.c\<close> and the accessors \<^verbatim>\<open>utils/json.c\<close>. A client that sends \<^verbatim>\<open>trading_pairs\<close> gets the
  markets of all vendors without duplicates, which are removed with the hash table \<^verbatim>\<open>utils/khash.h\<close>, as protobuf
  messages (\<^verbatim>\<open>book/market.c\<close>). \<^verbatim>\<open>client/cgi_client.c\<close> is such a client. \<^verbatim>\<open>utils/websocket.c\<close> with \<^verbatim>\<open>utils/base64.h\<close> is
  a websocket client on top of the library \<^verbatim>\<open>wslay\<close>.

  \<^bold>\<open>Conventions.\<close> Theory \<open>Prelude\<close> has the type \<open>'a cres\<close> of the outcomes of a C function: a value or a fault (an
  access out of bounds, a null or freed pointer, an uninitialised value, an undefined conversion, no return). A
  linked list is the HOL list of its nodes, except in \<open>Freeing\<close>, \<open>VendorLoop\<close> and \<open>Server\<close>, where the heap is explicit. A
  null pointer is \<open>None\<close> or the empty list. Doubles are binary64 numbers with rounding (\<open>CDouble\<close>), bytes and the
  32-bit numbers of the hash table are words. \<^verbatim>\<open>malloc\<close> succeeds. Calls of the operating system and of libraries
  whose code is not part of the program are given by their results, or are parameters with named laws.

  \<^bold>\<open>Parsing.\<close> \<open>Jsmn\<close> is the tokenizer: the state of the loop is the record \<open>jsmn_state\<close>, one pass is \<open>jsmn_step\<close>. \<open>JsmnSafe\<close>
  shows that a run stays within the token array and leaves well-shaped, nested tokens, \<open>JsmnJson\<close> that the text of
  a JSON value gives exactly the tokens of that value, and that the counting mode agrees with the storing mode.
  \<open>Json\<close> has the accessors, \<open>JsonView\<close> and \<open>LevelView\<close> say what they read from such tokens.

  \<^bold>\<open>Exchanges.\<close> \<open>Book\<close> has the data, the constructors and the mock exchange; \<open>Https\<close> requests, headers, post fields,
  hexadecimal text and signatures. \<open>Bittrex\<close>, \<open>Btc38\<close> and \<open>Poloniex\<close> are the three exchanges, \<open>BittrexSpec\<close>,
  \<open>Btc38Spec\<close> and \<open>PoloniexSpec\<close> describe their answers as JSON values with arbitrary further members and prove
  which markets, order books and balances come out, with the levels and tickers the code loses. \<open>Robust\<close> runs the
  parsers on arbitrary text with arbitrary stale tokens in the array, and says when the parsers of
  markets, and those of books and balances of bittrex, still fail.

  \<^bold>\<open>Hash table.\<close> \<open>Khash\<close> is the table with string keys the macros generate, with its packed flags. \<open>KhashProbe\<close> (probe
  sequence, flags, rounding to a power of two) and \<open>KhashLoad\<close> (the load bound in doubles) are the facts behind it,
  \<open>KhashRehash\<close> the kick-out loop of \<^verbatim>\<open>kh_resize\<close>, \<open>KhashMap\<close> the invariant and the map a table stands for, \<open>KhashOps\<close> the
  operations on this map. \<open>Hashtable\<close> is the wrapper \<^verbatim>\<open>utils/hashtable.c\<close>.

  \<^bold>\<open>Vendors.\<close> \<open>Vendor\<close> and \<open>VendorSpec\<close>: the function tables, the search for a market, the list of trading pairs.
  \<open>VendorLoop\<close> is the update thread as a step relation together with a reader and \<^verbatim>\<open>vendor_free\<close>. Its call of
  \<^verbatim>\<open>markets_get\<close> returns a list or does not return (the position \<open>Lost\<close>; \<open>poloniex_markets_hang\<close> shows that the parser of
  poloniex can loop for ever). A measure, the \<open>size\<close> of its state, shows that once \<^verbatim>\<open>running\<close> is cleared the thread comes to
  one of its two ends within five steps. \<open>Freeing\<close> are the functions that release lists.

  \<^bold>\<open>Transfer.\<close> \<open>MarketPb\<close> encodes and decodes markets, with the protobuf library as a parameter; \<open>PbWire\<close> has the laws
  it must keep and an instance that keeps them, \<open>MarketPbSpec\<close> the round trip; \<open>DoubleBounds\<close> bounds the rounding of
  doubles in real numbers, which says what becomes of a fee. \<open>Bridge\<close> is the server from the first
  byte of a request to the answer, the accept loop and the CGI client; \<open>client_prints_pairs\<close> follows one request from
  the vendors' markets to what the client prints.

  \<^bold>\<open>The running server.\<close> \<open>Server\<close> has the threads of the process as one step relation, \<open>server_step\<close>: the main thread
  (\<^verbatim>\<open>main\<close> with its accept loop, the shut-down with \<^verbatim>\<open>vendor_list_free\<close>), the update thread of every vendor (the
  steps of \<open>VendorLoop\<close>), one thread per connection (\<^verbatim>\<open>do_connect\<close>, which reads one vendor's list after another)
  and the handler of SIGTERM. \<open>ServerInv\<close> proves its invariants by rule induction; \<open>ServerSpec\<close> draws the conclusions:
  every reply, in any interleaving, is the one \<open>do_connect\<close> of \<open>Bridge\<close> gives on lists that were really published;
  how long a list that is being walked stays allocated; that after SIGTERM the server accepts nothing more and can
  finish exactly when no update thread is in a call that does not return; and that a connection which is served
  meanwhile follows the pointer to a vendor as soon as this vendor has been freed. \<open>ServerRun\<close> is progress: the
  steps of one connection, through every market of every vendor, to its reply. \<open>Pipeline\<close> composes the exchanges, the
  server and the client for one round of updates; \<open>Serving\<close> does so for the running server: whatever happens, a reply
  prints pairs that were published, and a connection that has been accepted can be served, if all vendors have
  published documented lists which fit the client's buffer.

  \<^bold>\<open>Websocket.\<close> \<open>Base64\<close> with the round trip; \<open>Websocket\<close> and \<open>WebsocketSpec\<close>: handshake with the request
  and the answer in arbitrary pieces, callbacks, receive buffer;
  \<open>WebsocketRace\<close>: every interleaving of the steps of the two threads that use the buffer; \<open>WebsocketLoop\<close>: opening
  and the event loop, where other threads may queue messages between any two calls of the thread.

  \<^bold>\<open>Tests.\<close> \<open>Acceptance\<close> has the test programs of the repository and the test client; \<open>AcceptanceSpec\<close> says what they
  decide: which answers of the exchanges make the tests of order books pass, what they overlook, and when they crash.

  \<^bold>\<open>Interfaces.\<close> The locale \<open>string_map\<close> with its extension \<open>fresh_map\<close> (\<open>StringMap\<close>) is what clients rely on in the
  hash table; it is interpreted on the model of khash in \<open>KhashOps\<close>, and \<open>Hashtable\<close> and \<open>VendorSpec\<close> use the facts of
  this interpretation only. \<open>owned_nodes\<close> (\<open>Freeing\<close>) is what a list of nodes with strings must keep for its freeing
  loop to be right; it is interpreted for books, markets and vendors. \<open>byte_queue\<close> (\<open>WebsocketSpec\<close>) is the queue
  between the library's thread and the callers; it is interpreted on the receive buffer.

  \<^bold>\<open>Bounds and fuel.\<close> Loops whose end is part of the claim carry fuel, and \<open>Diverges\<close> stands for running out of it. The
  tokenizer loop needs none, each pass advances the position; the probing loops of the hash table have one per bucket, the kick-out
  loop one per entry; the invariants show that this is enough. \<open>poloniex_market_loop\<close> does not end for some
  answers, and this is proved for every amount of fuel. The decoders of markets have one pass more than there are
  bytes; a pass that reads nothing would repeat for ever. The freeing loops need more fuel than the list has nodes.
  The hash table is proved right for at most 2^30 entries, where its 32-bit sizes do not wrap around. The size of a
  message is below 2^64. Sockets and schedules are lists of what happens; when such a list is used up, the
  program waits. The steps of the running server are relations, so their theorems hold for schedules of any length.

  \<^bold>\<open>Logging.\<close> \<open>Logging\<close> has the functions of \<^verbatim>\<open>utils/logging.c\<close> and shows when a line is complete; the other theories
  leave their calls out, since they have no other effect.

  \<^bold>\<open>Not modelled.\<close> \<^verbatim>\<open>include/wslay\<close> is the header of a library; its functions, libcurl, mbedtls, SHA-1, c-protobuf and
  json-c are parameters. The macros of khash for integer keys and for sets are not used by the program.
\<close>

end
